(* ===== verification/Prelude.thy ===== *)
theory Prelude
  imports Main "HOL-Library.Word"
begin

section \<open>Prelude: machine types, byte strings, shared automation\<close>

text \<open>
  The types every component shares. A C \<open>uint8_t\<close>/\<open>char\<close> is an 8-bit word, \<open>uint16_t\<close>,
  \<open>uint32_t\<close> and \<open>uint64_t\<close> are words of their width (so \<open>+\<close> and \<open>*\<close> wrap). A \<open>size_t\<close> that
  counts bytes of a live object is a \<open>nat\<close>: such a count is below \<open>2 ^ 63\<close>, and the theories that
  compute with attacker-chosen lengths keep them as 64-bit words until they have been bounded.
  Text is a list of bytes; \<open>bytes\<close> turns an Isabelle string literal into one.
\<close>

unbundle bit_operations_syntax

type_synonym byte = "8 word"
type_synonym u16 = "16 word"
type_synonym u32 = "32 word"
type_synonym u64 = "64 word"

named_theorems buf_simps \<open>what the buffer operations do to the view of a buffer\<close>
named_theorems os_simps \<open>what the operating-system calls leave unchanged\<close>
named_theorems inv_intros \<open>preservation of the components' invariants\<close>

definition bytes :: "string \<Rightarrow> byte list" where
  "bytes s = map of_char s"

lemma length_bytes [simp]: "length (bytes s) = length s"
  by (simp add: bytes_def)

lemma bytes_Nil [simp]: "bytes [] = []"
  by (simp add: bytes_def)

lemma bytes_append: "bytes (s @ t) = bytes s @ bytes t"
  by (simp add: bytes_def)

text \<open>A C string: the bytes before the terminating NUL (\<open>%s\<close>, \<open>strlen\<close>, \<open>strcmp\<close> read these).\<close>

definition cstr :: "byte list \<Rightarrow> byte list" where
  "cstr xs = takeWhile (\<lambda>c. c \<noteq> 0) xs"

lemma cstr_id: "0 \<notin> set xs \<Longrightarrow> cstr xs = xs"
  by (auto simp: cstr_def)

text \<open>Decimal digits, as \<open>printf\<close> writes an unsigned number (\<open>%d\<close> of a positive int, \<open>%lu\<close>).\<close>

fun dec :: "nat \<Rightarrow> byte list" where
  "dec n = (if n < 10 then [of_nat (48 + n)] else dec (n div 10) @ [of_nat (48 + n mod 10)])"

declare dec.simps [simp del]

lemma dec_not_Nil [simp]: "dec n \<noteq> []"
  by (subst dec.simps) simp

lemma unat_digit: "d < 10 \<Longrightarrow> unat (48 + of_nat d :: byte) = 48 + d"
  by (simp add: unat_word_ariths unat_of_nat)

lemma dec_digits: "\<forall>c \<in> set (dec n). 48 \<le> unat c \<and> unat c \<le> 57"
proof (induction n rule: dec.induct)
  case (1 n)
  then show ?case
    by (subst dec.simps) (auto simp: unat_digit)
qed

lemma length_dec: "n < 10 ^ k \<Longrightarrow> 0 < k \<Longrightarrow> length (dec n) \<le> k"
proof (induction k arbitrary: n)
  case 0
  then show ?case by simp
next
  case (Suc k)
  show ?case
  proof (cases "n < 10")
    case True
    then show ?thesis by (subst dec.simps) simp
  next
    case False
    with Suc.prems have "n div 10 < 10 ^ k" and "0 < k"
      by (auto simp: less_mult_imp_div_less mult.commute intro: ccontr)
    then have "length (dec (n div 10)) \<le> k" by (rule Suc.IH)
    with False show ?thesis by (subst dec.simps) simp
  qed
qed

subsection \<open>Lists\<close>

lemma drop_take_append: "n \<le> length xs \<Longrightarrow> drop n (take n xs @ ys) = ys"
  by simp

lemma length_dropWhile_less:
  "xs \<noteq> [] \<Longrightarrow> P (hd xs) \<Longrightarrow> length (dropWhile P xs) < length xs"
  by (cases xs) (auto intro: le_less_trans [OF length_dropWhile_le])

lemma upt_split_numeral: "i < j \<Longrightarrow> [i..<j] = i # [Suc i..<j]"
  by (rule upt_conv_Cons)

text \<open>Fixed-size blocks of a list, in order; a shorter rest is left out.\<close>

function blocks :: "nat \<Rightarrow> 'a list \<Rightarrow> 'a list list" where
  "blocks k xs = (if 0 < k \<and> k \<le> length xs then take k xs # blocks k (drop k xs) else [])"
  by pat_completeness auto
termination
  by (relation "measure (\<lambda>(k, xs). length xs)") auto

declare blocks.simps [simp del]

definition blocks_rest :: "nat \<Rightarrow> 'a list \<Rightarrow> 'a list" where
  "blocks_rest k xs = drop (length xs div k * k) xs"

lemma blocks_short [simp]: "length xs < k \<Longrightarrow> blocks k xs = []"
  by (simp add: blocks.simps)

lemma blocks_rest_short [simp]: "length xs < k \<Longrightarrow> blocks_rest k xs = xs"
  by (simp add: blocks_rest_def)

lemma blocks_step: "0 < k \<Longrightarrow> k \<le> length xs \<Longrightarrow> blocks k xs = take k xs # blocks k (drop k xs)"
  by (subst blocks.simps) simp

lemma blocks_rest_step:
  assumes "0 < k" and "k \<le> length xs"
  shows "blocks_rest k xs = blocks_rest k (drop k xs)"
proof -
  have "length xs div k = Suc ((length xs - k) div k)"
    using assms by (simp add: le_div_geq)
  then show ?thesis
    by (simp add: blocks_rest_def add.commute)
qed

lemma blocks_one: "length b = k \<Longrightarrow> 0 < k \<Longrightarrow> blocks k b = [b]"
  by (simp add: blocks_step)

lemma blocks_two: "length b = k \<Longrightarrow> length c = k \<Longrightarrow> 0 < k \<Longrightarrow> blocks k (b @ c) = [b, c]"
  by (simp add: blocks_step)

lemma length_blocks_rest: "0 < k \<Longrightarrow> length (blocks_rest k xs) < k"
  by (simp add: blocks_rest_def minus_div_mult_eq_mod)

lemma blocks_append_rest: "0 < k \<Longrightarrow> concat (blocks k xs) @ blocks_rest k xs = xs"
proof (induction k xs rule: blocks.induct)
  case (1 k xs)
  show ?case
  proof (cases "k \<le> length xs")
    case True
    with 1 show ?thesis by (simp add: blocks_step blocks_rest_step)
  next
    case False
    then show ?thesis by simp
  qed
qed

lemma blocks_append:
  assumes "0 < k"
  shows "blocks k (xs @ ys) = blocks k xs @ blocks k (blocks_rest k xs @ ys)"
    and "blocks_rest k (xs @ ys) = blocks_rest k (blocks_rest k xs @ ys)"
  using assms
proof (induction k xs rule: blocks.induct)
  case (1 k xs)
  {
    case 1
    then show ?case
      using "1.IH" by (cases "k \<le> length xs") (simp_all add: blocks_step blocks_rest_step)
  next
    case 2
    then show ?case
      using "1.IH" by (cases "k \<le> length xs") (simp_all add: blocks_step blocks_rest_step)
  }
qed

subsection \<open>Bits and bytes\<close>

lemma join_bits:
  "push_bit n (take_bit m (drop_bit n v)) OR take_bit n v = take_bit (n + m) (v :: 'a::len word)"
  by (rule bit_word_eqI) (auto simp: bit_simps)

lemma all_less_8:
  "(\<forall>n<8. P n) \<longleftrightarrow> P 0 \<and> P 1 \<and> P 2 \<and> P 3 \<and> P 4 \<and> P 5 \<and> P 6 \<and> P (7 :: nat)"
  by (auto simp: All_less_Suc eval_nat_numeral)

lemma byte_eqI:
  fixes a b :: byte
  assumes "bit a 0 = bit b 0" "bit a 1 = bit b 1" "bit a 2 = bit b 2" "bit a 3 = bit b 3"
    and "bit a 4 = bit b 4" "bit a 5 = bit b 5" "bit a 6 = bit b 6" "bit a 7 = bit b 7"
  shows "a = b"
  using assms all_less_8 [of "\<lambda>n. bit a n = bit b n"] by (intro bit_word_eqI) auto

text \<open>Big-endian encodings of a 64-bit number on \<open>k\<close> bytes, and their reading.\<close>

primrec be_enc :: "nat \<Rightarrow> u64 \<Rightarrow> byte list" where
  "be_enc 0 w = []"
| "be_enc (Suc k) w = be_enc k (drop_bit 8 w) @ [ucast w]"

definition be_dec :: "byte list \<Rightarrow> u64" where
  "be_dec bs = foldl (\<lambda>len b. push_bit 8 len OR ucast b) 0 bs"

lemma length_be_enc [simp]: "length (be_enc k w) = k"
  by (induction k arbitrary: w) simp_all

lemma be_dec_Nil [simp]: "be_dec [] = 0"
  by (simp add: be_dec_def)

lemma be_dec_snoc [simp]: "be_dec (bs @ [b]) = push_bit 8 (be_dec bs) OR ucast b"
  by (simp add: be_dec_def)

lemma be_dec_enc: "be_dec (be_enc k w) = take_bit (8 * k) w"
proof (induction k arbitrary: w)
  case 0
  then show ?case by simp
next
  case (Suc k)
  have "ucast (ucast w :: byte) = take_bit 8 w" by (rule bit_word_eqI) (auto simp: bit_simps)
  with Suc show ?case by (simp add: join_bits)
qed

lemma be_dec_bound: "length bs \<le> k \<Longrightarrow> take_bit (8 * k) (be_dec bs) = be_dec bs"
proof (induction bs arbitrary: k rule: rev_induct)
  case Nil
  then show ?case by simp
next
  case (snoc b bs)
  then obtain j where k: "k = Suc j" by (cases k) auto
  with snoc have IH: "take_bit (8 * j) (be_dec bs) = be_dec bs" by simp
  have "take_bit (8 * k) (push_bit 8 (be_dec bs) OR ucast b) =
      push_bit 8 (take_bit (8 * j) (be_dec bs)) OR ucast b"
    unfolding k by (rule bit_word_eqI) (auto simp: bit_simps dest: bit_imp_le_length)
  then show ?case unfolding be_dec_snoc IH .
qed

lemma be_enc_dec: "length bs \<le> 8 \<Longrightarrow> be_enc (length bs) (be_dec bs) = bs"
proof (induction bs rule: rev_induct)
  case Nil
  then show ?case by simp
next
  case (snoc b bs)
  have "ucast (push_bit 8 (be_dec bs) OR ucast b) = b"
    by (rule bit_word_eqI) (auto simp: bit_simps)
  moreover have "drop_bit 8 (push_bit 8 (be_dec bs) OR ucast b) = take_bit 56 (be_dec bs)"
    by (rule bit_word_eqI) (auto simp: bit_simps dest: bit_imp_le_length)
  moreover have "take_bit 56 (be_dec bs) = be_dec bs" using be_dec_bound [of bs 7] snoc.prems by simp
  ultimately show ?case using snoc by simp
qed

end
