(* ===== verification/Interfaces.thy ===== *)
theory Interfaces
  imports Prelude
begin

section \<open>The interfaces between the components\<close>

text \<open>
  Each locale is a contract one component relies on and another provides: the operations are its
  parameters, the promised laws its assumptions, and what a client may conclude is proved once,
  inside it. Every locale is interpreted on the model's own definitions in the theory of the
  component that provides them.
\<close>

subsection \<open>Byte consumers\<close>

text \<open>
  A consumer is given a byte stream piece by piece; \<open>rep s xs\<close> says that state \<open>s\<close> is what the bytes
  \<open>xs\<close> lead to. The client's fact is that the way the stream was cut does not matter.
\<close>

locale byte_consumer =
  fixes feed :: "'s \<Rightarrow> byte list \<Rightarrow> 's"
    and rep :: "'s \<Rightarrow> byte list \<Rightarrow> bool"
  assumes rep_feed: "rep s xs \<Longrightarrow> rep (feed s ys) (xs @ ys)"
begin

lemma rep_chunks: "rep s xs \<Longrightarrow> rep (foldl feed s chunks) (xs @ concat chunks)"
proof (induction chunks arbitrary: s xs)
  case Nil
  then show ?case by simp
next
  case (Cons c chunks)
  from Cons.prems have "rep (feed s c) (xs @ c)" by (rule rep_feed)
  then have "rep (foldl feed (feed s c) chunks) ((xs @ c) @ concat chunks)" by (rule Cons.IH)
  then show ?case by simp
qed

end

subsection \<open>First-in first-out containers\<close>

text \<open>
  What the threads rely on when they hand work to each other: \<open>enq\<close> appends, \<open>deq\<close> takes the oldest
  element or says the container is empty, and \<open>contents\<close> is the sequence still inside.
\<close>

locale fifo =
  fixes enq :: "'a \<Rightarrow> 'q \<Rightarrow> 'q"
    and deq :: "'q \<Rightarrow> ('a \<times> 'q) option"
    and contents :: "'q \<Rightarrow> 'a list"
    and inv :: "'q \<Rightarrow> bool"
    and ok :: "'a \<Rightarrow> 'q \<Rightarrow> bool"
  assumes contents_enq: "inv q \<Longrightarrow> ok x q \<Longrightarrow> contents (enq x q) = contents q @ [x]"
    and inv_enq: "inv q \<Longrightarrow> ok x q \<Longrightarrow> inv (enq x q)"
    and deq_None: "inv q \<Longrightarrow> deq q = None \<longleftrightarrow> contents q = []"
    and deq_Some: "inv q \<Longrightarrow> deq q = Some (x, q') \<Longrightarrow> contents q = x # contents q' \<and> inv q'"
begin

lemma deq_cases:
  assumes "inv q"
  obtains "deq q = None" "contents q = []"
  | x q' where "deq q = Some (x, q')" "contents q = x # contents q'" "inv q'"
proof (cases "deq q")
  case None
  with assms that(1) show ?thesis by (simp add: deq_None)
next
  case (Some p)
  obtain x q' where "p = (x, q')" by (cases p)
  with Some assms that(2) show ?thesis by (auto dest: deq_Some)
qed

fun take_n :: "nat \<Rightarrow> 'q \<Rightarrow> 'a list \<times> 'q" where
  "take_n 0 q = ([], q)"
| "take_n (Suc n) q = (case deq q of None \<Rightarrow> ([], q)
     | Some (x, q') \<Rightarrow> (case take_n n q' of (xs, q'') \<Rightarrow> (x # xs, q'')))"

lemma take_n_contents:
  "inv q \<Longrightarrow> fst (take_n n q) = take n (contents q) \<and> contents (snd (take_n n q)) = drop n (contents q) \<and>
     inv (snd (take_n n q))"
proof (induction n arbitrary: q)
  case 0
  then show ?case by simp
next
  case (Suc n)
  from Suc.prems show ?case
  proof (cases rule: deq_cases)
    case 1
    with Suc.prems show ?thesis by simp
  next
    case (2 x q')
    with Suc.IH [of q'] show ?thesis by (cases "take_n n q'") simp
  qed
qed

end

subsection \<open>Self-delimiting codecs\<close>

text \<open>
  What a sender and a receiver that share a byte stream rely on: decoding undoes encoding and leaves
  the rest of the stream alone, and it accepts encodings only. The client's facts: a stream is cut
  into units in one way only, and the units come out as they were put in.
\<close>

locale codec =
  fixes enc :: "'a \<Rightarrow> byte list"
    and decd :: "byte list \<Rightarrow> ('a \<times> byte list) option"
    and valid :: "'a \<Rightarrow> bool"
  assumes decd_enc: "valid x \<Longrightarrow> decd (enc x @ r) = Some (x, r)"
    and decd_sound: "decd b = Some (x, r) \<Longrightarrow> valid x \<and> b = enc x @ r"
    and enc_nonempty: "valid x \<Longrightarrow> enc x \<noteq> []"
begin

lemma enc_unique:
  assumes "valid x" and "valid y" and "enc x @ r = enc y @ r'"
  shows "x = y \<and> r = r'"
proof -
  have "Some (x, r) = decd (enc x @ r)" by (rule decd_enc [OF assms(1), symmetric])
  also have "\<dots> = decd (enc y @ r')" by (simp only: assms(3))
  also have "\<dots> = Some (y, r')" by (rule decd_enc [OF assms(2)])
  finally show ?thesis by simp
qed

lemma decd_iff: "decd b = Some (x, r) \<longleftrightarrow> valid x \<and> b = enc x @ r"
proof
  assume "valid x \<and> b = enc x @ r"
  then show "decd b = Some (x, r)" by (simp only: decd_enc)
qed (rule decd_sound)

lemma decd_shorter: "decd b = Some (x, r) \<Longrightarrow> length r < length b"
  using decd_sound [of b x r] enc_nonempty [of x] by simp

function decode_all :: "byte list \<Rightarrow> 'a list \<times> byte list" where
  "decode_all b = (case decd b of None \<Rightarrow> ([], b)
     | Some (x, r) \<Rightarrow> (case decode_all r of (xs, r') \<Rightarrow> (x # xs, r')))"
  by pat_completeness auto
termination
  by (relation "measure length") (auto intro: decd_shorter [OF sym])

declare decode_all.simps [simp del]

lemma decode_all_concat:
  assumes "list_all valid xs" and "decd r = None"
  shows "decode_all (concat (map enc xs) @ r) = (xs, r)"
  using assms
proof (induction xs)
  case Nil
  then show ?case by (subst decode_all.simps) simp
next
  case (Cons x xs)
  then show ?case by (subst decode_all.simps) (simp add: decd_enc)
qed

lemma decode_all_sound:
  "decode_all b = (xs, r) \<Longrightarrow> list_all valid xs \<and> b = concat (map enc xs) @ r \<and> decd r = None"
proof (induction b arbitrary: xs r rule: decode_all.induct)
  case (1 b)
  show ?case
  proof (cases "decd b")
    case None
    with 1 show ?thesis by (subst (asm) decode_all.simps) simp
  next
    case (Some p)
    obtain x q where p: "p = (x, q)" by (cases p)
    obtain ys r'' where q: "decode_all q = (ys, r'')" by (cases "decode_all q")
    have "decode_all b = (x # ys, r'')" using Some p q by (subst decode_all.simps) simp
    moreover have "list_all valid ys \<and> q = concat (map enc ys) @ r'' \<and> decd r'' = None"
      by (rule 1(1) [OF _ refl q]) (simp add: Some p)
    ultimately show ?thesis using 1(2) decd_sound [of b x q] Some p by simp
  qed
qed

end

end
