(* ===== verification/Os.thy ===== *)
theory Os
  imports Prelude
begin

section \<open>The operating system as seen by the program\<close>

text \<open>
  The C code calls the kernel and the allocator, whose answers it does not control. They are
  explicit inputs of the model: a script of the answers still to come for each kind of call, used
  up one by one. A script that has run out answers with the harmless outcome (the allocation
  succeeds, the socket has no data, the peer accepts everything), so every finite behaviour of the
  environment is some script. What the program did to the outside is recorded: the bytes that went
  to each socket, the \<open>epoll_ctl\<close> calls and the closed descriptors.

  The record is extensible: a component with more shared state extends it, and every operation
  stated here for \<^theory_text>\<open>'a os_scheme\<close> applies to the extension as it is.
\<close>

datatype rx_res = RxData "byte list" | RxEof | RxAgain | RxIntr | RxErr

datatype io_res = IoN nat | IoAgain | IoIntr | IoErr

datatype rand_res = RndData "byte list" | RndIntr | RndErr

datatype ep_op = EPOLL_CTL_ADD | EPOLL_CTL_MOD | EPOLL_CTL_DEL

datatype ep_flag = EPOLLIN | EPOLLOUT | EPOLLET | EPOLLRDHUP | EPOLLONESHOT | EPOLLHUP | EPOLLERR

record timespec =
  tv_sec :: nat
  tv_nsec :: nat

record os =
  mallocs :: "bool list"
  rxs :: "int \<Rightarrow> rx_res list"
  txs :: "int \<Rightarrow> io_res list"
  wire :: "int \<Rightarrow> byte list"
  ep_rets :: "bool list"
  ep_log :: "(ep_op \<times> int \<times> int \<times> ep_flag list) list"
  closed :: "int list"
  rands :: "rand_res list"
  realtime :: "timespec list"
  monotonic :: "timespec list"

text \<open>\<open>malloc\<close>, \<open>calloc\<close> and \<open>realloc\<close>: did the call return memory?\<close>

definition os_alloc :: "'a os_scheme \<Rightarrow> bool \<times> 'a os_scheme" where
  "os_alloc s = (case mallocs s of [] \<Rightarrow> (True, s) | r # rs \<Rightarrow> (r, s\<lparr>mallocs := rs\<rparr>))"

text \<open>
  \<open>recv(fd, p, k, MSG_DONTWAIT)\<close>: at most \<open>k\<close> of the bytes that arrived, the rest stays in the
  kernel. An empty \<open>RxData\<close> is the return value 0, which every caller reads as end of file; the end
  of the stream is seen again by every later call.
\<close>

definition os_recv :: "int \<Rightarrow> nat \<Rightarrow> 'a os_scheme \<Rightarrow> rx_res \<times> 'a os_scheme" where
  "os_recv fd k s =
     (case rxs s fd of
        [] \<Rightarrow> (RxAgain, s)
      | RxEof # rs \<Rightarrow> (RxEof, s)
      | RxData bs # rs \<Rightarrow>
          (if length bs \<le> k then (RxData bs, s\<lparr>rxs := (rxs s)(fd := rs)\<rparr>)
           else (RxData (take k bs), s\<lparr>rxs := (rxs s)(fd := RxData (drop k bs) # rs)\<rparr>))
      | r # rs \<Rightarrow> (r, s\<lparr>rxs := (rxs s)(fd := rs)\<rparr>))"

text \<open>
  \<open>send(fd, p, n, \<dots>)\<close>: the kernel takes a prefix of the bytes (possibly none, the return value 0)
  or fails.
\<close>

definition os_send :: "int \<Rightarrow> byte list \<Rightarrow> 'a os_scheme \<Rightarrow> io_res \<times> 'a os_scheme" where
  "os_send fd bs s =
     (case txs s fd of
        [] \<Rightarrow> (IoN (length bs), s\<lparr>wire := (wire s)(fd := wire s fd @ bs)\<rparr>)
      | IoN k # rs \<Rightarrow>
          (let n = min k (length bs) in
           (IoN n, s\<lparr>txs := (txs s)(fd := rs), wire := (wire s)(fd := wire s fd @ take n bs)\<rparr>))
      | r # rs \<Rightarrow> (r, s\<lparr>txs := (txs s)(fd := rs)\<rparr>))"

definition os_epoll_ctl ::
  "int \<Rightarrow> ep_op \<Rightarrow> int \<Rightarrow> ep_flag list \<Rightarrow> 'a os_scheme \<Rightarrow> int \<times> 'a os_scheme" where
  "os_epoll_ctl epfd op fd evs s =
     (let s1 = s\<lparr>ep_log := ep_log s @ [(op, epfd, fd, evs)]\<rparr> in
      case ep_rets s of [] \<Rightarrow> (0, s1) | r # rs \<Rightarrow> (if r then 0 else -1, s1\<lparr>ep_rets := rs\<rparr>))"

text \<open>Is the descriptor in the set of the epoll descriptor, according to the calls made?\<close>

definition watched :: "int \<Rightarrow> int \<Rightarrow> (ep_op \<times> int \<times> int \<times> ep_flag list) list \<Rightarrow> bool" where
  "watched ep fd log = fold (\<lambda>(op, e, f, evs) on. if e = ep \<and> f = fd
     then (case op of EPOLL_CTL_ADD \<Rightarrow> True | EPOLL_CTL_DEL \<Rightarrow> False | EPOLL_CTL_MOD \<Rightarrow> on) else on) log False"

lemma watched_last [simp]:
  "watched ep fd (log @ [(EPOLL_CTL_ADD, ep, fd, evs)])" "\<not> watched ep fd (log @ [(EPOLL_CTL_DEL, ep, fd, evs)])"
  by (simp_all add: watched_def)

definition os_close :: "int \<Rightarrow> 'a os_scheme \<Rightarrow> 'a os_scheme" where
  "os_close fd s = s\<lparr>closed := closed s @ [fd]\<rparr>"

definition os_realtime :: "'a os_scheme \<Rightarrow> timespec \<times> 'a os_scheme" where
  "os_realtime s = (case realtime s of [] \<Rightarrow> (\<lparr>tv_sec = 0, tv_nsec = 0\<rparr>, s)
                    | t # ts \<Rightarrow> (t, s\<lparr>realtime := ts\<rparr>))"

definition os_monotonic :: "'a os_scheme \<Rightarrow> timespec \<times> 'a os_scheme" where
  "os_monotonic s = (case monotonic s of [] \<Rightarrow> (\<lparr>tv_sec = 0, tv_nsec = 0\<rparr>, s)
                     | t # ts \<Rightarrow> (t, s\<lparr>monotonic := ts\<rparr>))"

text \<open>\<open>getrandom(p, k, 0)\<close>: some of the bytes asked for, or a failure; without a script, zeros.\<close>

definition os_getrandom :: "nat \<Rightarrow> 'a os_scheme \<Rightarrow> rand_res \<times> 'a os_scheme" where
  "os_getrandom k s = (case rands s of [] \<Rightarrow> (RndData (replicate k 0), s)
     | RndData bs # rs \<Rightarrow> (RndData (take k bs), s\<lparr>rands := rs\<rparr>)
     | r # rs \<Rightarrow> (r, s\<lparr>rands := rs\<rparr>))"

definition os_idle :: os where
  "os_idle = \<lparr>mallocs = [], rxs = (\<lambda>_. []), txs = (\<lambda>_. []), wire = (\<lambda>_. []), ep_rets = [],
     ep_log = [], closed = [], rands = [], realtime = [], monotonic = []\<rparr>"

subsection \<open>What the calls leave unchanged\<close>

lemma os_alloc_cases:
  assumes "os_alloc s = (ok, s')"
  obtains "mallocs s = []" "ok" "s' = s"
  | r rs where "mallocs s = r # rs" "ok = r" "s' = s\<lparr>mallocs := rs\<rparr>"
  using assms by (auto simp: os_alloc_def split: list.splits)

lemma os_alloc_no_failure: "mallocs s = [] \<Longrightarrow> os_alloc s = (True, s)"
  by (simp add: os_alloc_def)

lemma os_alloc_frame:
  "os_alloc s = (ok, s') \<Longrightarrow> rxs s' = rxs s \<and> txs s' = txs s \<and> wire s' = wire s \<and>
     ep_log s' = ep_log s \<and> closed s' = closed s \<and> os.more s' = os.more s"
  by (auto elim!: os_alloc_cases)

text \<open>How much a socket can still deliver: the measure of every read loop.\<close>

fun rx_weight :: "rx_res list \<Rightarrow> nat" where
  "rx_weight [] = 0"
| "rx_weight (RxData bs # rs) = Suc (length bs) + rx_weight rs"
| "rx_weight (r # rs) = Suc (rx_weight rs)"

fun rx_bytes :: "rx_res list \<Rightarrow> byte list" where
  "rx_bytes [] = []"
| "rx_bytes (RxData bs # rs) = bs @ rx_bytes rs"
| "rx_bytes (r # rs) = rx_bytes rs"

lemma os_recv_weight:
  "os_recv fd k s = (RxData bs, s') \<Longrightarrow> bs \<noteq> [] \<Longrightarrow> rx_weight (rxs s' fd) < rx_weight (rxs s fd)"
  by (auto simp: os_recv_def split: list.splits rx_res.splits if_splits)

lemma os_recv_intr_weight:
  "os_recv fd k s = (RxIntr, s') \<Longrightarrow> rx_weight (rxs s' fd) < rx_weight (rxs s fd)"
  by (auto simp: os_recv_def split: list.splits rx_res.splits if_splits)

lemma os_recv_bytes:
  "os_recv fd k s = (RxData bs, s') \<Longrightarrow> rx_bytes (rxs s fd) = bs @ rx_bytes (rxs s' fd) \<and> length bs \<le> k"
  by (auto simp: os_recv_def split: list.splits rx_res.splits if_splits)

lemma os_recv_other_bytes:
  "os_recv fd k s = (r, s') \<Longrightarrow> \<forall>bs. r \<noteq> RxData bs \<Longrightarrow> rx_bytes (rxs s' fd) = rx_bytes (rxs s fd)"
  by (auto simp: os_recv_def split: list.splits rx_res.splits if_splits)

lemma os_recv_frame:
  "os_recv fd k s = (r, s') \<Longrightarrow> mallocs s' = mallocs s \<and> txs s' = txs s \<and> wire s' = wire s \<and>
     ep_log s' = ep_log s \<and> closed s' = closed s \<and> os.more s' = os.more s"
  by (auto simp: os_recv_def split: list.splits rx_res.splits if_splits)

lemma os_send_frame:
  "os_send fd bs s = (r, s') \<Longrightarrow> mallocs s' = mallocs s \<and> rxs s' = rxs s \<and>
     ep_log s' = ep_log s \<and> closed s' = closed s \<and> os.more s' = os.more s"
  by (auto simp: os_send_def Let_def split: list.splits io_res.splits)

lemma os_send_wire:
  "os_send fd bs s = (IoN n, s') \<Longrightarrow> n \<le> length bs \<and> wire s' = (wire s)(fd := wire s fd @ take n bs)"
  by (auto simp: os_send_def Let_def split: list.splits io_res.splits)

lemma os_send_fail_wire:
  "os_send fd bs s = (r, s') \<Longrightarrow> \<forall>n. r \<noteq> IoN n \<Longrightarrow> wire s' = wire s"
  by (auto simp: os_send_def Let_def split: list.splits io_res.splits)

lemma os_send_intr_shorter:
  "os_send fd bs s = (IoIntr, s') \<Longrightarrow> length (txs s' fd) < length (txs s fd)"
  by (auto simp: os_send_def Let_def split: list.splits io_res.splits)

lemma os_epoll_ctl_frame:
  "os_epoll_ctl epfd op fd evs s = (rc, s') \<Longrightarrow> mallocs s' = mallocs s \<and> rxs s' = rxs s \<and>
     txs s' = txs s \<and> wire s' = wire s \<and> closed s' = closed s \<and> os.more s' = os.more s \<and>
     ep_log s' = ep_log s @ [(op, epfd, fd, evs)]"
  by (auto simp: os_epoll_ctl_def Let_def split: list.splits)

end
