(* ===== verification/RfcSpec.thy ===== *)
theory RfcSpec
  imports Prelude
begin

section \<open>What the RFCs say: SHA-1, base64, masking, the accept value\<close>

text \<open>
  The standards the server refers to, written from their text on plain numbers and lists, before and
  apart from the model of the code: RFC 3174 (SHA-1), RFC 4648 (base64), and RFC 6455's masking, key
  and accept value. No definition of this theory mentions one of the model's; the components import
  it and prove that the code computes these functions. Nothing here is in the map.
\<close>

subsection \<open>RFC 3174\<close>

text \<open>Section 5: the functions \<open>f(t; B, C, D)\<close> and the constants \<open>K(t)\<close>, by ranges of \<open>t\<close>.\<close>

definition rfc_f :: "nat \<Rightarrow> u32 \<Rightarrow> u32 \<Rightarrow> u32 \<Rightarrow> u32" where
  "rfc_f t B C D = [(B AND C) OR (NOT B AND D), B XOR C XOR D, (B AND C) OR (B AND D) OR (C AND D),
     B XOR C XOR D] ! (t div 20)"

definition rfc_K :: "nat \<Rightarrow> u32" where
  "rfc_K t = [0x5A827999, 0x6ED9EBA1, 0x8F1BBCDC, 0xCA62C1D6] ! (t div 20)"

text \<open>Section 6.1: the words of a block, most significant octet first, and the sequence \<open>W(t)\<close>.\<close>

fun rfc_W :: "byte list \<Rightarrow> nat \<Rightarrow> u32" where
  "rfc_W M t =
     (if t < 16 then of_nat (unat (M ! (4 * t)) * 2 ^ 24 + unat (M ! (4 * t + 1)) * 2 ^ 16 +
                             unat (M ! (4 * t + 2)) * 2 ^ 8 + unat (M ! (4 * t + 3)))
      else word_rotl 1 (rfc_W M (t - 3) XOR rfc_W M (t - 8) XOR rfc_W M (t - 14) XOR rfc_W M (t - 16)))"

declare rfc_W.simps [simp del]

primrec rfc_steps :: "byte list \<Rightarrow> nat \<Rightarrow> u32 \<times> u32 \<times> u32 \<times> u32 \<times> u32 \<Rightarrow> u32 \<times> u32 \<times> u32 \<times> u32 \<times> u32" where
  "rfc_steps M 0 s = s"
| "rfc_steps M (Suc t) s =
     (case rfc_steps M t s of (A, B, C, D, E) \<Rightarrow>
        (word_rotl 5 A + rfc_f t B C D + E + rfc_W M t + rfc_K t, A, word_rotl 30 B, C, D))"

definition rfc_block :: "u32 list \<Rightarrow> byte list \<Rightarrow> u32 list" where
  "rfc_block H M =
     (case rfc_steps M 80 (H ! 0, H ! 1, H ! 2, H ! 3, H ! 4) of (A, B, C, D, E) \<Rightarrow>
        [H ! 0 + A, H ! 1 + B, H ! 2 + C, H ! 3 + D, H ! 4 + E])"

text \<open>
  Section 4: a one bit, the fewest zeros that make the total a multiple of 512 bits, and the length in
  bits as two words. (RFC 3174 is defined below \<open>2 ^ 64\<close> bits; beyond, the length is taken modulo that.)
\<close>

definition rfc_pad :: "byte list \<Rightarrow> byte list" where
  "rfc_pad m = m @ [0x80] @ replicate ((64 - (length m + 9) mod 64) mod 64) 0 @
     map (\<lambda>i. of_nat (8 * length m div 256 ^ (7 - i))) [0..<8]"

definition rfc3174 :: "byte list \<Rightarrow> byte list" where
  "rfc3174 m = concat (map (\<lambda>H. map (\<lambda>i. of_nat (unat H div 256 ^ (3 - i))) [0..<4])
     (foldl rfc_block [0x67452301, 0xEFCDAB89, 0x98BADCFE, 0x10325476, 0xC3D2E1F0] (blocks 64 (rfc_pad m))))"

subsection \<open>RFC 4648\<close>

text \<open>Table 1, by ranges, and section 4: groups of 24 bits, a last group of 8 or 16 bits filled with zeros.\<close>

definition rfc_char :: "nat \<Rightarrow> byte" where
  "rfc_char k = of_nat (if k < 26 then 65 + k else if k < 52 then 97 + (k - 26)
     else if k < 62 then 48 + (k - 52) else if k = 62 then 43 else 47)"

fun rfc4648 :: "byte list \<Rightarrow> byte list" where
  "rfc4648 (x # y # z # rest) =
     (let n = unat x * 2 ^ 16 + unat y * 2 ^ 8 + unat z in
      [rfc_char (n div 2 ^ 18), rfc_char (n div 2 ^ 12 mod 64), rfc_char (n div 2 ^ 6 mod 64),
       rfc_char (n mod 64)] @ rfc4648 rest)"
| "rfc4648 [x, y] =
     (let n = unat x * 2 ^ 8 + unat y in
      [rfc_char (n div 2 ^ 10), rfc_char (n div 2 ^ 4 mod 64), rfc_char (n mod 16 * 4), 61])"
| "rfc4648 [x] = [rfc_char (unat x div 4), rfc_char (unat x mod 4 * 16), 61, 61]"
| "rfc4648 [] = []"

subsection \<open>RFC 6455\<close>

text \<open>Section 5.3: octet \<open>i\<close> of the payload is combined with octet \<open>i mod 4\<close> of the key.\<close>

definition rfc_mask :: "byte list \<Rightarrow> byte list \<Rightarrow> byte list" where
  "rfc_mask p key = map (\<lambda>i. p ! i XOR key ! (i mod 4)) [0..<length p]"

text \<open>
  Section 4.1: the key of the opening handshake is 16 bytes in base64. Sixteen bytes are 22 characters
  of the alphabet and two of padding. Section 4.2.2: the accept value is the base64 of the SHA-1 of the
  key followed by the protocol's GUID.
\<close>

definition rfc_key :: "byte list \<Rightarrow> bool" where
  "rfc_key key \<longleftrightarrow> (\<exists>cs. key = cs @ bytes ''=='' \<and> length cs = 22 \<and> set cs \<subseteq> rfc_char ` {..<64})"

definition rfc_accept :: "byte list \<Rightarrow> byte list" where
  "rfc_accept key = rfc4648 (rfc3174 (key @ bytes ''258EAFA5-E914-47DA-95CA-C5AB0DC85B11''))"

end
