(* ===== verification/Base64.thy ===== *)
theory Base64
  imports RfcSpec
begin

section \<open>Base64 (src/src/base64.c)\<close>

text \<open>
  Encoding and decoding of the RFC 4648 alphabet. The encoder walks the input three bytes at a time,
  the decoder four characters at a time; both are recursions on the list. A C return value \<open>-1\<close> is
  the integer \<open>-1\<close> here too, and the output buffer is the second component. The last group of lemmas
  shows that the encoder is RFC 4648's (\<open>rfc4648\<close> of the theory \<open>RfcSpec\<close>) and which 24 characters the
  length check counts as 16 bytes.
\<close>

definition ENC_TABLE :: "byte list" where
  "ENC_TABLE = bytes ''ABCDEFGHIJKLMNOPQRSTUVWXYZabcdefghijklmnopqrstuvwxyz0123456789+/''"

definition enc64 :: "u32 \<Rightarrow> byte" where
  "enc64 k = ENC_TABLE ! unat k"

definition decodeChar :: "byte \<Rightarrow> int" where
  "decodeChar c =
     (if 65 \<le> c \<and> c \<le> 90 then uint c - 65
      else if 97 \<le> c \<and> c \<le> 122 then uint c - 97 + 26
      else if 48 \<le> c \<and> c \<le> 57 then uint c - 48 + 52
      else if c = 43 then 62
      else if c = 47 then 63
      else if c = 61 then 64
      else -1)"

definition base64EncodedLen :: "nat \<Rightarrow> nat" where
  "base64EncodedLen n = (n + 2) div 3 * 4"

fun base64Encode :: "byte list \<Rightarrow> byte list" where
  "base64Encode (x # y # z # rest) =
     (let v = push_bit 16 (ucast x :: u32) OR push_bit 8 (ucast y) OR ucast z in
      [enc64 (drop_bit 18 v AND 0x3F), enc64 (drop_bit 12 v AND 0x3F),
       enc64 (drop_bit 6 v AND 0x3F), enc64 (v AND 0x3F)] @ base64Encode rest)"
| "base64Encode [x, y] =
     (let v = push_bit 16 (ucast x :: u32) OR push_bit 8 (ucast y) in
      [enc64 (drop_bit 18 v AND 0x3F), enc64 (drop_bit 12 v AND 0x3F),
       enc64 (drop_bit 6 v AND 0x3F), 61])"
| "base64Encode [x] =
     (let v = push_bit 16 (ucast x :: u32) in
      [enc64 (drop_bit 18 v AND 0x3F), enc64 (drop_bit 12 v AND 0x3F), 61, 61])"
| "base64Encode [] = []"

definition checkedLen :: "byte list \<Rightarrow> int \<times> nat" where
  "checkedLen xs =
     (let n = length xs in
      if n = 0 then (0, 0)
      else if n mod 4 \<noteq> 0 then (-1, 0)
      else
        let pad = (if xs ! (n - 1) = 61 then if xs ! (n - 2) = 61 then 2 else 1 else 0) in
        if list_ex (\<lambda>c. decodeChar c < 0 \<or> decodeChar c = 64) (take (n - pad) xs) then (-1, 0)
        else if list_ex (\<lambda>c. c \<noteq> 61) (drop (n - pad) xs) then (-1, 0)
        else (int (n div 4 * 3 - pad), pad))"

definition base64DecodedLen :: "byte list \<Rightarrow> int" where
  "base64DecodedLen xs = fst (checkedLen xs)"

fun decodeLoop :: "byte list \<Rightarrow> byte list" where
  "decodeLoop (d0 # d1 # d2 # d3 # rest) =
     (let c0 = decodeChar d0; c1 = decodeChar d1; c2 = decodeChar d2; c3 = decodeChar d3;
          v = push_bit 18 (word_of_int c0 :: u32) OR push_bit 12 (word_of_int c1) OR
              push_bit 6 (word_of_int c2 AND 0x3F) OR (word_of_int c3 AND 0x3F)
      in [ucast (drop_bit 16 v)] @ (if c2 \<noteq> 64 then [ucast (drop_bit 8 v)] else []) @
         (if c3 \<noteq> 64 then [ucast v] else []) @ decodeLoop rest)"
| "decodeLoop _ = []"

definition base64Decode :: "byte list \<Rightarrow> int \<times> byte list" where
  "base64Decode xs =
     (let outLen = fst (checkedLen xs) in if outLen < 0 then (-1, []) else (outLen, decodeLoop xs))"

subsection \<open>The alphabet\<close>

lemma length_ENC_TABLE: "length ENC_TABLE = 64"
  by (simp add: ENC_TABLE_def)

lemma decodeChar_table: "list_all (\<lambda>k. decodeChar (ENC_TABLE ! k) = int k) [0..<64]"
  by code_simp

lemma decodeChar_nth: "k < 64 \<Longrightarrow> decodeChar (ENC_TABLE ! k) = int k"
  using decodeChar_table by (simp add: list_all_iff)

lemma and_3F: "(w :: u32) AND 0x3F = take_bit 6 w"
  by (simp add: take_bit_eq_mask mask_eq_exp_minus_1)

lemma unat_take_bit_6: "unat (take_bit 6 (w :: u32)) < 64"
proof -
  have "take_bit 6 (unat w) < 2 ^ 6" by (rule take_bit_nat_less_exp)
  then show ?thesis by (simp add: unsigned_take_bit_eq)
qed

lemma decodeChar_enc64 [simp]:
  "decodeChar (enc64 (take_bit 6 w)) = uint (take_bit 6 w)"
  using decodeChar_nth [OF unat_take_bit_6 [of w]] by (simp add: enc64_def)

lemma uint_take_bit_6: "0 \<le> uint (take_bit 6 (w :: u32))" "uint (take_bit 6 w) < 64"
proof -
  have "uint (take_bit 6 w) = int (unat (take_bit 6 w))" by (simp only: uint_nat)
  then show "0 \<le> uint (take_bit 6 w)" "uint (take_bit 6 w) < 64"
    using unat_take_bit_6 [of w] by linarith+
qed

lemma uint_take_bit_6_neq [simp]: "uint (take_bit 6 (w :: u32)) \<noteq> 64"
  using uint_take_bit_6 [of w] by simp

lemma decodeChar_pad [simp]: "decodeChar 61 = 64"
  by (simp add: decodeChar_def)

lemma enc64_not_pad [simp]: "enc64 (take_bit 6 w) \<noteq> 61"
proof
  assume "enc64 (take_bit 6 w) = 61"
  then have "decodeChar (enc64 (take_bit 6 w)) = 64" by (simp only: decodeChar_pad)
  then show False by simp
qed

subsection \<open>Decoding inverts encoding\<close>

lemma join_sextets:
  "push_bit 18 (take_bit 6 (drop_bit 18 v)) OR push_bit 12 (take_bit 6 (drop_bit 12 v)) OR
     push_bit 6 (take_bit 6 (drop_bit 6 v)) OR take_bit 6 v = take_bit 24 (v :: u32)"
  using join_bits [of 6 6 v] join_bits [of 12 6 v] join_bits [of 18 6 v] by (simp add: or.assoc)

lemma split_triple:
  fixes x y z :: byte
  defines "v \<equiv> push_bit 16 (ucast x :: u32) OR push_bit 8 (ucast y) OR ucast z"
  shows "ucast (drop_bit 16 (take_bit 24 v)) = x" and "ucast (drop_bit 8 (take_bit 24 v)) = y"
    and "ucast (take_bit 24 v) = z"
  unfolding v_def by (rule bit_word_eqI; auto simp: bit_simps dest: bit_imp_le_length)+

lemma split_double:
  fixes x y :: byte
  defines "v \<equiv> push_bit 16 (ucast x :: u32) OR push_bit 8 (ucast y)"
  shows "ucast (drop_bit 16 (take_bit 24 v)) = x" and "ucast (drop_bit 8 (take_bit 24 v)) = y"
    and "take_bit 6 v = 0"
  unfolding v_def by (rule bit_word_eqI; auto simp: bit_simps dest: bit_imp_le_length)+

lemma split_single:
  fixes x :: byte
  defines "v \<equiv> push_bit 16 (ucast x :: u32)"
  shows "ucast (drop_bit 16 (take_bit 24 v)) = x" and "take_bit 6 v = 0" and "take_bit 6 (drop_bit 6 v) = 0"
  unfolding v_def by (rule bit_word_eqI; auto simp: bit_simps dest: bit_imp_le_length)+

lemma decode_group:
  "decodeLoop (enc64 (drop_bit 18 v AND 0x3F) # enc64 (drop_bit 12 v AND 0x3F) #
       enc64 (drop_bit 6 v AND 0x3F) # enc64 (v AND 0x3F) # rest) =
     ucast (drop_bit 16 (take_bit 24 v)) # ucast (drop_bit 8 (take_bit 24 v)) #
     ucast (take_bit 24 v) # decodeLoop rest"
  by (simp add: and_3F flip: join_sextets)

lemma decode_group_pad1:
  assumes "take_bit 6 v = 0"
  shows "decodeLoop [enc64 (drop_bit 18 v AND 0x3F), enc64 (drop_bit 12 v AND 0x3F),
       enc64 (drop_bit 6 v AND 0x3F), 61] =
     [ucast (drop_bit 16 (take_bit 24 v)), ucast (drop_bit 8 (take_bit 24 v))]"
  using assms by (simp add: and_3F flip: join_sextets)

lemma decode_group_pad2:
  assumes "take_bit 6 v = 0" and "take_bit 6 (drop_bit 6 v) = 0"
  shows "decodeLoop [enc64 (drop_bit 18 v AND 0x3F), enc64 (drop_bit 12 v AND 0x3F), 61, 61] =
     [ucast (drop_bit 16 (take_bit 24 v))]"
  using assms by (simp add: and_3F flip: join_sextets)

lemma decodeLoop_encode: "decodeLoop (base64Encode xs) = xs"
proof (induction xs rule: base64Encode.induct)
  case (1 x y z rest)
  then have IH: "decodeLoop (base64Encode rest) = rest" by simp
  show ?case
    by (simp only: base64Encode.simps Let_def decode_group split_triple IH append.simps)
next
  case (2 x y)
  show ?case
    by (simp only: base64Encode.simps Let_def decode_group_pad1 [OF split_double(3)] split_double)
next
  case (3 x)
  show ?case
    by (simp only: base64Encode.simps Let_def decode_group_pad2 [OF split_single(2,3)] split_single)
qed simp

subsection \<open>The length check\<close>

definition isEnc :: "byte \<Rightarrow> bool" where
  "isEnc c \<longleftrightarrow> 0 \<le> decodeChar c \<and> decodeChar c < 64"

lemma decodeChar_le: "decodeChar c \<le> 64"
  by (auto simp: decodeChar_def word_le_def)

lemma isEnc_alt: "isEnc c \<longleftrightarrow> \<not> (decodeChar c < 0 \<or> decodeChar c = 64)"
  using decodeChar_le [of c] by (auto simp: isEnc_def)

lemma isEnc_enc64 [simp]: "isEnc (enc64 (take_bit 6 w))"
  using uint_take_bit_6 [of w] by (simp add: isEnc_def)

lemma length_base64Encode: "length (base64Encode xs) = base64EncodedLen (length xs)"
proof (induction xs rule: base64Encode.induct)
  case (1 x y z rest)
  have "(length (x # y # z # rest) + 2) div 3 = Suc ((length rest + 2) div 3)"
    using div_add_self2 [of 3 "length rest + 2"] by simp
  with 1 show ?case by (simp add: Let_def base64EncodedLen_def)
qed (simp_all add: Let_def base64EncodedLen_def)

text \<open>A string passes the check exactly when it is some alphabet characters and then its padding.\<close>

lemma checkedLen_intro:
  assumes "list_all isEnc ys" and "pad \<le> 2" and "(length ys + pad) mod 4 = 0" and "ys \<noteq> []"
  shows "checkedLen (ys @ replicate pad 61) = (int ((length ys + pad) div 4 * 3 - pad), pad)"
proof -
  have "ys ! (length ys - Suc 0) \<in> set ys" using assms(4) by simp
  then have last: "ys ! (length ys - Suc 0) \<noteq> 61"
    using assms(1) by (auto simp: list_all_iff isEnc_def)
  have np: "\<not> list_ex (\<lambda>c. decodeChar c < 0 \<or> decodeChar c = 64) ys"
    using assms(1) by (auto simp: list_all_iff list_ex_iff isEnc_alt)
  consider "pad = 0" | "pad = 1" | "pad = 2" using assms(2) by linarith
  then show ?thesis
    using last np assms(3,4)
    by cases (auto simp: checkedLen_def Let_def nth_append numeral_2_eq_2)
qed

text \<open>The encoder's output: alphabet characters, then the padding the length asks for.\<close>

fun encPad :: "byte list \<Rightarrow> nat" where
  "encPad (x # y # z # rest) = encPad rest"
| "encPad [x, y] = 1"
| "encPad [x] = 2"
| "encPad [] = 0"

definition encBody :: "byte list \<Rightarrow> byte list" where
  "encBody xs = take (length (base64Encode xs) - encPad xs) (base64Encode xs)"

lemma encPad_le: "encPad xs \<le> 2 \<and> encPad xs + 2 \<le> length (base64Encode xs) + 2 * of_bool (xs = [])"
  by (induction xs rule: encPad.induct) (auto simp: Let_def)

lemma base64Encode_shape:
  "base64Encode xs = encBody xs @ replicate (encPad xs) 61 \<and> list_all isEnc (encBody xs)"
proof (induction xs rule: base64Encode.induct)
  case (1 x y z rest)
  have "encPad rest \<le> length (base64Encode rest)"
    using encPad_le [of rest] by (cases "rest = []") auto
  then have "Suc (Suc (Suc (Suc (length (base64Encode rest))))) - encPad rest =
      Suc (Suc (Suc (Suc (length (base64Encode rest) - encPad rest))))"
    by (simp add: Suc_diff_le)
  then have "encBody (x # y # z # rest) = take 4 (base64Encode (x # y # z # rest)) @ encBody rest"
    by (simp add: encBody_def Let_def)
  with 1 show ?case by (simp add: Let_def and_3F del: take_bit_or)
qed (simp_all add: Let_def encBody_def and_3F numeral_2_eq_2 del: take_bit_or)

lemma length_encBody: "length (encBody xs) + encPad xs = (length xs + 2) div 3 * 4"
  by (metis base64Encode_shape base64EncodedLen_def length_append length_base64Encode length_replicate)

lemma encPad_mod: "encPad xs = (3 - length xs mod 3) mod 3"
  by (induction xs rule: encPad.induct) simp_all

lemma padded_length: "(n + 2) div 3 * 3 - (3 - n mod 3) mod 3 = (n :: nat)"
proof -
  consider "n mod 3 = 0" | "n mod 3 = 1" | "n mod 3 = 2" by linarith
  then show ?thesis
  proof cases
    case 1
    then have "n = 3 * (n div 3)" by presburger
    then obtain q where "n = 3 * q" by blast
    then show ?thesis by simp
  next
    case 2
    then have "n = 3 * (n div 3) + 1" by presburger
    then obtain q where "n = 3 * q + 1" by blast
    then show ?thesis by (simp add: mod_Suc)
  next
    case 3
    then have "n = 3 * (n div 3) + 2" by presburger
    then obtain q where "n = 3 * q + 2" by blast
    then show ?thesis by (simp add: mod_Suc div_Suc)
  qed
qed

lemma checkedLen_encode: "fst (checkedLen (base64Encode xs)) = int (length xs)"
proof (cases "xs = []")
  case True
  then show ?thesis by (simp add: checkedLen_def)
next
  case False
  let ?n = "length xs" and ?p = "encPad xs"
  have shape: "base64Encode xs = encBody xs @ replicate ?p 61" and enc: "list_all isEnc (encBody xs)"
    using base64Encode_shape [of xs] by simp_all
  have pad: "?p \<le> 2" and "?p + 2 \<le> (?n + 2) div 3 * 4"
    using encPad_le [of xs] False by (simp_all add: length_base64Encode base64EncodedLen_def)
  then have ne: "encBody xs \<noteq> []" using length_encBody [of xs] by auto
  have mod: "(length (encBody xs) + ?p) mod 4 = 0" by (simp add: length_encBody)
  have "(length (encBody xs) + ?p) div 4 * 3 - ?p = (?n + 2) div 3 * 3 - ?p"
    by (simp add: length_encBody)
  also have "\<dots> = ?n" by (simp only: encPad_mod padded_length)
  finally have "(length (encBody xs) + ?p) div 4 * 3 - ?p = ?n" .
  then show ?thesis
    by (simp add: shape checkedLen_intro [OF enc pad mod ne])
qed

lemma base64DecodedLen_encode: "base64DecodedLen (base64Encode xs) = int (length xs)"
  by (simp add: base64DecodedLen_def checkedLen_encode)

subsection \<open>Checking the length without decoding\<close>

lemma fst_checkedLen_cases:
  "checkedLen xs = (-1, 0) \<or> (0 \<le> fst (checkedLen xs) \<and> length xs mod 4 = 0)"
  by (auto simp: checkedLen_def Let_def)

text \<open>Four characters with no padding decode to three bytes, so only the last group can be shorter.\<close>

lemma length_decodeLoop_full:
  "list_all isEnc xs \<Longrightarrow> length xs mod 4 = 0 \<Longrightarrow> length (decodeLoop xs) = length xs div 4 * 3"
  by (induction xs rule: decodeLoop.induct) (auto simp: isEnc_alt Let_def)

lemma decodeLoop_append:
  "length xs mod 4 = 0 \<Longrightarrow> decodeLoop (xs @ ys) = decodeLoop xs @ decodeLoop ys"
  by (induction xs rule: decodeLoop.induct) (auto simp: Let_def)

lemma checkedLen_elim:
  assumes "0 \<le> fst (checkedLen xs)"
  obtains "xs = []" | ys pad where "xs = ys @ replicate pad 61" "list_all isEnc ys" "pad \<le> 2" "xs \<noteq> []"
    "length xs mod 4 = 0" "checkedLen xs = (int (length xs div 4 * 3 - pad), pad)"
proof (cases "xs = []")
  case True
  with that(1) show ?thesis by simp
next
  case False
  define pad where "pad = (if xs ! (length xs - 1) = 61 then if xs ! (length xs - 2) = 61 then 2 else 1 else (0 :: nat))"
  have mod: "length xs mod 4 = 0" using assms False by (auto simp: checkedLen_def Let_def split: if_splits)
  have ok: "list_all isEnc (take (length xs - pad) xs)" "\<forall>c \<in> set (drop (length xs - pad) xs). c = 61"
    and val: "checkedLen xs = (int (length xs div 4 * 3 - pad), pad)"
    using assms False mod unfolding checkedLen_def Let_def pad_def [symmetric]
    by (auto simp: list_all_iff list_ex_iff isEnc_alt split: if_splits)
  have "pad \<le> 2" by (simp add: pad_def)
  moreover have "4 \<le> length xs"
  proof (rule ccontr)
    assume "\<not> 4 \<le> length xs"
    with mod have "length xs = 0" by simp
    with False show False by simp
  qed
  ultimately have "drop (length xs - pad) xs = replicate pad 61"
    using ok(2) by (intro replicate_eqI) auto
  then have "xs = take (length xs - pad) xs @ replicate pad 61" by (metis append_take_drop_id)
  from that(2) [OF this ok(1) \<open>pad \<le> 2\<close> False mod val] show ?thesis .
qed

lemma length_decodeLoop_last:
  "list_all isEnc ts \<Longrightarrow> 0 < pad \<Longrightarrow> pad \<le> 2 \<Longrightarrow> length ts + pad = 4 \<Longrightarrow>
     length (decodeLoop (ts @ replicate pad 61)) = 3 - pad"
  by (auto simp: numeral_eq_Suc length_Suc_conv le_Suc_eq isEnc_def Let_def)

lemma length_decodeLoop:
  assumes "0 \<le> fst (checkedLen xs)"
  shows "int (length (decodeLoop xs)) = fst (checkedLen xs)"
  using assms
proof (cases rule: checkedLen_elim)
  case 1
  then show ?thesis by (simp add: checkedLen_def)
next
  case (2 ys pad)
  show ?thesis
  proof (cases "pad = 0")
    case True
    with 2 show ?thesis by (simp add: length_decodeLoop_full)
  next
    case False
    from 2(5) obtain m where m: "length xs = 4 * m" by (metis mod_0_imp_dvd dvdE)
    with 2(4) obtain k where "m = Suc k" by (cases m) auto
    with m have len: "length ys + pad = 4 * k + 4" by (simp add: 2(1))
    define gs ts where "gs = take (4 * k) ys" and "ts = drop (4 * k) ys"
    have parts: "ys = gs @ ts" "length gs = 4 * k" "length ts + pad = 4"
      using len 2(3) by (simp_all add: gs_def ts_def)
    then have "length (decodeLoop xs) = 3 * k + (3 - pad)"
      using 2(1,2,3) False length_decodeLoop_full [of gs] length_decodeLoop_last [of ts pad]
        decodeLoop_append [of gs "ts @ replicate pad 61"] by (simp add: mult.commute)
    moreover have "length xs div 4 * 3 - pad = 3 * k + (3 - pad)"
      using parts 2(1,3) by simp
    ultimately show ?thesis using 2(6) by simp
  qed
qed

subsection \<open>The encoder is RFC 4648's\<close>

lemma enc_table_rfc: "list_all (\<lambda>k. ENC_TABLE ! k = rfc_char k) [0..<64]"
  by code_simp

lemma enc64_rfc:
  assumes "n < 2 ^ 24"
  shows "enc64 (drop_bit k (of_nat n :: u32) AND 0x3F) = rfc_char (n div 2 ^ k mod 64)"
proof -
  have "unat (of_nat n :: u32) = n" using assms by (simp add: unat_of_nat take_bit_nat_eq_self)
  then have "unat (take_bit 6 (drop_bit k (of_nat n :: u32))) = take_bit 6 (drop_bit k n)"
    using assms by (simp add: unsigned_take_bit_eq unsigned_drop_bit_eq take_bit_nat_eq_self)
  also have "\<dots> = n div 2 ^ k mod 64" by (simp add: take_bit_eq_mod drop_bit_eq_div)
  finally show ?thesis using enc_table_rfc by (simp add: enc64_def and_3F list_all_iff)
qed

lemma triple_word:
  "push_bit 16 (ucast (x :: byte)) OR push_bit 8 (ucast (y :: byte)) OR ucast (z :: byte) =
     (of_nat (unat x * 2 ^ 16 + unat y * 2 ^ 8 + unat z) :: u32)"
proof -
  have "push_bit 16 (ucast x :: u32) OR push_bit 8 (ucast y) OR ucast z =
      push_bit 16 (ucast x) + push_bit 8 (ucast y) + ucast z"
    by (subst disjunctive_add_eq_or, (rule bit_word_eqI, auto simp: bit_simps dest: bit_imp_le_length)[1])+
       (simp only: or.assoc)
  then show ?thesis by (simp add: push_bit_eq_mult mult.commute)
qed

lemma triple_bound: "unat (x :: byte) * 2 ^ 16 + unat (y :: byte) * 2 ^ 8 + unat (z :: byte) < 2 ^ 24"
  using unsigned_less [of x, where ?'a = nat] unsigned_less [of y, where ?'a = nat]
    unsigned_less [of z, where ?'a = nat] by simp

lemma base64Encode_rfc: "base64Encode xs = rfc4648 xs"
proof (induction xs rule: base64Encode.induct)
  case (1 x y z rest)
  let ?n = "unat x * 2 ^ 16 + unat y * 2 ^ 8 + unat z"
  have "?n div 2 ^ 18 < 64" using triple_bound [of x y z] by (simp add: less_mult_imp_div_less)
  then show ?case
    using 1 enc64_rfc [OF triple_bound [of x y z], of 18] enc64_rfc [OF triple_bound [of x y z], of 12]
      enc64_rfc [OF triple_bound [of x y z], of 6] enc64_rfc [OF triple_bound [of x y z], of 0]
    by (simp only: base64Encode.simps rfc4648.simps triple_word Let_def) simp
next
  case (2 x y)
  let ?m = "unat x * 2 ^ 8 + unat y"
  let ?n = "unat x * 2 ^ 16 + unat y * 2 ^ 8 + unat (0 :: byte)"
  have n: "?n = ?m * 256" by simp
  have "?m div 2 ^ 10 < 64" using triple_bound [of x y 0] by (simp add: less_mult_imp_div_less)
  moreover have "?n div 2 ^ 18 = ?m div 2 ^ 10" and "?n div 2 ^ 12 = ?m div 2 ^ 4"
    using div_mult2_eq [of ?n 256 "2 ^ 10"] div_mult2_eq [of ?n 256 "2 ^ 4"] unfolding n by simp_all
  moreover have "?n div 2 ^ 6 mod 64 = ?m mod 16 * 4"
    unfolding n using mult_mod_right [of 4 ?m 16] by (simp add: mult.commute)
  ultimately show ?case
    using enc64_rfc [OF triple_bound [of x y 0], of 18] enc64_rfc [OF triple_bound [of x y 0], of 12]
      enc64_rfc [OF triple_bound [of x y 0], of 6]
    by (simp only: base64Encode.simps rfc4648.simps triple_word [of x y 0, simplified] Let_def) simp
next
  case (3 x)
  let ?n = "unat x * 2 ^ 16 + unat (0 :: byte) * 2 ^ 8 + unat (0 :: byte)"
  have n: "?n = unat x * 65536" by simp
  have "unat x div 4 < 64" using triple_bound [of x 0 0] by (simp add: less_mult_imp_div_less)
  moreover have "?n div 2 ^ 18 = unat x div 4"
    using div_mult2_eq [of ?n 65536 4] unfolding n by simp
  moreover have "?n div 2 ^ 12 mod 64 = unat x mod 4 * 16"
    unfolding n using mult_mod_right [of 16 "unat x" 4] by (simp add: mult.commute)
  ultimately show ?case
    using enc64_rfc [OF triple_bound [of x 0 0], of 18] enc64_rfc [OF triple_bound [of x 0 0], of 12]
    by (simp only: base64Encode.simps rfc4648.simps triple_word [of x 0 0, simplified] Let_def) simp
qed simp

lemma alphabet_rfc: "list_all (\<lambda>k. isEnc (rfc_char k)) [0..<64]"
  by code_simp

lemma rfc_char_decode: "isEnc c \<Longrightarrow> c = rfc_char (nat (decodeChar c))"
proof -
  have id: "(of_nat (unat c) :: byte) = c" by simp
  assume "isEnc c"
  then consider "65 \<le> unat c" "unat c \<le> 90" | "97 \<le> unat c" "unat c \<le> 122" | "48 \<le> unat c" "unat c \<le> 57" | "c = 43" | "c = 47"
    by (auto simp: isEnc_def decodeChar_def word_le_nat_alt split: if_splits)
  then show ?thesis
  proof cases
    case 1
    have "unat c - 65 < 26" using 1 by linarith+
    then have "rfc_char (unat c - 65) = of_nat (unat c)" using 1 unfolding rfc_char_def by simp
    moreover have "decodeChar c = int (unat c - 65)" using 1 by (simp add: decodeChar_def word_le_nat_alt of_nat_diff)
    ultimately show ?thesis by (simp only: nat_int id)
  next
    case 2
    have "\<not> unat c - 71 < 26" "unat c - 71 < 52" using 2 by linarith+
    then have "rfc_char (unat c - 71) = of_nat (unat c)" using 2 unfolding rfc_char_def by simp
    moreover have "decodeChar c = int (unat c - 71)" using 2 by (simp add: decodeChar_def word_le_nat_alt of_nat_diff)
    ultimately show ?thesis by (simp only: nat_int id)
  next
    case 3
    have "\<not> unat c + 4 < 26" "\<not> unat c + 4 < 52" "unat c + 4 < 62" using 3 by linarith+
    then have "rfc_char (unat c + 4) = of_nat (unat c)" using 3 unfolding rfc_char_def by simp
    moreover have "decodeChar c = int (unat c + 4)" using 3 by (simp add: decodeChar_def word_le_nat_alt)
    ultimately show ?thesis by (simp only: nat_int id)
  qed (simp_all add: decodeChar_def rfc_char_def)
qed

lemma isEnc_rfc: "isEnc c \<longleftrightarrow> c \<in> rfc_char ` {..<64}"
proof
  assume enc: "isEnc c"
  then have "nat (decodeChar c) \<in> {..<64}" by (auto simp: isEnc_def)
  with rfc_char_decode [OF enc] show "c \<in> rfc_char ` {..<64}" by blast
next
  assume "c \<in> rfc_char ` {..<64}"
  then show "isEnc c" using alphabet_rfc by (auto simp: list_all_iff)
qed

lemma checkedLen_16:
  assumes "length key = 24"
  shows "base64DecodedLen key = 16 \<longleftrightarrow> rfc_key key"
proof
  assume l: "base64DecodedLen key = 16"
  then have "0 \<le> fst (checkedLen key)" by (simp add: base64DecodedLen_def)
  then show "rfc_key key"
  proof (cases rule: checkedLen_elim)
    case 1
    with assms show ?thesis by simp
  next
    case (2 ys pad)
    then have "pad = 2" using l assms by (simp add: base64DecodedLen_def)
    with 2(1,2) assms show ?thesis
      by (auto simp: rfc_key_def bytes_def numeral_2_eq_2 list_all_iff isEnc_rfc intro!: exI [of _ ys])
  qed
next
  assume "rfc_key key"
  then obtain cs where "key = cs @ replicate 2 61" "length cs = 22" "list_all isEnc cs"
    by (auto simp: rfc_key_def bytes_def numeral_2_eq_2 list_all_iff isEnc_rfc)
  then show "base64DecodedLen key = 16"
    using checkedLen_intro [of cs 2] by (cases "cs = []") (auto simp: base64DecodedLen_def)
qed

subsection \<open>Properties\<close>

text \<open>C34: Decoding an encoded byte string gives back the string and its length, and the encoded form
  has the announced length: for every input, the server's \<open>Sec-WebSocket-Accept\<close> and the client's
  \<open>Sec-WebSocket-Key\<close> lose nothing.\<close>

theorem base64_roundtrip:
  "base64Decode (base64Encode xs) = (int (length xs), xs) \<and>
   length (base64Encode xs) = base64EncodedLen (length xs)"
  by (simp add: base64Decode_def checkedLen_encode decodeLoop_encode length_base64Encode)

text \<open>C35: The length check that does not decode (\<open>base64DecodedLen\<close>, used to vet the handshake key)
  agrees with the decoder on every input: both reject the same strings, and on the others the decoder
  writes exactly the number of bytes the check announced (the size callers allocate).\<close>

theorem base64_decoded_len:
  "fst (base64Decode cs) = base64DecodedLen cs \<and>
   length (snd (base64Decode cs)) = nat (base64DecodedLen cs)"
  using length_decodeLoop [of cs] fst_checkedLen_cases [of cs]
  by (auto simp: base64Decode_def base64DecodedLen_def Let_def)

end
