(* ===== verification/Sha1.thy ===== *)
theory Sha1
  imports Interfaces RfcSpec
begin

section \<open>SHA-1 (src/src/sha1.c)\<close>

text \<open>
  The streaming context \<open>Sha1_t\<close> and its three operations, on 32-bit words. \<open>sbuf\<close> is the filled
  part of \<open>buf[64]\<close>, so \<open>bufLen\<close> is its length: the code never reads the bytes above \<open>bufLen\<close>. The
  specification is \<open>rfc3174\<close> (theory \<open>RfcSpec\<close>), which uses none of the definitions below. The proof
  has two halves: the streaming operations compute \<open>sha1_fold\<close> (the code's own compression function
  folded over the padded message), and the code's padding, schedule, rounds and constants are the RFC's.
\<close>

record Sha1_t =
  sh :: "u32 list"
  totalLen :: u64
  sbuf :: "byte list"

definition rotl32 :: "u32 \<Rightarrow> nat \<Rightarrow> u32" where
  "rotl32 x n = push_bit n x OR drop_bit (32 - n) x"

definition sha1_iv :: "u32 list" where
  "sha1_iv = [0x67452301, 0xEFCDAB89, 0x98BADCFE, 0x10325476, 0xC3D2E1F0]"

definition sha1Init :: Sha1_t where
  "sha1Init = \<lparr>sh = sha1_iv, totalLen = 0, sbuf = []\<rparr>"

text \<open>The first loop of \<open>sha1Block\<close>: sixteen big-endian words from the block.\<close>

fun sha1Words :: "byte list \<Rightarrow> u32 list" where
  "sha1Words (a # b # c # d # rest) =
     (push_bit 24 (ucast a) OR push_bit 16 (ucast b) OR push_bit 8 (ucast c) OR ucast d) # sha1Words rest"
| "sha1Words _ = []"

text \<open>The second loop: words 16 to 79 from the ones before them.\<close>

definition sha1Extend :: "u32 list \<Rightarrow> nat \<Rightarrow> u32 list" where
  "sha1Extend w i = w @ [rotl32 (w ! (i - 3) XOR w ! (i - 8) XOR w ! (i - 14) XOR w ! (i - 16)) 1]"

definition sha1Schedule :: "byte list \<Rightarrow> u32 list" where
  "sha1Schedule block = foldl sha1Extend (sha1Words block) [16..<80]"

definition sha1_f :: "nat \<Rightarrow> u32 \<Rightarrow> u32 \<Rightarrow> u32 \<Rightarrow> u32" where
  "sha1_f i b cc d =
     (if i < 20 then (b AND cc) OR (NOT b AND d)
      else if i < 40 then b XOR cc XOR d
      else if i < 60 then (b AND cc) OR (b AND d) OR (cc AND d)
      else b XOR cc XOR d)"

definition sha1_k :: "nat \<Rightarrow> u32" where
  "sha1_k i = (if i < 20 then 0x5A827999 else if i < 40 then 0x6ED9EBA1
               else if i < 60 then 0x8F1BBCDC else 0xCA62C1D6)"

text \<open>One of the eighty rounds; the round number travels with the word it uses.\<close>

fun sha1Round :: "u32 \<times> u32 \<times> u32 \<times> u32 \<times> u32 \<Rightarrow> nat \<times> u32 \<Rightarrow> u32 \<times> u32 \<times> u32 \<times> u32 \<times> u32" where
  "sha1Round (a, b, cc, d, e) (i, w) =
     (rotl32 a 5 + sha1_f i b cc d + e + sha1_k i + w, a, rotl32 b 30, cc, d)"

definition sha1Block :: "u32 list \<Rightarrow> byte list \<Rightarrow> u32 list" where
  "sha1Block h block =
     (case foldl sha1Round (h ! 0, h ! 1, h ! 2, h ! 3, h ! 4) (zip [0..<80] (sha1Schedule block)) of
        (a, b, cc, d, e) \<Rightarrow> [h ! 0 + a, h ! 1 + b, h ! 2 + cc, h ! 3 + d, h ! 4 + e])"

text \<open>The loop over whole blocks of the input, and what is left of it.\<close>

function sha1Whole :: "u32 list \<Rightarrow> byte list \<Rightarrow> u32 list \<times> byte list" where
  "sha1Whole h p = (if 64 \<le> length p then sha1Whole (sha1Block h (take 64 p)) (drop 64 p) else (h, p))"
  by pat_completeness auto
termination
  by (relation "measure (\<lambda>(h, p). length p)") auto

declare sha1Whole.simps [simp del]

definition sha1Update :: "Sha1_t \<Rightarrow> byte list \<Rightarrow> Sha1_t" where
  "sha1Update c data =
     (let c0 = c\<lparr>totalLen := totalLen c + of_nat (length data)\<rparr>;
          (c1, p) =
            (if sbuf c0 \<noteq> [] then
               let need = 64 - length (sbuf c0);
                   tk = (if length data < need then length data else need);
                   buf = sbuf c0 @ take tk data
               in if length buf = 64 then (c0\<lparr>sh := sha1Block (sh c0) buf, sbuf := []\<rparr>, drop tk data)
                  else (c0\<lparr>sbuf := buf\<rparr>, drop tk data)
             else (c0, data));
          (h, p') = sha1Whole (sh c1) p;
          c2 = c1\<lparr>sh := h\<rparr>
      in if p' \<noteq> [] then c2\<lparr>sbuf := p'\<rparr> else c2)"

definition be64 :: "u64 \<Rightarrow> byte list" where
  "be64 x = map (\<lambda>i. ucast (drop_bit (56 - 8 * i) x)) [0..<8]"

definition be32 :: "u32 \<Rightarrow> byte list" where
  "be32 x = map (\<lambda>i. ucast (drop_bit (24 - 8 * i) x)) [0..<4]"

definition sha1Final :: "Sha1_t \<Rightarrow> byte list" where
  "sha1Final c =
     (let bitLen = totalLen c * 8;
          buf1 = sbuf c @ [0x80];
          (h, buf2) =
            (if 56 < length buf1 then (sha1Block (sh c) (buf1 @ replicate (64 - length buf1) 0), [])
             else (sh c, buf1));
          buf3 = buf2 @ replicate (56 - length buf2) 0;
          h' = sha1Block h (buf3 @ be64 bitLen)
      in concat (map be32 h'))"

definition sha1 :: "byte list \<Rightarrow> byte list" where
  "sha1 data = sha1Final (sha1Update sha1Init data)"

subsection \<open>The message as a whole\<close>

definition sha1_pad :: "byte list \<Rightarrow> byte list" where
  "sha1_pad m = m @ [0x80] @ replicate ((119 - length m mod 64) mod 64) 0 @ be64 (of_nat (length m) * 8)"

definition sha1_fold :: "byte list \<Rightarrow> byte list" where
  "sha1_fold m = concat (map be32 (foldl sha1Block sha1_iv (blocks 64 (sha1_pad m))))"

text \<open>What a context stands for: the bytes it has been given so far.\<close>

definition sha1Rep :: "Sha1_t \<Rightarrow> byte list \<Rightarrow> bool" where
  "sha1Rep c m \<longleftrightarrow> sh c = foldl sha1Block sha1_iv (blocks 64 m) \<and> sbuf c = blocks_rest 64 m \<and>
     totalLen c = of_nat (length m)"

lemma sha1Whole_blocks: "sha1Whole h p = (foldl sha1Block h (blocks 64 p), blocks_rest 64 p)"
proof (induction h p rule: sha1Whole.induct)
  case (1 h p)
  show ?case
  proof (cases "64 \<le> length p")
    case True
    with 1 show ?thesis by (subst sha1Whole.simps) (simp add: blocks_step blocks_rest_step)
  next
    case False
    then show ?thesis by (subst sha1Whole.simps) simp
  qed
qed

lemma sha1Rep_init: "sha1Rep sha1Init []"
  by (simp add: sha1Rep_def sha1Init_def)

lemma sha1Rep_update:
  assumes "sha1Rep c m"
  shows "sha1Rep (sha1Update c data) (m @ data)"
proof -
  let ?r = "blocks_rest 64 m"
  have rest: "length ?r < 64" by (rule length_blocks_rest) simp
  note app = blocks_append [of 64 m data, simplified]
  show ?thesis
  proof (cases "?r = []")
    case True
    with assms app show ?thesis
      by (simp add: sha1Rep_def sha1Update_def Let_def sha1Whole_blocks)
  next
    case ne: False
    show ?thesis
    proof (cases "length ?r + length data < 64")
      case True
      then have "length data < 64 - length ?r" by linarith
      with True ne assms app show ?thesis
        by (simp add: sha1Rep_def sha1Update_def Let_def sha1Whole_blocks)
    next
      case False
      let ?need = "64 - length ?r"
      from False rest have "take 64 (?r @ data) = ?r @ take ?need data"
        and "drop 64 (?r @ data) = drop ?need data" by simp_all
      with False rest have "blocks 64 (?r @ data) = (?r @ take ?need data) # blocks 64 (drop ?need data)"
        and "blocks_rest 64 (?r @ data) = blocks_rest 64 (drop ?need data)"
        by (simp_all add: blocks_step blocks_rest_step)
      with False rest ne assms app show ?thesis
        by (auto simp: sha1Rep_def sha1Update_def Let_def sha1Whole_blocks min_def)
    qed
  qed
qed

interpretation sha: byte_consumer sha1Update sha1Rep
  by unfold_locales (rule sha1Rep_update)

lemma length_be64 [simp]: "length (be64 x) = 8"
  by (simp add: be64_def)

lemma sha1_zeros_short: "r < 56 \<Longrightarrow> (119 - r) mod 64 = 55 - (r :: nat)"
proof -
  assume "r < 56"
  then have "119 - r = 55 - r + 64" by simp
  then show ?thesis by (simp only: mod_add_self2) simp
qed

lemma sha1_zeros_long: "56 \<le> r \<Longrightarrow> r < 64 \<Longrightarrow> (119 - r) mod 64 = 63 - r + (56 :: nat)"
  by simp

lemma sha1Final_rep:
  assumes "sha1Rep c m"
  shows "sha1Final c = sha1_fold m"
proof -
  let ?r = "blocks_rest 64 m" and ?len = "be64 (of_nat (length m) * 8)"
  let ?z = "(119 - length m mod 64) mod 64"
  have r: "length ?r = length m mod 64"
    by (simp add: blocks_rest_def minus_div_mult_eq_mod)
  have pad: "blocks 64 (sha1_pad m) =
      blocks 64 m @ blocks 64 (?r @ [0x80] @ replicate ?z 0 @ ?len)"
    using blocks_append [of 64 m "[0x80] @ replicate ?z 0 @ ?len"] by (simp add: sha1_pad_def)
  show ?thesis
  proof (cases "length ?r < 56")
    case True
    then have z: "?z = 55 - length ?r" unfolding r by (rule sha1_zeros_short)
    let ?b = "?r @ [0x80] @ replicate (55 - length ?r) 0 @ ?len"
    have "length ?b = 64" using True by simp
    then have "blocks 64 ?b = [?b]" by (rule blocks_one) simp
    with True pad assms show ?thesis
      unfolding z by (simp add: sha1_fold_def sha1Final_def sha1Rep_def Let_def)
  next
    case False
    have lt: "length ?r < 64" by (rule length_blocks_rest) simp
    from False lt have z: "?z = (63 - length ?r) + 56"
      unfolding r not_less by (rule sha1_zeros_long)
    let ?b1 = "?r @ [0x80] @ replicate (63 - length ?r) 0" and ?b2 = "replicate 56 0 @ ?len"
    have "length ?b1 = 64" and "length ?b2 = 64" using lt by simp_all
    then have "blocks 64 (?b1 @ ?b2) = [?b1, ?b2]" by (rule blocks_two) simp
    moreover have "?r @ [0x80] @ replicate ?z 0 @ ?len = ?b1 @ ?b2"
      unfolding z replicate_add by (simp only: append.assoc append.simps)
    ultimately have "blocks 64 (sha1_pad m) = blocks 64 m @ [?b1, ?b2]"
      by (simp only: pad)
    with False assms show ?thesis
      by (simp add: sha1_fold_def sha1Final_def sha1Rep_def Let_def)
  qed
qed

lemma sha1_eq_fold: "sha1 m = sha1_fold m"
  using sha1Rep_update [OF sha1Rep_init, of m] by (simp add: sha1_def sha1Final_rep)

subsection \<open>The code's compression function is RFC 3174's\<close>

lemma rotl32_rotl:
  assumes "0 < n" and "n < 32"
  shows "rotl32 x n = word_rotl n x"
proof (rule bit_word_eqI)
  fix k :: nat
  assume k: "k < LENGTH(32)"
  show "bit (rotl32 x n) k = bit (word_rotl n x) k"
  proof (cases "n \<le> k")
    case True
    have "k + (32 - n) = (k - n) + 32" using assms True by simp
    then have m: "(k + (32 - n)) mod 32 = k - n" using k by (simp only: mod_add_self2) simp
    have "\<not> bit x (32 - n + k)" using assms True by (auto dest: bit_imp_le_length)
    then show ?thesis using assms True k
      using m by (simp add: rotl32_def bit_or_iff bit_push_bit_iff bit_drop_bit_eq bit_word_rotl_iff)
  next
    case False
    then have "(k + (32 - n)) mod 32 = k + (32 - n)" and "32 - n + k = k + (32 - n)" using assms by simp_all
    with False assms k show ?thesis
      by (simp add: rotl32_def bit_or_iff bit_push_bit_iff bit_drop_bit_eq bit_word_rotl_iff)
  qed
qed

lemma sha1_fk:
  assumes "t < 80"
  shows "sha1_f t = rfc_f t" and "sha1_k t = rfc_K t"
proof -
  consider "t < 20" | "20 \<le> t" "t < 40" | "40 \<le> t" "t < 60" | "60 \<le> t" "t < 80" using assms by linarith
  then have "(t < 20 \<and> t div 20 = 0) \<or> (20 \<le> t \<and> t < 40 \<and> t div 20 = 1) \<or>
    (40 \<le> t \<and> t < 60 \<and> t div 20 = 2) \<or> (60 \<le> t \<and> t div 20 = 3)"
    by cases (auto intro: div_nat_eqI)
  then show "sha1_f t = rfc_f t" and "sha1_k t = rfc_K t"
    by (auto simp: fun_eq_iff sha1_f_def rfc_f_def sha1_k_def rfc_K_def)
qed

lemma be_word:
  "push_bit 24 (ucast (a :: byte)) OR push_bit 16 (ucast (b :: byte)) OR push_bit 8 (ucast (c :: byte)) OR
     ucast (d :: byte) = (of_nat (unat a * 2 ^ 24 + unat b * 2 ^ 16 + unat c * 2 ^ 8 + unat d) :: u32)"
proof -
  have "push_bit 24 (ucast a :: u32) OR push_bit 16 (ucast b) OR push_bit 8 (ucast c) OR ucast d =
      push_bit 24 (ucast a) + push_bit 16 (ucast b) + push_bit 8 (ucast c) + ucast d"
    by (subst disjunctive_add_eq_or, (rule bit_word_eqI, auto simp: bit_simps dest: bit_imp_le_length)[1])+
       (simp only: or.assoc)
  then show ?thesis by (simp add: push_bit_eq_mult mult.commute)
qed

lemma sha1Words_W: "length block = 4 * n \<Longrightarrow> n \<le> 16 \<Longrightarrow> sha1Words block = map (rfc_W block) [0..<n]"
proof -
  have "length bl = 4 * n \<Longrightarrow> sha1Words bl = map (\<lambda>t. of_nat (unat (bl ! (4 * t)) * 2 ^ 24 +
     unat (bl ! (4 * t + 1)) * 2 ^ 16 + unat (bl ! (4 * t + 2)) * 2 ^ 8 + unat (bl ! (4 * t + 3)))) [0..<n]" for bl
  proof (induction n arbitrary: bl)
    case 0
    then show ?case by simp
  next
    case (Suc n)
    then have "length bl = Suc (Suc (Suc (Suc (4 * n))))" by simp
    then obtain a b c d rest where bl: "bl = a # b # c # d # rest" and "length rest = 4 * n"
      unfolding length_Suc_conv by blast
    with Suc.IH show ?case
      by (simp only: bl sha1Words.simps be_word upt_conv_Cons zero_less_Suc list.map flip: map_Suc_upt) (simp add: add.commute)
  qed
  moreover assume "length block = 4 * n" and "n \<le> 16"
  ultimately show ?thesis by (simp add: rfc_W.simps)
qed

lemma sha1Extend_W: "16 \<le> i \<Longrightarrow> sha1Extend (map (rfc_W block) [0..<i]) i = map (rfc_W block) [0..<Suc i]"
  by (simp add: sha1Extend_def rotl32_rotl rfc_W.simps [of block i])

lemma sha1Schedule_W:
  assumes "length block = 64"
  shows "sha1Schedule block = map (rfc_W block) [0..<80]"
proof -
  have "foldl sha1Extend (map (rfc_W block) [0..<16]) [16..<16 + n] = map (rfc_W block) [0..<16 + n]" for n
  proof (induction n)
    case (Suc n)
    have "[16..<16 + Suc n] = [16..<16 + n] @ [16 + n]" by (simp only: add_Suc_right upt_Suc le_add1 if_True)
    with Suc show ?case using sha1Extend_W [of "16 + n" block]
      by (simp only: foldl_append foldl.simps le_add1 add_Suc_right)
  qed simp
  from this [of 64] show ?thesis
    using sha1Words_W [of block 16] assms by (simp add: sha1Schedule_def del: upt_rec_numeral)
qed

lemma sha1Round_steps:
  "n \<le> 80 \<Longrightarrow> foldl sha1Round s (zip [0..<n] (map (rfc_W block) [0..<n])) = rfc_steps block n s"
proof (induction n)
  case (Suc n)
  obtain A B C D E where "rfc_steps block n s = (A, B, C, D, E)" by (cases "rfc_steps block n s") auto
  with Suc show ?case
    by (simp add: zip_append sha1_fk rotl32_rotl ac_simps)
qed simp

lemma sha1Block_rfc: "length block = 64 \<Longrightarrow> sha1Block h block = rfc_block h block"
  by (simp only: sha1Block_def rfc_block_def sha1Schedule_W sha1Round_steps order.refl)

lemma foldl_sha1Block: "foldl sha1Block h (blocks 64 m) = foldl rfc_block h (blocks 64 m)"
proof (rule foldl_cong [OF refl refl])
  have "b \<in> set (blocks 64 xs) \<Longrightarrow> length b = 64" for b :: "byte list" and xs
  proof (induction xs rule: length_induct)
    case (1 xs)
    then show ?case using spec [OF 1(1), of "drop 64 xs"]
      by (cases "64 \<le> length xs") (auto simp: blocks_step)
  qed
  then show "\<And>h b. b \<in> set (blocks 64 m) \<Longrightarrow> sha1Block h b = rfc_block h b" by (simp only: sha1Block_rfc)
qed

lemma ucast_drop_bit_of_nat:
  assumes "k + 8 \<le> LENGTH('a)"
  shows "(ucast (drop_bit k (of_nat m :: 'a::len word)) :: byte) = of_nat (m div 2 ^ k)"
proof (rule bit_word_eqI)
  fix i :: nat
  assume "i < LENGTH(8)"
  then have "bit (of_nat (m div 2 ^ k) :: byte) i = bit m (k + i)"
    by (simp only: bit_of_nat_iff flip: drop_bit_eq_div) (simp add: bit_drop_bit_eq)
  moreover from \<open>i < LENGTH(8)\<close> assms
  have "bit (ucast (drop_bit k (of_nat m :: 'a word)) :: byte) i = bit m (k + i)"
    by (simp add: bit_ucast_iff bit_drop_bit_eq bit_of_nat_iff)
  ultimately show "bit (ucast (drop_bit k (of_nat m :: 'a word)) :: byte) i = bit (of_nat (m div 2 ^ k) :: byte) i"
    by simp
qed

lemma be32_rfc: "be32 H = map (\<lambda>i. of_nat (unat H div 256 ^ (3 - i))) [0..<4]"
proof -
  have "(ucast (drop_bit (24 - 8 * i) H) :: byte) = of_nat (unat H div 256 ^ (3 - i))" if "i < 4" for i
  proof -
    have "(256 :: nat) ^ (3 - i) = (2 ^ 8) ^ (3 - i)" by simp
    also have "\<dots> = 2 ^ (24 - 8 * i)" by (simp only: power_mult [symmetric] right_diff_distrib') simp
    finally show ?thesis using ucast_drop_bit_of_nat [of "24 - 8 * i" "unat H", where ?'a = 32] by simp
  qed
  then show ?thesis unfolding be32_def by (intro map_cong) auto
qed

lemma be64_rfc: "be64 (of_nat n * 8) = map (\<lambda>i. of_nat (8 * n div 256 ^ (7 - i))) [0..<8]"
proof -
  have "(ucast (drop_bit (56 - 8 * i) (of_nat n * 8 :: u64)) :: byte) = of_nat (8 * n div 256 ^ (7 - i))"
    if "i < 8" for i
  proof -
    have p: "(256 :: nat) ^ (7 - i) = (2 ^ 8) ^ (7 - i)" by simp
    have q: "(2 ^ 8 :: nat) ^ (7 - i) = 2 ^ (56 - 8 * i)" by (simp only: power_mult [symmetric] right_diff_distrib') simp
    have "of_nat n * 8 = (of_nat (8 * n) :: u64)" by simp
    then show ?thesis unfolding p q using ucast_drop_bit_of_nat [of "56 - 8 * i" "8 * n", where ?'a = 64]
      by (simp only:) simp
  qed
  then show ?thesis unfolding be64_def by (intro map_cong) auto
qed

lemma zeros_rfc: "(119 - n mod 64) mod 64 = (64 - (n + 9) mod 64) mod (64 :: nat)"
proof -
  have "(n + 9) mod 64 = (n mod 64 + 9) mod 64" by (simp add: mod_add_left_eq)
  moreover have "n mod 64 < 64" by simp
  ultimately show ?thesis
    by (cases "n mod 64 < 55"; cases "n mod 64 = 55") (simp_all add: le_mod_geq not_less mod_less sha1_zeros_short sha1_zeros_long)
qed

lemma sha1_pad_rfc: "sha1_pad m = rfc_pad m"
  by (simp only: sha1_pad_def rfc_pad_def be64_rfc zeros_rfc)

lemma sha1_fold_rfc: "sha1_fold m = rfc3174 m"
  unfolding sha1_fold_def rfc3174_def sha1_pad_rfc foldl_sha1Block sha1_iv_def
  by (intro arg_cong [where f = concat] map_cong refl be32_rfc)

lemma sha1_rfc: "sha1 m = rfc3174 m"
  by (simp only: sha1_eq_fold sha1_fold_rfc)

subsection \<open>Properties\<close>

text \<open>C29: The streaming interface computes RFC 3174's SHA-1 of the whole message, whatever the pieces it
  is fed in: any sequence of \<open>sha1Update\<close> calls followed by \<open>sha1Final\<close> gives \<open>rfc3174\<close> of the
  concatenated pieces, where \<open>rfc3174\<close> is written from the RFC alone (its own functions \<open>f\<close>, constants
  \<open>K\<close>, word sequence \<open>W\<close>, rounds, initial values, padding and output octets).\<close>

theorem sha1_streaming:
  "sha1Final (foldl sha1Update sha1Init chunks) = rfc3174 (concat chunks)"
  using sha.rep_chunks [OF sha1Rep_init, of chunks] by (simp add: sha1Final_rep sha1_fold_rfc)

end
