(* ===== verification/Ws.thy ===== *)
theory Ws
  imports Interfaces Os Base64 Sha1
begin

section \<open>WebSocket frame headers and the accept key (src/src/ws.c)\<close>

text \<open>
  The header of a frame (RFC 6455, section 5.2), its parser and its encoder, the XOR mask, the accept
  key of the handshake, the close codes, and \<open>frameNew\<close> of agg.c, which prepends a header to a
  payload. \<open>hdr_encode\<close> is the reference encoding of any header; the parser is proved to be its
  exact inverse. \<open>frame_encode\<close> is the reference encoding of a whole frame, masked with \<open>rfc_mask\<close> of the
  theory \<open>RfcSpec\<close>, not with the code's own \<open>wsUnmask\<close>.
\<close>

definition WS_OP_CONT :: byte where "WS_OP_CONT = 0x0"
definition WS_OP_TEXT :: byte where "WS_OP_TEXT = 0x1"
definition WS_OP_BIN :: byte where "WS_OP_BIN = 0x2"
definition WS_OP_CLOSE :: byte where "WS_OP_CLOSE = 0x8"
definition WS_OP_PING :: byte where "WS_OP_PING = 0x9"
definition WS_OP_PONG :: byte where "WS_OP_PONG = 0xA"

lemmas ws_op_defs = WS_OP_CONT_def WS_OP_TEXT_def WS_OP_BIN_def WS_OP_CLOSE_def WS_OP_PING_def
  WS_OP_PONG_def

text \<open>\<open>maskKey\<close> is only written for a masked frame; the model has no bytes there otherwise.\<close>

record WsFrameHdr_t =
  hFin :: bool
  hOpcode :: byte
  hMasked :: bool
  hPayloadLen :: u64
  hMaskKey :: "byte list"
  hHeaderLen :: nat

datatype WsRc_t = WS_NEED_MORE | WS_OK WsFrameHdr_t | WS_ERR_PROTO

text \<open>The length field: the early returns on the left, else the bytes used so far and the length.\<close>

definition wsParseLen :: "byte list \<Rightarrow> WsRc_t + nat \<times> u64" where
  "wsParseLen b =
     (let len = ucast (b ! 1 AND 0x7F) :: u64 in
      if len = 126 then
        if length b < 4 then Inl WS_NEED_MORE
        else let len = push_bit 8 (ucast (b ! 2)) OR ucast (b ! 3) in
             if len < 126 then Inl WS_ERR_PROTO else Inr (4, len)
      else if len = 127 then
        if length b < 10 then Inl WS_NEED_MORE
        else let len = be_dec (take 8 (drop 2 b)) in
             if len AND push_bit 63 1 \<noteq> 0 then Inl WS_ERR_PROTO
             else if len \<le> 0xFFFF then Inl WS_ERR_PROTO
             else Inr (10, len)
      else Inr (2, len))"

definition wsParseHeader :: "byte list \<Rightarrow> WsRc_t" where
  "wsParseHeader b =
     (if length b < 2 then WS_NEED_MORE
      else let b0 = b ! 0; b1 = b ! 1 in
      if b0 AND 0x70 \<noteq> 0 then WS_ERR_PROTO
      else let fin = bit b0 7; opcode = b0 AND 0x0F; masked = bit b1 7 in
      if 0x3 \<le> opcode \<and> opcode \<le> 0x7 \<or> 0xB \<le> opcode then WS_ERR_PROTO
      else (case wsParseLen b of
          Inl rc \<Rightarrow> rc
        | Inr (need, len) \<Rightarrow>
            if masked \<and> length b < need + 4 then WS_NEED_MORE
            else let key = (if masked then take 4 (drop need b) else []);
                     need = (if masked then need + 4 else need) in
            if opcode AND 0x8 \<noteq> 0 \<and> (\<not> fin \<or> len > 125) then WS_ERR_PROTO
            else WS_OK \<lparr>hFin = fin, hOpcode = opcode, hMasked = masked, hPayloadLen = len,
                        hMaskKey = key, hHeaderLen = need\<rparr>))"

definition wsUnmask :: "byte list \<Rightarrow> byte list \<Rightarrow> byte list" where
  "wsUnmask p key = map (\<lambda>i. p ! i XOR key ! (i AND 3)) [0..<length p]"

definition wsEncodeHeader :: "byte \<Rightarrow> u64 \<Rightarrow> byte list" where
  "wsEncodeHeader opcode payloadLen =
     [0x80 OR (opcode AND 0x0F)] @
     (if payloadLen \<le> 125 then [ucast payloadLen]
      else if payloadLen \<le> 0xFFFF then [126, ucast (drop_bit 8 payloadLen), ucast payloadLen]
      else 127 # map (\<lambda>i. ucast (drop_bit (8 * i) payloadLen)) (rev [0..<8]))"

text \<open>\<open>frameNew\<close> (agg.c): one allocation holding the header and a copy of the payload.\<close>

type_synonym Frame_t = "byte list"

definition frameNew :: "byte \<Rightarrow> byte list \<Rightarrow> 'a os_scheme \<Rightarrow> Frame_t option \<times> 'a os_scheme" where
  "frameNew opcode payload s =
     (let hdr = wsEncodeHeader opcode (of_nat (length payload)) in
      case os_alloc s of (ok, s1) \<Rightarrow> (if ok then (Some (hdr @ payload), s1) else (None, s1)))"

definition WS_MAGIC :: "byte list" where
  "WS_MAGIC = bytes ''258EAFA5-E914-47DA-95CA-C5AB0DC85B11''"

definition wsComputeAccept :: "byte list \<Rightarrow> byte list option" where
  "wsComputeAccept key =
     (if length key \<noteq> 24 \<or> base64DecodedLen key \<noteq> 16 then None
      else Some (base64Encode (sha1 (key @ WS_MAGIC))))"

definition wsIsValidCloseCode :: "u16 \<Rightarrow> bool" where
  "wsIsValidCloseCode code =
     (if 1000 \<le> code \<and> code \<le> 1003 then True
      else if 1007 \<le> code \<and> code \<le> 1011 then True
      else if 3000 \<le> code \<and> code \<le> 4999 then True
      else False)"

subsection \<open>The reference encoding\<close>

definition hdr_len7 :: "u64 \<Rightarrow> byte" where
  "hdr_len7 n = (if n \<le> 125 then ucast n else if n \<le> 0xFFFF then 126 else 127)"

definition hdr_ext :: "u64 \<Rightarrow> nat" where
  "hdr_ext n = (if n \<le> 125 then 0 else if n \<le> 0xFFFF then 2 else 8)"

definition hdr_encode :: "WsFrameHdr_t \<Rightarrow> byte list" where
  "hdr_encode h =
     [(if hFin h then 0x80 else 0) OR hOpcode h,
      (if hMasked h then 0x80 else 0) OR hdr_len7 (hPayloadLen h)] @
     be_enc (hdr_ext (hPayloadLen h)) (hPayloadLen h) @ hMaskKey h"

definition hdr_valid :: "WsFrameHdr_t \<Rightarrow> bool" where
  "hdr_valid h \<longleftrightarrow>
     hOpcode h \<in> {WS_OP_CONT, WS_OP_TEXT, WS_OP_BIN, WS_OP_CLOSE, WS_OP_PING, WS_OP_PONG} \<and>
     (hOpcode h \<in> {WS_OP_CLOSE, WS_OP_PING, WS_OP_PONG} \<longrightarrow> hFin h \<and> hPayloadLen h \<le> 125) \<and>
     hPayloadLen h < 2 ^ 63 \<and> length (hMaskKey h) = (if hMasked h then 4 else 0) \<and>
     hHeaderLen h = length (hdr_encode h)"

subsection \<open>The first two bytes\<close>

lemma byte_split_70: "b AND 0x70 = 0 \<Longrightarrow> (if bit b 7 then 0x80 else 0) OR (b AND 0x0F) = (b :: byte)"
proof (rule byte_eqI)
  assume "b AND 0x70 = 0"
  then have "\<not> bit (b AND 0x70) 4" "\<not> bit (b AND 0x70) 5" "\<not> bit (b AND 0x70) 6" by simp_all
  then have "\<not> bit b 4" "\<not> bit b 5" "\<not> bit b 6" by (simp_all add: bit_simps)
  then show "bit ((if bit b 7 then 0x80 else 0) OR (b AND 0x0F)) 4 = bit b 4"
    and "bit ((if bit b 7 then 0x80 else 0) OR (b AND 0x0F)) 5 = bit b 5"
    and "bit ((if bit b 7 then 0x80 else 0) OR (b AND 0x0F)) 6 = bit b 6"
    by (simp_all add: bit_simps)
qed (simp_all add: bit_simps)

lemma byte_split_7F: "(if bit b 7 then 0x80 else 0) OR (b AND 0x7F) = (b :: byte)"
  by (rule byte_eqI) (simp_all add: bit_simps)

lemma opcode_cases:
  assumes "\<not> (0x3 \<le> op \<and> op \<le> 0x7 \<or> 0xB \<le> op)"
  shows "op \<in> {WS_OP_CONT, WS_OP_TEXT, WS_OP_BIN, WS_OP_CLOSE, WS_OP_PING, WS_OP_PONG}"
proof -
  have "unat op < 3 \<or> unat op = 8 \<or> unat op = 9 \<or> unat op = 10"
    using assms by (auto simp: word_le_nat_alt)
  then have "unat op \<in> {0, 1, 2, 8, 9, 10}" by auto
  then show ?thesis by (auto simp: ws_op_defs word_unat_eq_iff)
qed

lemma control_opcode:
  assumes "op \<in> {WS_OP_CONT, WS_OP_TEXT, WS_OP_BIN, WS_OP_CLOSE, WS_OP_PING, WS_OP_PONG}"
  shows "op AND 0x8 \<noteq> 0 \<longleftrightarrow> op \<in> {WS_OP_CLOSE, WS_OP_PING, WS_OP_PONG}"
    and "\<not> (0x3 \<le> op \<and> op \<le> 0x7 \<or> 0xB \<le> op)" and "op AND 0x0F = op"
    and "((if f then 0x80 else 0) OR op) AND 0x70 = 0" and "bit ((if f then 0x80 else 0) OR op) 7 = f"
    and "((if f then 0x80 else 0) OR op) AND 0x0F = op"
  using assms by (auto simp: ws_op_defs word_le_nat_alt bit_simps)

lemma take_bit_self_iff: "take_bit n w = w \<longleftrightarrow> unat (w :: 'a::len word) < 2 ^ n"
  by (metis take_bit_nat_eq_self_iff unsigned_take_bit_eq word_unat_eq_iff)

lemma unat_ucast_byte: "unat (ucast (b :: byte) :: u64) = unat b"
proof -
  have "unat b < 2 ^ LENGTH(8)" by (rule unsigned_less)
  then show ?thesis by (simp add: unsigned_ucast_eq take_bit_nat_eq_self)
qed

lemma mask_7: "w AND 0x7F = take_bit 7 (w :: byte)"
  by (simp add: take_bit_eq_mask mask_eq_exp_minus_1)

lemma mask_bit_join:
  assumes "w \<le> (127 :: byte)"
  shows "((if m then 0x80 else 0) OR w) AND 0x7F = w" and "bit ((if m then 0x80 else 0) OR w) 7 = m"
proof -
  have w: "take_bit 7 w = w" using assms by (simp add: take_bit_self_iff word_le_nat_alt)
  then have "\<not> bit w 7" by (metis bit_take_bit_iff less_irrefl)
  with w show "((if m then 0x80 else 0) OR w) AND 0x7F = w" and "bit ((if m then 0x80 else 0) OR w) 7 = m"
    by (auto simp: mask_7 bit_simps)
qed

lemma hdr_len7_le: "hdr_len7 n \<le> 127"
proof (cases "n \<le> 125")
  case True
  then have "unat (ucast n :: byte) \<le> 125"
    by (simp add: word_le_nat_alt unsigned_ucast_eq unsigned_take_bit_eq take_bit_nat_eq_self)
  with True show ?thesis by (simp add: hdr_len7_def word_le_nat_alt)
qed (simp add: hdr_len7_def)

lemma ucast_hdr_len7:
  "n \<le> 125 \<Longrightarrow> ucast (hdr_len7 n) = n"
  "ucast (hdr_len7 n) = (126 :: u64) \<longleftrightarrow> \<not> n \<le> 125 \<and> n \<le> 0xFFFF"
  "ucast (hdr_len7 n) = (127 :: u64) \<longleftrightarrow> \<not> n \<le> 0xFFFF"
proof -
  have id: "ucast (hdr_len7 n) = n" if "n \<le> 125" for n :: u64
  proof -
    from that have "take_bit 8 n = n" by (simp add: take_bit_self_iff word_le_nat_alt)
    moreover have "ucast (ucast n :: byte) = take_bit 8 n" by (rule bit_word_eqI) (auto simp: bit_simps)
    ultimately show ?thesis using that by (simp add: hdr_len7_def)
  qed
  then show "n \<le> 125 \<Longrightarrow> ucast (hdr_len7 n) = n" .
  show "ucast (hdr_len7 n) = (126 :: u64) \<longleftrightarrow> \<not> n \<le> 125 \<and> n \<le> 0xFFFF"
    and "ucast (hdr_len7 n) = (127 :: u64) \<longleftrightarrow> \<not> n \<le> 0xFFFF"
    using id [of n] by (auto simp: hdr_len7_def word_le_nat_alt)
qed

subsection \<open>The parser inverts the encoding\<close>

lemma and_top_bit: "(w :: u64) AND push_bit 63 1 = 0 \<longleftrightarrow> w < 2 ^ 63"
proof
  assume "w AND push_bit 63 1 = 0"
  then have "\<not> bit (w AND push_bit 63 1) 63" by simp
  then have "\<not> bit w 63" by (simp add: bit_simps)
  then have "n < 63" if "bit w n" for n
    using that bit_imp_le_length [OF that] by (cases "n = 63") auto
  then have "take_bit 63 w = w" by (intro bit_word_eqI) (auto simp: bit_take_bit_iff)
  then show "w < 2 ^ 63" by (simp add: take_bit_self_iff word_less_nat_alt)
next
  assume "w < 2 ^ 63"
  then have "take_bit 63 w = w" by (simp add: take_bit_self_iff word_less_nat_alt)
  then have "\<not> bit w 63" by (metis bit_take_bit_iff less_irrefl)
  moreover have "push_bit 63 1 = (2 ^ 63 :: u64)" by simp
  ultimately show "w AND push_bit 63 1 = 0" by (metis and_exp_eq_0_iff_not_bit)
qed

lemma wsParseLen_encode:
  assumes "n < 2 ^ 63"
  shows "wsParseLen (b0 # ((if m then 0x80 else 0) OR hdr_len7 n) # be_enc (hdr_ext n) n @ r) =
    Inr (2 + hdr_ext n, n)"
proof -
  have l7: "((if m then 0x80 else 0) OR hdr_len7 n) AND 0x7F = hdr_len7 n"
    using hdr_len7_le by (rule mask_bit_join)
  consider "n \<le> 125" | "\<not> n \<le> 125" "n \<le> 0xFFFF" | "\<not> n \<le> 125" "\<not> n \<le> 0xFFFF" by blast
  then show ?thesis
  proof cases
    case 1
    then show ?thesis using ucast_hdr_len7 [of n] l7
      by (auto simp: wsParseLen_def hdr_ext_def word_le_nat_alt)
  next
    case 2
    then have "be_dec (be_enc 2 n) = n" by (simp add: be_dec_enc take_bit_self_iff word_le_nat_alt)
    then have "push_bit 8 (ucast (ucast (drop_bit 8 n) :: byte)) OR ucast (ucast n :: byte) = n"
      by (simp add: be_dec_def eval_nat_numeral)
    moreover have "\<not> n < 126" using 2 by (simp add: word_le_nat_alt word_less_nat_alt)
    ultimately show ?thesis using 2 ucast_hdr_len7 [of n] l7
      by (auto simp: wsParseLen_def hdr_ext_def eval_nat_numeral not_le)
  next
    case 3
    have "be_dec (be_enc 8 n) = take_bit (8 * 8) n" by (rule be_dec_enc)
    then have "be_dec (be_enc 8 n) = n" by (simp add: take_bit_word_eq_self)
    moreover from assms have "n AND push_bit 63 1 = 0" by (simp only: and_top_bit)
    ultimately show ?thesis using 3 ucast_hdr_len7 [of n] l7
      by (simp add: wsParseLen_def hdr_ext_def not_le Let_def)
  qed
qed

lemma wsParseLen_sound:
  assumes "wsParseLen b = Inr (need, n)" and "2 \<le> length b"
  shows "need = 2 + hdr_ext n" and "b ! 1 AND 0x7F = hdr_len7 n" and "need \<le> length b"
    and "take (hdr_ext n) (drop 2 b) = be_enc (hdr_ext n) n" and "n < 2 ^ 63"
proof -
  let ?l = "ucast (b ! 1 AND 0x7F) :: u64"
  have l: "unat ?l = unat (b ! 1 AND 0x7F)" by (rule unat_ucast_byte)
  have le: "unat (b ! 1 AND 0x7F) < 2 ^ 7"
    using take_bit_self_iff [of 7 "take_bit 7 (b ! 1)"] by (simp add: mask_7)
  consider (long) "?l = 127" | (medium) "?l = 126" | (short) "?l \<noteq> 126" "?l \<noteq> 127" by blast
  then have "need = 2 + hdr_ext n \<and> b ! 1 AND 0x7F = hdr_len7 n \<and> need \<le> length b \<and>
    take (hdr_ext n) (drop 2 b) = be_enc (hdr_ext n) n \<and> n < 2 ^ 63"
  proof cases
    case short
    with assms have n: "need = 2" "n = ?l" by (auto simp: wsParseLen_def)
    from short le l have "unat ?l \<le> 125" by (auto simp: word_unat_eq_iff)
    then have "n \<le> 125" "n < 2 ^ 63" using n by (auto simp: word_le_nat_alt word_less_nat_alt)
    moreover have "ucast ?l = b ! 1 AND 0x7F" by (rule bit_word_eqI) (auto simp: bit_simps)
    ultimately show ?thesis using n assms by (simp add: hdr_ext_def hdr_len7_def)
  next
    case medium
    from medium have 1: "b ! 1 AND 0x7F = 126" using l by (simp add: word_unat_eq_iff)
    let ?n = "push_bit 8 (ucast (b ! 2)) OR ucast (b ! 3) :: u64"
    from medium assms have n: "need = 4" "4 \<le> length b" "n = ?n" "\<not> ?n < 126"
      by (auto simp: wsParseLen_def Let_def split: if_splits)
    then have tk: "take 2 (drop 2 b) = [b ! 2, b ! 3]" by (simp add: take_Suc_conv_app_nth eval_nat_numeral)
    have dec: "be_dec [b ! 2, b ! 3] = ?n" by (simp add: be_dec_def)
    have "take_bit (8 * 2) (be_dec [b ! 2, b ! 3]) = be_dec [b ! 2, b ! 3]" by (rule be_dec_bound) simp
    then have "unat n < 2 ^ (8 * 2)" unfolding take_bit_self_iff using dec n by simp
    then have "\<not> n \<le> 125" "n \<le> 0xFFFF" "n < 2 ^ 63" using n
      by (auto simp: word_le_nat_alt word_less_nat_alt)
    moreover have "be_enc (length [b ! 2, b ! 3]) (be_dec [b ! 2, b ! 3]) = [b ! 2, b ! 3]"
      by (rule be_enc_dec) simp
    then have "be_enc 2 n = [b ! 2, b ! 3]" unfolding dec using n by (simp add: eval_nat_numeral)
    ultimately show ?thesis using 1 n tk by (simp add: hdr_ext_def hdr_len7_def)
  next
    case long
    from long have 1: "b ! 1 AND 0x7F = 127" using l by (simp add: word_unat_eq_iff)
    let ?e = "take 8 (drop 2 b)"
    from long assms have n: "need = 10" "10 \<le> length b" "n = be_dec ?e" "n < 2 ^ 63" "\<not> n \<le> 0xFFFF"
      by (auto simp: wsParseLen_def Let_def and_top_bit [simplified] split: if_splits)
    then have "\<not> n \<le> 125" by (auto simp: word_le_nat_alt)
    moreover have "be_enc 8 n = ?e" using be_enc_dec [of ?e] n by simp
    ultimately show ?thesis using 1 n by (simp add: hdr_ext_def hdr_len7_def)
  qed
  then show "need = 2 + hdr_ext n" and "b ! 1 AND 0x7F = hdr_len7 n" and "need \<le> length b"
    and "take (hdr_ext n) (drop 2 b) = be_enc (hdr_ext n) n" and "n < 2 ^ 63" by blast+
qed

lemma hdr_encode_prefix:
  "hdr_encode h @ r = ((if hFin h then 0x80 else 0) OR hOpcode h) #
     ((if hMasked h then 0x80 else 0) OR hdr_len7 (hPayloadLen h)) #
     be_enc (hdr_ext (hPayloadLen h)) (hPayloadLen h) @ (hMaskKey h @ r)"
  by (simp add: hdr_encode_def)

lemma wsParseHeader_encode:
  assumes "hdr_valid h"
  shows "wsParseHeader (hdr_encode h @ r) = WS_OK h"
proof -
  let ?n = "hPayloadLen h"
  have op: "hOpcode h \<in> {WS_OP_CONT, WS_OP_TEXT, WS_OP_BIN, WS_OP_CLOSE, WS_OP_PING, WS_OP_PONG}"
    and ctl: "hOpcode h \<in> {WS_OP_CLOSE, WS_OP_PING, WS_OP_PONG} \<longrightarrow> hFin h \<and> ?n \<le> 125"
    and n: "?n < 2 ^ 63" and k: "length (hMaskKey h) = (if hMasked h then 4 else 0)"
    and hl: "hHeaderLen h = 2 + hdr_ext ?n + length (hMaskKey h)"
    using assms unfolding hdr_valid_def by (auto simp: hdr_encode_def)
  have m: "bit ((if hMasked h then 0x80 else 0) OR hdr_len7 ?n) 7 = hMasked h"
    using hdr_len7_le by (rule mask_bit_join)
  from ctl have ctl': "\<not> (hOpcode h AND 0x8 \<noteq> 0 \<and> (\<not> hFin h \<or> ?n > 125))"
    using control_opcode(1) [OF op] by (auto simp: not_less)
  have split: "drop (2 + hdr_ext ?n) (hdr_encode h @ r) = hMaskKey h @ r"
    by (simp add: hdr_encode_prefix)
  have "wsParseLen (hdr_encode h @ r) = Inr (2 + hdr_ext ?n, ?n)"
    unfolding hdr_encode_prefix by (rule wsParseLen_encode [OF n])
  moreover have "hdr_encode h @ r = ((if hFin h then 0x80 else 0) OR hOpcode h) #
     ((if hMasked h then 0x80 else 0) OR hdr_len7 ?n) # drop 2 (hdr_encode h @ r)"
    by (simp add: hdr_encode_prefix)
  then have "(hdr_encode h @ r) ! 0 = (if hFin h then 0x80 else 0) OR hOpcode h"
    and "(hdr_encode h @ r) ! 1 = (if hMasked h then 0x80 else 0) OR hdr_len7 ?n"
    by (simp_all add: hdr_encode_prefix)
  moreover have "length (hdr_encode h @ r) = 2 + hdr_ext ?n + length (hMaskKey h) + length r"
    by (simp add: hdr_encode_def)
  ultimately show ?thesis
    using control_opcode [OF op] ctl' k hl m split
    by (cases "hMasked h") (simp_all add: wsParseHeader_def Let_def del: length_append)
qed

lemma wsParseHeader_sound:
  assumes "wsParseHeader b = WS_OK h"
  shows "hdr_valid h" and "b = hdr_encode h @ drop (hHeaderLen h) b"
proof -
  have noInl: "wsParseLen b \<noteq> Inl (WS_OK h)"
    by (auto simp: wsParseLen_def Let_def)
  with assms obtain need n where len2: "2 \<le> length b" and rsv: "b ! 0 AND 0x70 = 0"
    and op: "\<not> (0x3 \<le> b ! 0 AND 0x0F \<and> b ! 0 AND 0x0F \<le> 0x7 \<or> 0xB \<le> b ! 0 AND 0x0F)"
    and parse: "wsParseLen b = Inr (need, n)"
    and mk: "\<not> (bit (b ! 1) 7 \<and> length b < need + 4)"
    and ctl: "\<not> ((b ! 0 AND 0x0F) AND 0x8 \<noteq> 0 \<and> (\<not> bit (b ! 0) 7 \<or> n > 125))"
    and h: "h = \<lparr>hFin = bit (b ! 0) 7, hOpcode = b ! 0 AND 0x0F, hMasked = bit (b ! 1) 7, hPayloadLen = n,
      hMaskKey = (if bit (b ! 1) 7 then take 4 (drop need b) else []),
      hHeaderLen = (if bit (b ! 1) 7 then need + 4 else need)\<rparr>"
    unfolding wsParseHeader_def Let_def by (auto split: if_splits sum.splits prod.splits)
  note sound = wsParseLen_sound [OF parse len2]
  have enc: "hdr_encode h = take (hHeaderLen h) b"
  proof -
    have "take (2 + hdr_ext n) b = [b ! 0, b ! 1] @ take (hdr_ext n) (drop 2 b)"
      using len2 by (cases b; cases "tl b") auto
    also have "\<dots> = [(if hFin h then 0x80 else 0) OR hOpcode h,
        (if hMasked h then 0x80 else 0) OR hdr_len7 n] @ be_enc (hdr_ext n) n"
      using byte_split_70 [OF rsv] byte_split_7F [of "b ! 1"] sound by (simp add: h)
    finally have "take need b = \<dots>" using sound by simp
    moreover have "take (hHeaderLen h) b = take need b @ hMaskKey h"
      using mk by (simp add: h take_add)
    ultimately show ?thesis by (simp add: hdr_encode_def h)
  qed
  then show "b = hdr_encode h @ drop (hHeaderLen h) b" by simp
  have "hHeaderLen h \<le> length b" using mk sound by (auto simp: h)
  with enc have "hHeaderLen h = length (hdr_encode h)" by simp
  moreover note op = opcode_cases [OF op]
  moreover have "hOpcode h \<in> {WS_OP_CLOSE, WS_OP_PING, WS_OP_PONG} \<Longrightarrow> hFin h \<and> n \<le> 125"
    using ctl control_opcode(1) [OF op] by (auto simp: h not_less)
  moreover have "length (hMaskKey h) = (if hMasked h then 4 else 0)" using mk by (auto simp: h)
  ultimately show "hdr_valid h"
    using sound by (simp add: hdr_valid_def h)
qed

subsection \<open>Whole frames\<close>

text \<open>
  A frame is a header and its payload in clear. \<open>frame_next\<close> is the reading both ends perform: parse the
  header, wait for the payload, unmask it with the code's \<open>wsUnmask\<close>; \<open>frame_encode\<close> is what RFC 6455
  puts on the wire.
\<close>

definition frame_clear :: "WsFrameHdr_t \<Rightarrow> byte list \<Rightarrow> byte list" where
  "frame_clear h p = (if hMasked h then rfc_mask p (hMaskKey h) else p)"

definition frame_valid :: "WsFrameHdr_t \<times> byte list \<Rightarrow> bool" where
  "frame_valid f \<longleftrightarrow> hdr_valid (fst f) \<and> length (snd f) = unat (hPayloadLen (fst f))"

definition frame_encode :: "WsFrameHdr_t \<times> byte list \<Rightarrow> byte list" where
  "frame_encode f = hdr_encode (fst f) @ frame_clear (fst f) (snd f)"

definition frame_next :: "byte list \<Rightarrow> ((WsFrameHdr_t \<times> byte list) \<times> byte list) option" where
  "frame_next b = (case wsParseHeader b of
       WS_OK h \<Rightarrow>
         let r = drop (hHeaderLen h) b; n = unat (hPayloadLen h) in
         if length r < n then None
         else Some ((h, if hMasked h then wsUnmask (take n r) (hMaskKey h) else take n r), drop n r)
     | _ \<Rightarrow> None)"

lemma length_wsUnmask [simp]: "length (wsUnmask p key) = length p"
  by (simp add: wsUnmask_def)

lemma wsUnmask_nth: "i < length p \<Longrightarrow> wsUnmask p key ! i = p ! i XOR key ! (i AND 3)"
  by (simp add: wsUnmask_def)

lemma wsUnmask_twice: "wsUnmask (wsUnmask p key) key = p"
  by (rule nth_equalityI) (simp_all add: wsUnmask_nth xor.assoc)

lemma and_3: "(i :: nat) AND 3 = i mod 4"
proof -
  have "(3 :: nat) = mask 2" by (simp add: mask_eq_exp_minus_1)
  then show ?thesis by (simp only: take_bit_eq_mask [symmetric] take_bit_eq_mod) simp
qed

lemma rfc_mask_eq: "rfc_mask p key = wsUnmask p key"
  by (simp add: rfc_mask_def wsUnmask_def and_3)

lemma frame_clear_unmask: "frame_clear h p = (if hMasked h then wsUnmask p (hMaskKey h) else p)"
  by (simp add: frame_clear_def rfc_mask_eq)

lemma length_frame_clear [simp]: "length (frame_clear h p) = length p"
  by (simp add: frame_clear_unmask)

lemma frame_clear_twice: "frame_clear h (frame_clear h p) = p"
  by (simp add: frame_clear_unmask wsUnmask_twice)

lemma hdr_encode_length: "hdr_valid h \<Longrightarrow> length (hdr_encode h) = hHeaderLen h"
  by (simp add: hdr_valid_def)

lemma frame_next_clear:
  "frame_next b = (case wsParseHeader b of
       WS_OK h \<Rightarrow>
         let r = drop (hHeaderLen h) b; n = unat (hPayloadLen h) in
         if length r < n then None else Some ((h, frame_clear h (take n r)), drop n r)
     | _ \<Rightarrow> None)"
  by (cases "wsParseHeader b") (simp_all add: frame_next_def frame_clear_unmask Let_def)

lemma frame_next_encode: "frame_valid f \<Longrightarrow> frame_next (frame_encode f @ r) = Some (f, r)"
  by (cases f) (simp add: frame_valid_def frame_encode_def frame_next_clear wsParseHeader_encode Let_def
      hdr_encode_length [symmetric] frame_clear_twice)

lemma frame_next_sound:
  assumes "frame_next b = Some (f, r)"
  shows "frame_valid f \<and> b = frame_encode f @ r"
proof -
  from assms obtain h where h: "wsParseHeader b = WS_OK h"
    by (auto simp: frame_next_clear split: WsRc_t.splits)
  note sound = wsParseHeader_sound [OF h]
  let ?p = "drop (hHeaderLen h) b" and ?n = "unat (hPayloadLen h)"
  from assms h have n: "\<not> length ?p < ?n"
    and f: "f = (h, frame_clear h (take ?n ?p))" "r = drop ?n ?p"
    by (auto simp: frame_next_clear Let_def split: if_splits)
  have "frame_valid f" using n sound by (simp add: frame_valid_def f)
  moreover have "b = hdr_encode h @ take ?n ?p @ drop ?n ?p" unfolding append_take_drop_id by (rule sound(2))
  then have "b = frame_encode f @ r" by (simp add: frame_encode_def f frame_clear_twice)
  ultimately show ?thesis by blast
qed

lemma frame_encode_nonempty: "frame_encode f \<noteq> []"
  by (simp add: frame_encode_def hdr_encode_def)

interpretation frame: codec frame_encode frame_next frame_valid
  by unfold_locales (rule frame_next_encode frame_next_sound frame_encode_nonempty, assumption?)+

text \<open>The header alone is a codec too.\<close>

definition hdr_next :: "byte list \<Rightarrow> (WsFrameHdr_t \<times> byte list) option" where
  "hdr_next b = (case wsParseHeader b of WS_OK h \<Rightarrow> Some (h, drop (hHeaderLen h) b) | _ \<Rightarrow> None)"

lemma hdr_next_sound: "hdr_next b = Some (h, r) \<Longrightarrow> hdr_valid h \<and> b = hdr_encode h @ r"
  using wsParseHeader_sound [of b h] by (auto simp: hdr_next_def split: WsRc_t.splits)

lemma hdr_next_encode: "hdr_valid h \<Longrightarrow> hdr_next (hdr_encode h @ r) = Some (h, r)"
  by (simp add: hdr_next_def wsParseHeader_encode hdr_encode_length [symmetric])

lemma hdr_encode_nonempty: "hdr_encode h \<noteq> []"
  by (simp add: hdr_encode_def)

interpretation header: codec hdr_encode hdr_next hdr_valid
  by unfold_locales (rule hdr_next_encode hdr_next_sound hdr_encode_nonempty, assumption?)+

subsection \<open>The server's frames\<close>

definition server_hdr :: "byte \<Rightarrow> u64 \<Rightarrow> WsFrameHdr_t" where
  "server_hdr op n = \<lparr>hFin = True, hOpcode = op, hMasked = False, hPayloadLen = n, hMaskKey = [],
     hHeaderLen = 2 + hdr_ext n\<rparr>"

lemma be_enc_map: "be_enc k w = map (\<lambda>i. ucast (drop_bit (8 * i) w)) (rev [0..<k])"
proof (induction k arbitrary: w)
  case 0
  then show ?case by simp
next
  case (Suc k)
  have "[0..<Suc k] = 0 # map Suc [0..<k]" by (simp only: upt_conv_Cons zero_less_Suc map_Suc_upt)
  then have "rev [0..<Suc k] = map Suc (rev [0..<k]) @ [0]" by (simp only: rev.simps rev_map)
  with Suc show ?case by (simp add: add.commute)
qed

lemma wsEncodeHeader_hdr:
  assumes "op AND 0x0F = op"
  shows "wsEncodeHeader op n = hdr_encode (server_hdr op n)"
proof -
  have "rev [0..<2] = [1, 0 :: nat]" by code_simp
  then show ?thesis using assms
    by (simp add: wsEncodeHeader_def hdr_encode_def server_hdr_def hdr_len7_def hdr_ext_def be_enc_map del: upt_rec_numeral)
qed

lemma server_hdr_valid:
  assumes "op \<in> {WS_OP_CONT, WS_OP_TEXT, WS_OP_BIN, WS_OP_CLOSE, WS_OP_PING, WS_OP_PONG}"
    and "op \<in> {WS_OP_CLOSE, WS_OP_PING, WS_OP_PONG} \<longrightarrow> n \<le> 125" and "n < 2 ^ 63"
  shows "hdr_valid (server_hdr op n)"
  using assms unfolding hdr_valid_def by (simp add: server_hdr_def hdr_encode_def)

subsection \<open>The accept key\<close>

lemma wsComputeAccept_rfc: "wsComputeAccept key = (if rfc_key key then Some (rfc_accept key) else None)"
proof -
  have "length key = 24" if "rfc_key key" using that by (auto simp: rfc_key_def)
  then show ?thesis
    using checkedLen_16 [of key]
    by (auto simp: wsComputeAccept_def rfc_accept_def WS_MAGIC_def base64Encode_rfc sha1_rfc)
qed

subsection \<open>Stability of the parser's answer\<close>

lemma wsParseLen_mono:
  assumes "wsParseLen b = r" and "r \<noteq> Inl WS_NEED_MORE" and "2 \<le> length b"
  shows "wsParseLen (b @ c) = r"
  using assms by (auto simp: wsParseLen_def Let_def nth_append split: if_splits)

lemma wsParseHeader_mono:
  assumes "wsParseHeader b \<noteq> WS_NEED_MORE"
  shows "wsParseHeader (b @ c) = wsParseHeader b"
proof -
  have len: "2 \<le> length b" using assms by (auto simp: wsParseHeader_def split: if_splits)
  then have nth: "(b @ c) ! 0 = b ! 0" "(b @ c) ! Suc 0 = b ! Suc 0" by (auto simp: nth_append)
  show ?thesis
  proof (cases "wsParseLen b")
    case (Inl rc)
    with assms len wsParseLen_mono [of b "Inl rc" c] show ?thesis
      by (auto simp: wsParseHeader_def Let_def nth split: if_splits)
  next
    case (Inr p)
    obtain need n where p: "p = (need, n)" by (cases p)
    with Inr have "need \<le> length b" using wsParseLen_sound [of b need n] len by simp
    with Inr p assms len wsParseLen_mono [of b "Inr p" c] show ?thesis
      by (auto simp: wsParseHeader_def Let_def nth split: if_splits)
  qed
qed

lemma wsParseHeader_need_more: "wsParseHeader b = WS_NEED_MORE \<Longrightarrow> length b < 14"
proof (rule ccontr)
  assume b: "wsParseHeader b = WS_NEED_MORE" and "\<not> length b < 14"
  then have l: "14 \<le> length b" by simp
  then have "wsParseLen b \<noteq> Inl WS_NEED_MORE" by (auto simp: wsParseLen_def Let_def)
  moreover have "need \<le> 10" if "wsParseLen b = Inr (need, n)" for need n
    using that by (auto simp: wsParseLen_def Let_def split: if_splits)
  ultimately show False
    using b l by (fastforce simp: wsParseHeader_def Let_def split: if_splits sum.splits)
qed

lemma frameNew_frame:
  assumes "frameNew op payload s = (Some f, s')"
    and "op \<in> {WS_OP_CONT, WS_OP_TEXT, WS_OP_BIN, WS_OP_CLOSE, WS_OP_PING, WS_OP_PONG}"
    and "op \<in> {WS_OP_TEXT, WS_OP_BIN, WS_OP_CONT} \<or> length payload \<le> 125"
    and "length payload < 2 ^ 63"
  shows "frame_next f = Some ((server_hdr op (of_nat (length payload)), payload), []) \<and>
    length f \<le> length payload + 10 \<and> f = frame_encode (server_hdr op (of_nat (length payload)), payload) \<and>
    frame_valid (server_hdr op (of_nat (length payload)), payload)"
proof -
  let ?n = "of_nat (length payload) :: u64" and ?h = "server_hdr op (of_nat (length payload))"
  have n: "unat ?n = length payload"
    using assms(4) by (simp add: unat_of_nat take_bit_nat_eq_self)
  have op: "op AND 0x0F = op" using control_opcode(3) [OF assms(2)] .
  have "hdr_valid ?h"
    using assms(2-4) n
    by (intro server_hdr_valid) (auto simp: word_le_nat_alt word_less_nat_alt ws_op_defs)
  then have valid: "frame_valid (?h, payload)" by (simp add: frame_valid_def, simp add: server_hdr_def n)
  have f: "f = frame_encode (?h, payload)"
    using assms(1) wsEncodeHeader_hdr [OF op, of ?n]
    by (auto simp: frameNew_def frame_encode_def frame_clear_def server_hdr_def split: prod.splits if_splits)
  have "frame_next (f @ []) = Some ((?h, payload), [])" unfolding f by (rule frame.decd_enc [OF valid])
  moreover have "length f \<le> length payload + 10"
    by (simp add: f frame_encode_def hdr_encode_def server_hdr_def hdr_ext_def)
  ultimately show ?thesis using f valid by simp
qed

lemma frameNew_text:
  "frameNew WS_OP_TEXT payload s = (Some f, s') \<Longrightarrow> length payload < 2 ^ 63 \<Longrightarrow>
     frame_next f = Some ((server_hdr WS_OP_TEXT (of_nat (length payload)), payload), [])"
  by (rule conjunct1, rule frameNew_frame) simp_all

lemma frameNew_data:
  "frameNew WS_OP_BIN payload s = (Some f, s') \<Longrightarrow> length payload < 2 ^ 63 \<Longrightarrow>
     frame_next f = Some ((server_hdr WS_OP_BIN (of_nat (length payload)), payload), [])"
  by (rule conjunct1, rule frameNew_frame) simp_all

subsection \<open>Properties\<close>

text \<open>C20: The header parser accepts exactly the well-formed headers, in exactly one encoding each: it
  answers \<open>WS_OK h\<close> if and only if the bytes start with the reference encoding of \<open>h\<close> and \<open>h\<close> is a
  header RFC 6455 allows (known opcode, control frames final and at most 125 bytes, a payload below
  \<open>2 ^ 63\<close>, the shortest length form, a mask key exactly when masked), with \<open>headerLen\<close> the length
  of that encoding.\<close>

theorem wsParseHeader_exact:
  "wsParseHeader b = WS_OK h \<longleftrightarrow> hdr_valid h \<and> (\<exists>rest. b = hdr_encode h @ rest)"
  using wsParseHeader_sound [of b h] wsParseHeader_encode [of h] by (metis)

text \<open>The parser decides on a prefix: once it has answered, bytes that arrive later change neither an
  accepted header nor a protocol error, and it never asks for more once 14 bytes are there. So the
  verdict on a stream does not depend on how the network cuts it.\<close>

lemma wsParseHeader_stable:
  "(wsParseHeader b = WS_NEED_MORE \<and> length b < 14) \<or>
   (wsParseHeader b = WS_ERR_PROTO \<and> wsParseHeader (b @ c) = WS_ERR_PROTO) \<or>
   (\<exists>h. wsParseHeader b = WS_OK h \<and> wsParseHeader (b @ c) = WS_OK h)"
  using wsParseHeader_mono [of b c] wsParseHeader_need_more [of b]
  by (cases "wsParseHeader b") simp_all

text \<open>C23: The accept key of the handshake is RFC 6455's, for every string a peer can send as its key: an
  accept value is computed exactly for the keys that are 16 bytes in base64 (22 characters of the
  alphabet, then \<open>==\<close>), and it is the base64 (RFC 4648) of the SHA-1 (RFC 3174) of the key and the
  protocol's GUID; every other key is refused.\<close>

theorem wsComputeAccept_correct:
  "wsComputeAccept key = Some accept \<longleftrightarrow> rfc_key key \<and> accept = rfc_accept key"
  by (auto simp: wsComputeAccept_rfc)

text \<open>Reading a stream of frames gives back the frames that were sent, masked as the RFC says.\<close>

lemma frame_stream_roundtrip:
  assumes "list_all frame_valid fs" and "frame_next r = None"
  shows "frame.decode_all (concat (map frame_encode fs) @ r) = (fs, r)"
  using assms by (rule frame.decode_all_concat)

text \<open>C24: The frame the server builds is the one a peer reads back: for a known opcode (a control frame of
  at most 125 bytes) \<open>frameNew\<close> allocates a buffer that holds one unmasked final frame, parsed into the
  same opcode and the same payload with nothing left over, and adds at most 10 bytes; without memory
  it returns \<open>NULL\<close>.\<close>

theorem frameNew_roundtrip:
  assumes "op \<in> {WS_OP_CONT, WS_OP_TEXT, WS_OP_BIN, WS_OP_CLOSE, WS_OP_PING, WS_OP_PONG}"
    and "op \<in> {WS_OP_TEXT, WS_OP_BIN, WS_OP_CONT} \<or> length payload \<le> 125"
    and "length payload < 2 ^ 63"
  shows "case fst (frameNew op payload s) of
      None \<Rightarrow> \<exists>rest. mallocs s = False # rest
    | Some f \<Rightarrow> frame_next f = Some ((server_hdr op (of_nat (length payload)), payload), []) \<and>
        length f \<le> length payload + 10"
proof (cases "fst (frameNew op payload s)")
  case None
  then show ?thesis by (auto simp: frameNew_def os_alloc_def split: list.splits if_splits)
next
  case (Some f)
  then obtain s' where "frameNew op payload s = (Some f, s')" by (cases "frameNew op payload s") auto
  note fr = frameNew_frame [OF this assms]
  show ?thesis unfolding Some using fr [THEN conjunct1] fr [THEN conjunct2, THEN conjunct1] by simp
qed

theorem frameNew_roundtrip_witness:
  "case fst (frameNew WS_OP_TEXT (bytes ''hi'') os_idle) of
      None \<Rightarrow> \<exists>rest. mallocs os_idle = False # rest
    | Some f \<Rightarrow> frame_next f = Some ((server_hdr WS_OP_TEXT (of_nat (length (bytes ''hi''))), bytes ''hi''), []) \<and>
        length f \<le> length (bytes ''hi'') + 10"
  by (rule frameNew_roundtrip) (simp_all add: ws_op_defs)

end
