(* ===== verification/Rfc6455_Sample.thy ===== *)
theory Rfc6455_Sample
  imports Ws
begin

section \<open>The sample handshake of RFC 6455\<close>

text \<open>
  RFC 6455, section 1.3, gives one key and its accept value. Evaluating the model on it runs base64,
  SHA-1 (two blocks, all eighty rounds of each) and the concatenation with the protocol's constant.
  This is a test of the specification: \<open>wsComputeAccept_correct\<close> (theory \<open>Ws\<close>) says that the code
  computes \<open>rfc_accept\<close>, and the sample shows that \<open>rfc_accept\<close> gives the value the RFC prints. The
  digest is computed in steps of twenty rounds, because the simplifier's cost grows with the size of
  the term.
\<close>

lemmas sha1_eval = rotl32_def sha1_f_def sha1_k_def

lemma sha1_rounds_80:
  assumes "sha1Schedule b = w1 @ w2 @ w3 @ w4"
    and "length w1 = 20" and "length w2 = 20" and "length w3 = 20" and "length w4 = 20"
    and "foldl sha1Round (h ! 0, h ! 1, h ! 2, h ! 3, h ! 4) (zip [0..<20] w1) = s1"
    and "foldl sha1Round s1 (zip [20..<40] w2) = s2" and "foldl sha1Round s2 (zip [40..<60] w3) = s3"
    and "foldl sha1Round s3 (zip [60..<80] w4) = (a, b', c, d, e)"
  shows "sha1Block h b = [h ! 0 + a, h ! 1 + b', h ! 2 + c, h ! 3 + d, h ! 4 + e]"
proof -
  have "[0..<80] = [0..<20] @ [20..<40] @ [40..<60] @ [60..<80 :: nat]"
    using upt_add_eq_append [of 0 20 60] upt_add_eq_append [of 20 40 40] upt_add_eq_append [of 40 60 20]
    by (simp del: upt_rec_numeral)
  then have "zip [0..<80] (sha1Schedule b) =
      zip [0..<20] w1 @ zip [20..<40] w2 @ zip [40..<60] w3 @ zip [60..<80] w4"
    using assms(1-5) by (simp add: zip_append1 del: upt_rec_numeral)
  with assms(6-9) show ?thesis by (simp add: sha1Block_def del: upt_rec_numeral)
qed

lemma sample_w1:
  "sha1Schedule
     [100, 71, 104, 108, 73, 72, 78, 104, 98, 88, 66, 115, 90, 83, 66, 117, 98, 50, 53, 106, 90, 81, 61,
     61, 50, 53, 56, 69, 65, 70, 65, 53, 45, 69, 57, 49, 52, 45, 52, 55, 68, 65, 45, 57, 53, 67, 65, 45,
     67, 53, 65, 66, 48, 68, 67, 56, 53, 66, 49, 49, 128, 0, 0, 0] =
     [1682401388, 1229475432, 1649951347, 1515405941, 1647457642, 1515273533, 842348613, 1095123253,
     759511345, 875377719, 1145122105, 893600045, 1127563586, 809780024, 893530417, 2147483648,
     909942828, 619188790, 2287383617, 117128338] @
     [1874115766, 1175131875, 1502747054, 901747561, 845628814, 4163435780, 1966773927, 1664546322,
     3285607299, 116098809, 1941241154, 2768487864, 365801013, 1394499013, 1874245584, 1813439660,
     1306343101, 903047494, 3903753116, 1251162832] @
     [3464898740, 1096661662, 663941193, 2392553959, 2042897861, 1666430109, 10043928, 2325024465,
     2942110617, 4254630878, 517537771, 4027055912, 1113470580, 93729216, 2909551665, 2248896983,
     2277492040, 1046804781, 2366289761, 887221813] @
     [181358856, 3266607578, 1821587210, 4153629601, 3910963649, 3201394082, 1279150782, 1356423736,
     3059252702, 439281382, 758339734, 4081671435, 4077783581, 852382809, 1902502840, 2869297044,
     3314851595, 3168292426, 124912530, 4282382342]"
  by (simp add: sha1Schedule_def sha1Extend_def rotl32_def)

lemma sample_r11:
  "foldl sha1Round (1732584193, 4023233417, 2562383102, 271733878, 3285377520)
     (zip [0..<20]
     [1682401388, 1229475432, 1649951347, 1515405941, 1647457642, 1515273533, 842348613, 1095123253,
     759511345, 875377719, 1145122105, 893600045, 1127563586, 809780024, 893530417, 2147483648,
     909942828, 619188790, 2287383617, 117128338]) =
     (152746364, 2378502326, 3752774234, 1979104605, 671166746)"
  by (simp add: sha1_eval upt_rec)

lemma sample_r12:
  "foldl sha1Round (152746364, 2378502326, 3752774234, 1979104605, 671166746)
     (zip [20..<40]
     [1874115766, 1175131875, 1502747054, 901747561, 845628814, 4163435780, 1966773927, 1664546322,
     3285607299, 116098809, 1941241154, 2768487864, 365801013, 1394499013, 1874245584, 1813439660,
     1306343101, 903047494, 3903753116, 1251162832]) =
     (732088382, 3498479745, 438141449, 3543353481, 662299890)"
  by (simp add: sha1_eval upt_rec)

lemma sample_r13:
  "foldl sha1Round (732088382, 3498479745, 438141449, 3543353481, 662299890)
     (zip [40..<60]
     [3464898740, 1096661662, 663941193, 2392553959, 2042897861, 1666430109, 10043928, 2325024465,
     2942110617, 4254630878, 517537771, 4027055912, 1113470580, 93729216, 2909551665, 2248896983,
     2277492040, 1046804781, 2366289761, 887221813]) =
     (1215486042, 3531927907, 2198413067, 465420221, 2676265148)"
  by (simp add: sha1_eval upt_rec)

lemma sample_r14:
  "foldl sha1Round (1215486042, 3531927907, 2198413067, 465420221, 2676265148)
     (zip [60..<80]
     [181358856, 3266607578, 1821587210, 4153629601, 3910963649, 3201394082, 1279150782, 1356423736,
     3059252702, 439281382, 758339734, 4081671435, 4077783581, 852382809, 1902502840, 2869297044,
     3314851595, 3168292426, 124912530, 4282382342]) =
     (4102706214, 2203686369, 633413371, 1246086146, 2591277810)"
  by (simp add: sha1_eval upt_rec)

lemma sample_w2:
  "sha1Schedule
     [0, 0, 0, 0, 0, 0, 0, 0, 0, 0, 0, 0, 0, 0, 0, 0, 0, 0, 0, 0, 0, 0, 0, 0, 0, 0, 0, 0, 0, 0, 0, 0, 0,
     0, 0, 0, 0, 0, 0, 0, 0, 0, 0, 0, 0, 0, 0, 0, 0, 0, 0, 0, 0, 0, 0, 0, 0, 0, 0, 0, 0, 0, 1, 224] =
     [0, 0, 0, 0, 0, 0, 0, 0, 0, 0, 0, 0, 0, 0, 0, 480, 0, 0, 960, 0] @
     [0, 1920, 0, 960, 3840, 0, 0, 7680, 0, 3264, 15360, 1088, 0, 30720, 3840, 13056, 61440, 3840, 0,
     126720] @
     [0, 52224, 245760, 17280, 0, 495360, 65280, 206464, 983040, 61440, 13056, 2031360, 0, 833536,
     3932160, 264960, 61440, 7929600, 1044480, 3376896] @
     [15728640, 1032960, 61440, 32488192, 0, 13369344, 62976000, 4423680, 0, 126812160, 16711680,
     52862464, 251658240, 15790080, 3357696, 520062976, 0, 213420032, 1006694400, 67783168]"
  by (simp add: sha1Schedule_def sha1Extend_def rotl32_def)

lemma sample_r21:
  "foldl sha1Round (1540323111, 1931952490, 3195796473, 1517820024, 1581688034)
     (zip [0..<20]
     [0, 0, 0, 0, 0, 0, 0, 0, 0, 0, 0, 0, 0, 0, 0, 480, 0, 0, 960, 0]) =
     (704678737, 790182409, 2626053057, 2394280195, 639335578)"
  by (simp add: sha1_eval upt_rec)

lemma sample_r22:
  "foldl sha1Round (704678737, 790182409, 2626053057, 2394280195, 639335578)
     (zip [20..<40]
     [0, 1920, 0, 960, 3840, 0, 0, 7680, 0, 3264, 15360, 1088, 0, 30720, 3840, 13056, 61440, 3840, 0,
     126720]) =
     (1869188890, 3338603731, 3730487228, 1601125563, 497322629)"
  by (simp add: sha1_eval upt_rec)

lemma sample_r23:
  "foldl sha1Round (1869188890, 3338603731, 3730487228, 1601125563, 497322629)
     (zip [40..<60]
     [0, 52224, 245760, 17280, 0, 495360, 65280, 206464, 983040, 61440, 13056, 2031360, 0, 833536,
     3932160, 264960, 61440, 7929600, 1044480, 3376896]) =
     (1443995417, 140423934, 1212818885, 3242250216, 1752014928)"
  by (simp add: sha1_eval upt_rec)

lemma sample_r24:
  "foldl sha1Round (1443995417, 140423934, 1212818885, 3242250216, 1752014928)
     (zip [60..<80]
     [15728640, 1032960, 61440, 32488192, 0, 13369344, 62976000, 4423680, 0, 126812160, 16711680,
     52862464, 251658240, 15790080, 3357696, 520062976, 0, 213420032, 1006694400, 67783168]) =
     (1470814213, 1295715756, 3531229709, 1958756557, 1417158664)"
  by (simp add: sha1_eval upt_rec)

lemma sample_blocks:
  "sha1Block sha1_iv
     [100, 71, 104, 108, 73, 72, 78, 104, 98, 88, 66, 115, 90, 83, 66, 117, 98, 50, 53, 106, 90, 81, 61,
     61, 50, 53, 56, 69, 65, 70, 65, 53, 45, 69, 57, 49, 52, 45, 52, 55, 68, 65, 45, 57, 53, 67, 65, 45,
     67, 53, 65, 66, 48, 68, 67, 56, 53, 66, 49, 49, 128, 0, 0, 0] =
     [1540323111, 1931952490, 3195796473, 1517820024, 1581688034]"
  "sha1Block [1540323111, 1931952490, 3195796473, 1517820024, 1581688034]
     [0, 0, 0, 0, 0, 0, 0, 0, 0, 0, 0, 0, 0, 0, 0, 0, 0, 0, 0, 0, 0, 0, 0, 0, 0, 0, 0, 0, 0, 0, 0, 0, 0,
     0, 0, 0, 0, 0, 0, 0, 0, 0, 0, 0, 0, 0, 0, 0, 0, 0, 0, 0, 0, 0, 0, 0, 0, 0, 0, 0, 0, 0, 1, 224] =
     [3011137324, 3227668246, 2432058886, 3476576581, 2998846698]"
  using sha1_rounds_80 [where h = sha1_iv, OF sample_w1 _ _ _ _ _ sample_r12 sample_r13 sample_r14]
    sha1_rounds_80 [where h = "[1540323111, 1931952490, 3195796473, 1517820024, 1581688034]", OF sample_w2 _ _ _ _ _ sample_r22 sample_r23 sample_r24]
  by (simp_all add: sha1_iv_def sample_r11 sample_r21 del: upt_rec_numeral)

lemma sample_digest:
  "sha1 (bytes ''dGhlIHNhbXBsZSBub25jZQ=='' @ WS_MAGIC) =
     [179, 122, 79, 44, 192, 98, 79, 22, 144, 246, 70, 6, 207, 56, 89, 69, 178, 190, 196, 234]"
proof -
  have "blocks 64 (sha1_pad (bytes ''dGhlIHNhbXBsZSBub25jZQ=='' @ WS_MAGIC)) =
    [[100, 71, 104, 108, 73, 72, 78, 104, 98, 88, 66, 115, 90, 83, 66, 117, 98, 50, 53, 106, 90, 81, 61,
     61, 50, 53, 56, 69, 65, 70, 65, 53, 45, 69, 57, 49, 52, 45, 52, 55, 68, 65, 45, 57, 53, 67, 65, 45,
     67, 53, 65, 66, 48, 68, 67, 56, 53, 66, 49, 49, 128, 0, 0, 0],
     [0, 0, 0, 0, 0, 0, 0, 0, 0, 0, 0, 0, 0, 0, 0, 0, 0, 0, 0, 0, 0, 0, 0, 0, 0, 0, 0, 0, 0, 0, 0, 0, 0,
     0, 0, 0, 0, 0, 0, 0, 0, 0, 0, 0, 0, 0, 0, 0, 0, 0, 0, 0, 0, 0, 0, 0, 0, 0, 0, 0, 0, 0, 1, 224]]" by code_simp
  then show ?thesis
    by (simp add: sha1_eq_fold sha1_fold_def sample_blocks be32_def upt_rec)
qed

subsection \<open>The sample\<close>

lemma wsComputeAccept_rfc6455_sample:
  "wsComputeAccept (bytes ''dGhlIHNhbXBsZSBub25jZQ=='') = Some (bytes ''s3pPLMBiTxaQ9kYGzzhZRbK+xOo='')"
proof -
  have "base64DecodedLen (bytes ''dGhlIHNhbXBsZSBub25jZQ=='') = 16" by code_simp
  moreover have "base64Encode
     [179, 122, 79, 44, 192, 98, 79, 22, 144, 246, 70, 6, 207, 56, 89, 69, 178, 190, 196, 234] = bytes ''s3pPLMBiTxaQ9kYGzzhZRbK+xOo=''" by code_simp
  ultimately show ?thesis by (simp add: wsComputeAccept_def sample_digest)
qed

lemma rfc_accept_sample:
  "rfc_key (bytes ''dGhlIHNhbXBsZSBub25jZQ=='') \<and>
   rfc_accept (bytes ''dGhlIHNhbXBsZSBub25jZQ=='') = bytes ''s3pPLMBiTxaQ9kYGzzhZRbK+xOo=''"
  using wsComputeAccept_rfc6455_sample by (auto simp: wsComputeAccept_rfc split: if_splits)

end
