(* ===== verification/Utf8.thy ===== *)
theory Utf8
  imports Interfaces
begin

section \<open>Incremental UTF-8 validation (src/src/ws.c, \<open>wsUtf8*\<close>)\<close>

text \<open>
  The state \<open>Utf8St_t\<close> carried between fragments: how many continuation bytes the current character
  still needs, and the special range of the first of them after the lead bytes E0, ED, F0 and F4.
\<close>

datatype Utf8Kind_t = U8_NONE | U8_GEN | U8_E0 | U8_ED | U8_F0 | U8_F4

record Utf8St_t =
  u8need :: nat
  u8kind :: Utf8Kind_t

definition wsUtf8Reset :: Utf8St_t where
  "wsUtf8Reset = \<lparr>u8need = 0, u8kind = U8_NONE\<rparr>"

text \<open>The branch of \<open>wsUtf8Feed\<close>'s loop body for a byte that starts a character.\<close>

definition utf8Lead :: "Utf8St_t \<Rightarrow> byte \<Rightarrow> Utf8St_t option" where
  "utf8Lead st b =
     (if b \<le> 0x7F then Some st
      else if 0xC2 \<le> b \<and> b \<le> 0xDF then Some \<lparr>u8need = 1, u8kind = U8_GEN\<rparr>
      else if b = 0xE0 then Some \<lparr>u8need = 2, u8kind = U8_E0\<rparr>
      else if 0xE1 \<le> b \<and> b \<le> 0xEC then Some \<lparr>u8need = 2, u8kind = U8_GEN\<rparr>
      else if b = 0xED then Some \<lparr>u8need = 2, u8kind = U8_ED\<rparr>
      else if 0xEE \<le> b \<and> b \<le> 0xEF then Some \<lparr>u8need = 2, u8kind = U8_GEN\<rparr>
      else if b = 0xF0 then Some \<lparr>u8need = 3, u8kind = U8_F0\<rparr>
      else if 0xF1 \<le> b \<and> b \<le> 0xF3 then Some \<lparr>u8need = 3, u8kind = U8_GEN\<rparr>
      else if b = 0xF4 then Some \<lparr>u8need = 3, u8kind = U8_F4\<rparr>
      else None)"

text \<open>The \<open>switch\<close> on the kind, for a continuation byte.\<close>

fun utf8ContOk :: "Utf8Kind_t \<Rightarrow> byte \<Rightarrow> bool" where
  "utf8ContOk U8_E0 b \<longleftrightarrow> 0xA0 \<le> b \<and> b \<le> 0xBF"
| "utf8ContOk U8_ED b \<longleftrightarrow> 0x80 \<le> b \<and> b \<le> 0x9F"
| "utf8ContOk U8_F0 b \<longleftrightarrow> 0x90 \<le> b \<and> b \<le> 0xBF"
| "utf8ContOk U8_F4 b \<longleftrightarrow> 0x80 \<le> b \<and> b \<le> 0x8F"
| "utf8ContOk _ b \<longleftrightarrow> 0x80 \<le> b \<and> b \<le> 0xBF"

fun wsUtf8Feed :: "Utf8St_t \<Rightarrow> byte list \<Rightarrow> int \<times> Utf8St_t" where
  "wsUtf8Feed st [] = (0, st)"
| "wsUtf8Feed st (b # p) =
     (if u8need st = 0 then
        (case utf8Lead st b of None \<Rightarrow> (-1, st) | Some st' \<Rightarrow> wsUtf8Feed st' p)
      else if \<not> utf8ContOk (u8kind st) b then (-1, st)
      else wsUtf8Feed (st\<lparr>u8kind := U8_GEN, u8need := u8need st - 1\<rparr>) p)"

definition wsUtf8Done :: "Utf8St_t \<Rightarrow> bool" where
  "wsUtf8Done st \<longleftrightarrow> u8need st = 0"

text \<open>The whole check of a message that arrives at once: what the fragments' checks add up to.\<close>

definition utf8_valid :: "byte list \<Rightarrow> bool" where
  "utf8_valid bs \<longleftrightarrow> (case wsUtf8Feed wsUtf8Reset bs of (rc, st) \<Rightarrow> rc = 0 \<and> wsUtf8Done st)"

subsection \<open>The specification: encoded Unicode scalar values\<close>

definition scalar :: "nat \<Rightarrow> bool" where
  "scalar cp \<longleftrightarrow> cp < 0x110000 \<and> \<not> (0xD800 \<le> cp \<and> cp \<le> 0xDFFF)"

definition utf8_enc :: "nat \<Rightarrow> byte list" where
  "utf8_enc cp =
     (if cp < 0x80 then [of_nat cp]
      else if cp < 0x800 then [of_nat (192 + cp div 64), of_nat (128 + cp mod 64)]
      else if cp < 0x10000 then
        [of_nat (224 + cp div 4096), of_nat (128 + cp div 64 mod 64), of_nat (128 + cp mod 64)]
      else
        [of_nat (240 + cp div 262144), of_nat (128 + cp div 4096 mod 64),
         of_nat (128 + cp div 64 mod 64), of_nat (128 + cp mod 64)])"

subsection \<open>Feeding in pieces\<close>

lemma wsUtf8Feed_append:
  "wsUtf8Feed st (xs @ ys) =
     (case wsUtf8Feed st xs of (rc, st') \<Rightarrow> if rc = 0 then wsUtf8Feed st' ys else (rc, st'))"
  by (induction st xs rule: wsUtf8Feed.induct) (auto split: option.splits)

lemma wsUtf8Feed_rc: "fst (wsUtf8Feed st xs) = 0 \<or> fst (wsUtf8Feed st xs) = -1"
  by (induction st xs rule: wsUtf8Feed.induct) (auto split: option.splits)

definition utf8FeedOn :: "int \<times> Utf8St_t \<Rightarrow> byte list \<Rightarrow> int \<times> Utf8St_t" where
  "utf8FeedOn r xs = (if fst r = 0 then wsUtf8Feed (snd r) xs else r)"

interpretation utf8: byte_consumer utf8FeedOn "\<lambda>r xs. r = wsUtf8Feed wsUtf8Reset xs"
  by unfold_locales (auto simp: utf8FeedOn_def wsUtf8Feed_append split: prod.splits)

subsection \<open>The automaton accepts exactly the encodings\<close>

lemmas utf8_num = word_le_nat_alt word_unat_eq_iff

lemma unat_byte: "n < 256 \<Longrightarrow> unat (of_nat n :: byte) = n"
  by (simp add: unat_of_nat)

lemma utf8Lead_of_nat:
  "n < 256 \<Longrightarrow> utf8Lead st (of_nat n) =
     (if n \<le> 127 then Some st
      else if 194 \<le> n \<and> n \<le> 223 then Some \<lparr>u8need = 1, u8kind = U8_GEN\<rparr>
      else if 224 \<le> n \<and> n \<le> 239 then
        Some \<lparr>u8need = 2, u8kind = (if n = 224 then U8_E0 else if n = 237 then U8_ED else U8_GEN)\<rparr>
      else if 240 \<le> n \<and> n \<le> 244 then
        Some \<lparr>u8need = 3, u8kind = (if n = 240 then U8_F0 else if n = 244 then U8_F4 else U8_GEN)\<rparr>
      else None)"
  by (auto simp: utf8Lead_def utf8_num unat_byte)

definition contLo :: "Utf8Kind_t \<Rightarrow> nat" where
  "contLo k = (case k of U8_E0 \<Rightarrow> 32 | U8_F0 \<Rightarrow> 16 | _ \<Rightarrow> 0)"

definition contHi :: "Utf8Kind_t \<Rightarrow> nat" where
  "contHi k = (case k of U8_ED \<Rightarrow> 31 | U8_F4 \<Rightarrow> 15 | _ \<Rightarrow> 63)"

lemma utf8ContOk_of_nat:
  "n < 256 \<Longrightarrow> utf8ContOk k (of_nat n) \<longleftrightarrow> 128 + contLo k \<le> n \<and> n \<le> 128 + contHi k"
  by (cases k) (simp_all add: utf8_num unat_byte contLo_def contHi_def)

lemma contLo_GEN [simp]: "contLo U8_GEN = 0" and contHi_GEN [simp]: "contHi U8_GEN = 63"
  by (simp_all add: contLo_def contHi_def)

text \<open>One character at a time: the lead byte and the continuation bytes, by the bits they carry.\<close>

lemma feed_cont:
  "0 < u8need st \<Longrightarrow> contLo (u8kind st) \<le> m \<Longrightarrow> m \<le> contHi (u8kind st) \<Longrightarrow> m < 64 \<Longrightarrow>
     wsUtf8Feed st (of_nat (128 + m) # p) = wsUtf8Feed \<lparr>u8need = u8need st - 1, u8kind = U8_GEN\<rparr> p"
  by (cases st) (simp add: utf8ContOk_of_nat del: of_nat_add)

lemma feed_lead:
  "u8need st = 0 \<Longrightarrow> utf8Lead st (of_nat n) = Some st' \<Longrightarrow>
     wsUtf8Feed st (of_nat n # p) = wsUtf8Feed st' p"
  by simp

lemma utf8_enc_accepted:
  assumes "scalar cp" and st: "u8need st = 0"
  shows "\<exists>k. wsUtf8Feed st (utf8_enc cp @ p) = wsUtf8Feed \<lparr>u8need = 0, u8kind = k\<rparr> p"
proof -
  have r: "cp mod 64 < 64" by simp
  consider "cp < 0x80" | "0x80 \<le> cp" "cp < 0x800" | "0x800 \<le> cp" "cp < 0x10000" | "0x10000 \<le> cp" "cp < 0x110000"
    using assms(1) by (fastforce simp: scalar_def not_less)
  then show ?thesis
  proof cases
    case 1
    then show ?thesis
      using st by (intro exI [of _ "u8kind st"]) (cases st, simp add: utf8_enc_def utf8Lead_of_nat)
  next
    case 2
    then have q: "2 \<le> cp div 64" "cp div 64 < 32" by auto
    have "wsUtf8Feed st (utf8_enc cp @ p) = wsUtf8Feed \<lparr>u8need = 0, u8kind = U8_GEN\<rparr> p"
      using 2 q st by (simp add: utf8_enc_def feed_lead utf8Lead_of_nat feed_cont del: of_nat_add wsUtf8Feed.simps)
    then show ?thesis ..
  next
    case 3
    define q m where "q = cp div 4096" and "m = cp div 64 mod 64"
    have qm: "cp div 64 = 64 * q + m" using div_mult2_eq [of cp 64 64] by (simp add: q_def m_def)
    have "q < 16" and m: "m < 64" using 3 by (simp_all add: q_def m_def)
    moreover have "q = 0 \<Longrightarrow> 32 \<le> m" using 3 qm by simp
    moreover have "m \<le> 31" if "q = 13"
    proof -
      have "cp div 64 < 896" using that qm m by simp
      then have "cp < 57344" by simp
      with assms(1) have "cp < 55296" by (simp add: scalar_def)
      then have "cp div 64 < 864" by simp
      with that qm show ?thesis by simp
    qed
    ultimately have "wsUtf8Feed st (utf8_enc cp @ p) = wsUtf8Feed \<lparr>u8need = 0, u8kind = U8_GEN\<rparr> p"
      using 3 st unfolding utf8_enc_def q_def [symmetric] m_def [symmetric]
      by (simp add: feed_lead utf8Lead_of_nat feed_cont contLo_def contHi_def del: of_nat_add wsUtf8Feed.simps)
    then show ?thesis ..
  next
    case 4
    define q m where "q = cp div 262144" and "m = cp div 4096 mod 64"
    have qm: "cp div 4096 = 64 * q + m" using div_mult2_eq [of cp 4096 64] by (simp add: q_def m_def)
    have "q < 5" "m < 64" using 4 by (simp_all add: q_def m_def)
    moreover have "q = 0 \<Longrightarrow> 16 \<le> m" using 4 qm by simp
    moreover have "q = 4 \<Longrightarrow> m \<le> 15" using 4 qm by simp
    ultimately have "wsUtf8Feed st (utf8_enc cp @ p) = wsUtf8Feed \<lparr>u8need = 0, u8kind = U8_GEN\<rparr> p"
      using 4 st unfolding utf8_enc_def q_def [symmetric] m_def [symmetric]
      by (simp add: feed_lead utf8Lead_of_nat feed_cont contLo_def contHi_def del: of_nat_add wsUtf8Feed.simps)
    then show ?thesis ..
  qed
qed

text \<open>The other direction: an accepted text starts with the encoding of a scalar value.\<close>

lemma byte_of_nat_cases:
  obtains n where "(b :: byte) = of_nat n" and "n < 256"
proof (rule that [of "unat b"])
  show "b = of_nat (unat b)" by simp
  show "unat b < 256" by (rule order_less_le_trans [OF unsigned_less]) simp
qed

lemma feed_cont_elim:
  assumes "wsUtf8Feed st bs = (0, st')" and "wsUtf8Done st'" and "u8need st = Suc k"
  obtains m bs' where "bs = of_nat (128 + m) # bs'" "m < 64" "contLo (u8kind st) \<le> m" "m \<le> contHi (u8kind st)"
    "wsUtf8Feed \<lparr>u8need = k, u8kind = U8_GEN\<rparr> bs' = (0, st')"
proof (cases bs)
  case Nil
  with assms show ?thesis by (auto simp: wsUtf8Done_def)
next
  case (Cons b bs')
  obtain n where n: "b = of_nat n" "n < 256" by (rule byte_of_nat_cases)
  have hi: "contHi (u8kind st) \<le> 63" by (simp add: contHi_def split: Utf8Kind_t.split)
  from assms Cons n have ok: "utf8ContOk (u8kind st) (of_nat n)"
    and step: "wsUtf8Feed \<lparr>u8need = k, u8kind = U8_GEN\<rparr> bs' = (0, st')"
    by (cases st; auto split: if_splits)+
  from ok n have lo: "128 + contLo (u8kind st) \<le> n" "n \<le> 128 + contHi (u8kind st)"
    by (simp_all add: utf8ContOk_of_nat)
  then show ?thesis
    using hi Cons n step by (intro that [of "n - 128" bs']) auto
qed

lemma utf8_lead_elim:
  assumes "wsUtf8Feed st (b # bs) = (0, st')" and "u8need st = 0"
  obtains st1 n where "b = of_nat n" "n < 256" "utf8Lead st (of_nat n) = Some st1" "wsUtf8Feed st1 bs = (0, st')"
proof -
  obtain n where "b = of_nat n" "n < 256" by (rule byte_of_nat_cases)
  with assms that show ?thesis by (auto split: option.splits)
qed

lemma sextet:
  "l < 64 \<Longrightarrow> (a * 64 + l) div 64 = (a :: nat)" "l < 64 \<Longrightarrow> (a * 64 + l) mod 64 = (l :: nat)"
  by simp_all

lemma utf8_enc_two:
  assumes "2 \<le> q" and "q < 32" and "l < 64"
  shows "scalar (q * 64 + l)" and "utf8_enc (q * 64 + l) = [of_nat (192 + q), of_nat (128 + l)]"
  using assms by (simp_all add: scalar_def utf8_enc_def del: of_nat_add)

lemma utf8_enc_three:
  assumes cp: "cp = (q * 64 + m) * 64 + l" and "q < 16" and m: "m < 64" and l: "l < 64"
    and "q = 0 \<Longrightarrow> 32 \<le> m" and "q = 13 \<Longrightarrow> m \<le> 31"
  shows "scalar cp" and "utf8_enc cp = [of_nat (224 + q), of_nat (128 + m), of_nat (128 + l)]"
proof -
  have "cp div 64 = q * 64 + m" "cp mod 64 = l" "cp div (64 * 64) = q"
    unfolding cp by (simp_all only: div_mult2_eq sextet [OF l] sextet [OF m])
  then have parts: "cp div 64 = q * 64 + m" "cp mod 64 = l" "cp div 4096 = q" by simp_all
  show "scalar cp"
    unfolding scalar_def using assms by (cases "q \<le> 12"; cases "q = 13"; auto)
  have "0x800 \<le> cp" "cp < 0x10000" using assms by (cases "q = 0"; auto)+
  then show "utf8_enc cp = [of_nat (224 + q), of_nat (128 + m), of_nat (128 + l)]"
    using m by (simp add: utf8_enc_def parts del: of_nat_add)
qed

lemma utf8_enc_four:
  assumes cp: "cp = ((q * 64 + m1) * 64 + m) * 64 + l" and "q < 5" and m1: "m1 < 64" and m: "m < 64" and l: "l < 64"
    and "q = 0 \<Longrightarrow> 16 \<le> m1" and "q = 4 \<Longrightarrow> m1 \<le> 15"
  shows "scalar cp"
    and "utf8_enc cp = [of_nat (240 + q), of_nat (128 + m1), of_nat (128 + m), of_nat (128 + l)]"
proof -
  have "cp div 64 = (q * 64 + m1) * 64 + m" "cp mod 64 = l" "cp div (64 * 64) = q * 64 + m1" "cp div (64 * 64 * 64) = q"
    unfolding cp by (simp_all only: div_mult2_eq sextet [OF l] sextet [OF m] sextet [OF m1])
  then have parts: "cp div 64 = (q * 64 + m1) * 64 + m" "cp mod 64 = l" "cp div 4096 = q * 64 + m1" "cp div 262144 = q"
    by simp_all
  have range: "0x10000 \<le> cp" "cp < 0x110000" using assms by (cases "q = 0"; cases "q = 4"; auto)+
  then show "scalar cp" by (simp add: scalar_def)
  have "((q * 64 + m1) * 64 + m) mod 64 = m" "(q * 64 + m1) mod 64 = m1"
    by (simp_all only: sextet [OF m] sextet [OF m1])
  with range show "utf8_enc cp = [of_nat (240 + q), of_nat (128 + m1), of_nat (128 + m), of_nat (128 + l)]"
    by (simp only: utf8_enc_def parts) simp
qed

lemma utf8Lead_kinds:
  assumes "utf8Lead st (of_nat n) = Some st1" and "n < 256"
  obtains "n \<le> 127" "st1 = st"
  | q where "n = 192 + q" "2 \<le> q" "q < 32" "u8need st1 = Suc 0" "u8kind st1 = U8_GEN"
  | q where "n = 224 + q" "q < 16" "u8need st1 = Suc (Suc 0)"
      "u8kind st1 = (if q = 0 then U8_E0 else if q = 13 then U8_ED else U8_GEN)"
  | q where "n = 240 + q" "q < 5" "u8need st1 = Suc (Suc (Suc 0))"
      "u8kind st1 = (if q = 0 then U8_F0 else if q = 4 then U8_F4 else U8_GEN)"
proof -
  consider "n \<le> 127" | q where "n = 192 + q" "2 \<le> q" "q < 32" | q where "n = 224 + q" "q < 16"
    | q where "n = 240 + q" "q < 5"
  proof -
    have "n \<le> 127 \<or> (194 \<le> n \<and> n \<le> 223) \<or> (224 \<le> n \<and> n \<le> 239) \<or> (240 \<le> n \<and> n \<le> 244)"
      using assms by (auto simp: utf8Lead_of_nat split: if_splits)
    then show ?thesis
      using that(1) that(2) [of "n - 192"] that(3) [of "n - 224"] that(4) [of "n - 240"] by fastforce
  qed
  then show ?thesis
  proof cases
    case 1
    with assms that(1) show ?thesis by (simp add: utf8Lead_of_nat)
  next
    case (2 q)
    with assms that(2) [of q] show ?thesis by (auto simp: utf8Lead_of_nat simp del: of_nat_add)
  next
    case (3 q)
    with assms that(3) [of q] show ?thesis by (auto simp: utf8Lead_of_nat numeral_2_eq_2 simp del: of_nat_add)
  next
    case (4 q)
    with assms that(4) [of q] show ?thesis by (auto simp: utf8Lead_of_nat numeral_3_eq_3 simp del: of_nat_add)
  qed
qed

lemma utf8_accepted_first:
  assumes run: "wsUtf8Feed st bs = (0, st')" and fin: "wsUtf8Done st'" and st: "u8need st = 0" and "bs \<noteq> []"
  shows "\<exists>cp rest st1. scalar cp \<and> bs = utf8_enc cp @ rest \<and> u8need st1 = 0 \<and> wsUtf8Feed st1 rest = (0, st')"
proof -
  let ?gen = "\<lambda>k. \<lparr>u8need = k, u8kind = U8_GEN\<rparr>"
  obtain b bs1 where bs: "bs = b # bs1" using assms(4) by (cases bs) auto
  obtain st1 n where n: "b = of_nat n" "n < 256" "utf8Lead st (of_nat n) = Some st1"
    and run1: "wsUtf8Feed st1 bs1 = (0, st')" by (rule utf8_lead_elim [OF run [unfolded bs] st])
  show ?thesis
    using n(3,2)
  proof (cases rule: utf8Lead_kinds)
    case 1
    then have "scalar n \<and> bs = utf8_enc n @ bs1" using bs n by (simp add: scalar_def utf8_enc_def)
    with 1 run1 st show ?thesis by blast
  next
    case (2 q)
    obtain m bs2 where m: "bs1 = of_nat (128 + m) # bs2" "m < 64" and run2: "wsUtf8Feed (?gen 0) bs2 = (0, st')"
      by (rule feed_cont_elim [OF run1 fin 2(4)])
    with bs n 2 utf8_enc_two [of q m] show ?thesis
      by (intro exI [of _ "q * 64 + m"] exI [of _ bs2] exI [of _ "?gen 0"]) simp
  next
    case (3 q)
    obtain m bs2 where m: "bs1 = of_nat (128 + m) # bs2" "m < 64" "contLo (u8kind st1) \<le> m" "m \<le> contHi (u8kind st1)"
      and run2: "wsUtf8Feed (?gen (Suc 0)) bs2 = (0, st')" by (rule feed_cont_elim [OF run1 fin 3(3)])
    obtain l bs3 where l: "bs2 = of_nat (128 + l) # bs3" "l < 64" and run3: "wsUtf8Feed (?gen 0) bs3 = (0, st')"
      by (rule feed_cont_elim [OF run2 fin]) auto
    have "q = 0 \<Longrightarrow> 32 \<le> m" and "q = 13 \<Longrightarrow> m \<le> 31"
      using m 3(4) by (auto simp: contLo_def contHi_def)
    with bs n m l run3 3 utf8_enc_three [OF refl, of q m l] show ?thesis
      by (intro exI [of _ "(q * 64 + m) * 64 + l"] exI [of _ bs3] exI [of _ "?gen 0"]) simp
  next
    case (4 q)
    obtain m1 bs2 where m1: "bs1 = of_nat (128 + m1) # bs2" "m1 < 64" "contLo (u8kind st1) \<le> m1" "m1 \<le> contHi (u8kind st1)"
      and run2: "wsUtf8Feed (?gen (Suc (Suc 0))) bs2 = (0, st')" by (rule feed_cont_elim [OF run1 fin 4(3)])
    obtain m bs3 where m: "bs2 = of_nat (128 + m) # bs3" "m < 64" and run3: "wsUtf8Feed (?gen (Suc 0)) bs3 = (0, st')"
      by (rule feed_cont_elim [OF run2 fin]) auto
    obtain l bs4 where l: "bs3 = of_nat (128 + l) # bs4" "l < 64" and run4: "wsUtf8Feed (?gen 0) bs4 = (0, st')"
      by (rule feed_cont_elim [OF run3 fin]) auto
    have "q = 0 \<Longrightarrow> 16 \<le> m1" and "q = 4 \<Longrightarrow> m1 \<le> 15"
      using m1 4(4) by (auto simp: contLo_def contHi_def)
    with bs n m1 m l run4 4 utf8_enc_four [OF refl, of q m1 m l] show ?thesis
      by (intro exI [of _ "((q * 64 + m1) * 64 + m) * 64 + l"] exI [of _ bs4] exI [of _ "?gen 0"]) simp
  qed
qed

lemma utf8_enc_nonempty: "utf8_enc cp \<noteq> []"
  by (simp add: utf8_enc_def)

lemma utf8_accepted_imp:
  "wsUtf8Feed st bs = (0, st') \<Longrightarrow> wsUtf8Done st' \<Longrightarrow> u8need st = 0 \<Longrightarrow>
     \<exists>cps. list_all scalar cps \<and> bs = concat (map utf8_enc cps)"
proof (induction bs arbitrary: st rule: length_induct)
  case (1 bs)
  show ?case
  proof (cases "bs = []")
    case True
    then show ?thesis by (intro exI [of _ "[]"]) simp
  next
    case False
    then obtain cp rest st1 where cp: "scalar cp" "bs = utf8_enc cp @ rest"
      and run: "u8need st1 = 0" "wsUtf8Feed st1 rest = (0, st')"
      using utf8_accepted_first [OF "1.prems"] by blast
    have "length rest < length bs" using cp(2) utf8_enc_nonempty [of cp] by simp
    with "1.IH" run "1.prems"(2) obtain cps where "list_all scalar cps" "rest = concat (map utf8_enc cps)" by blast
    with cp show ?thesis by (intro exI [of _ "cp # cps"]) simp
  qed
qed

lemma utf8_encodings_accepted:
  "list_all scalar cps \<Longrightarrow> u8need st = 0 \<Longrightarrow>
     \<exists>st'. wsUtf8Feed st (concat (map utf8_enc cps)) = (0, st') \<and> wsUtf8Done st'"
proof (induction cps arbitrary: st)
  case Nil
  then show ?case by (simp add: wsUtf8Done_def)
next
  case (Cons cp cps)
  then obtain k where "wsUtf8Feed st (utf8_enc cp @ concat (map utf8_enc cps)) =
      wsUtf8Feed \<lparr>u8need = 0, u8kind = k\<rparr> (concat (map utf8_enc cps))"
    using utf8_enc_accepted by fastforce
  with Cons show ?case by simp
qed

subsection \<open>Every accepted prefix can be completed\<close>

definition utf8Wf :: "Utf8St_t \<Rightarrow> bool" where
  "utf8Wf st \<longleftrightarrow> u8need st \<le> 3 \<and> (u8need st \<noteq> 0 \<longrightarrow>
     (u8kind st \<in> {U8_E0, U8_ED} \<longrightarrow> u8need st = 2) \<and> (u8kind st \<in> {U8_F0, U8_F4} \<longrightarrow> u8need st = 3))"

lemma utf8Wf_reset [inv_intros]: "utf8Wf wsUtf8Reset"
  by (simp add: utf8Wf_def wsUtf8Reset_def)

lemma utf8Wf_lead: "utf8Lead st b = Some st' \<Longrightarrow> u8need st = 0 \<Longrightarrow> utf8Wf st'"
  by (auto simp: utf8Lead_def utf8Wf_def split: if_splits)

lemma utf8Wf_feed [inv_intros]: "wsUtf8Feed st xs = (rc, st') \<Longrightarrow> utf8Wf st \<Longrightarrow> utf8Wf st'"
proof (induction st xs rule: wsUtf8Feed.induct)
  case (2 st b p)
  show ?case
  proof (cases "u8need st = 0")
    case True
    with 2 show ?thesis by (auto split: option.splits dest: utf8Wf_lead)
  next
    case False
    moreover from False "2.prems"(2) have "utf8Wf (st\<lparr>u8kind := U8_GEN, u8need := u8need st - 1\<rparr>)"
      by (auto simp: utf8Wf_def)
    ultimately show ?thesis using 2 by (auto split: if_splits)
  qed
qed simp

definition utf8Rest :: "Utf8St_t \<Rightarrow> byte list" where
  "utf8Rest st = (if u8need st = 0 then []
     else of_nat (128 + contLo (u8kind st)) # replicate (u8need st - 1) 0x80)"

lemma feed_zeros:
  "u8need st \<le> k \<Longrightarrow> u8kind st = U8_GEN \<Longrightarrow> \<exists>st'. wsUtf8Feed st (replicate (u8need st) 0x80) = (0, st') \<and> wsUtf8Done st'"
proof (induction k arbitrary: st)
  case 0
  then show ?case by (simp add: wsUtf8Done_def)
next
  case (Suc k)
  show ?case
  proof (cases "u8need st")
    case 0
    then show ?thesis by (simp add: wsUtf8Done_def)
  next
    case (Suc n)
    with Suc.prems Suc.IH [of "st\<lparr>u8kind := U8_GEN, u8need := n\<rparr>"] show ?thesis by simp
  qed
qed

lemma utf8Rest_completes:
  assumes "utf8Wf st"
  shows "\<exists>st'. wsUtf8Feed st (utf8Rest st) = (0, st') \<and> wsUtf8Done st'"
proof (cases "u8need st = 0")
  case True
  then show ?thesis by (simp add: utf8Rest_def wsUtf8Done_def)
next
  case False
  let ?gen = "\<lparr>u8need = u8need st - 1, u8kind = U8_GEN\<rparr>"
  have "contLo (u8kind st) \<le> contHi (u8kind st)" "contLo (u8kind st) < 64"
    by (simp_all add: contLo_def contHi_def split: Utf8Kind_t.split)
  with False have "wsUtf8Feed st (utf8Rest st) = wsUtf8Feed ?gen (replicate (u8need ?gen) 0x80)"
    unfolding utf8Rest_def by (simp add: feed_cont del: of_nat_add wsUtf8Feed.simps)
  with feed_zeros [of ?gen "u8need ?gen"] show ?thesis by simp
qed

lemma utf8_valid_encodings:
  "utf8_valid bs \<longleftrightarrow> (\<exists>cps. list_all scalar cps \<and> bs = concat (map utf8_enc cps))"
proof
  assume "utf8_valid bs"
  then show "\<exists>cps. list_all scalar cps \<and> bs = concat (map utf8_enc cps)"
    using utf8_accepted_imp [of wsUtf8Reset bs] by (auto simp: utf8_valid_def wsUtf8Reset_def split: prod.splits)
next
  assume "\<exists>cps. list_all scalar cps \<and> bs = concat (map utf8_enc cps)"
  then show "utf8_valid bs"
    using utf8_encodings_accepted [of _ wsUtf8Reset] by (fastforce simp: utf8_valid_def wsUtf8Reset_def)
qed

text \<open>The bytes that some continuation makes valid UTF-8.\<close>

definition utf8_prefix :: "byte list \<Rightarrow> bool" where
  "utf8_prefix bs \<longleftrightarrow> (\<exists>rest. utf8_valid (bs @ rest))"

lemma wsUtf8Feed_prefix: "fst (wsUtf8Feed wsUtf8Reset bs) = 0 \<longleftrightarrow> utf8_prefix bs"
proof
  assume "utf8_prefix bs"
  then obtain rest where valid: "utf8_valid (bs @ rest)" unfolding utf8_prefix_def ..
  obtain rc st where run: "wsUtf8Feed wsUtf8Reset bs = (rc, st)" by fastforce
  show "fst (wsUtf8Feed wsUtf8Reset bs) = 0"
  proof (rule ccontr)
    assume "\<not> ?thesis"
    with run valid show False by (simp add: utf8_valid_def wsUtf8Feed_append)
  qed
next
  assume ok: "fst (wsUtf8Feed wsUtf8Reset bs) = 0"
  obtain rc st where run: "wsUtf8Feed wsUtf8Reset bs = (rc, st)" by fastforce
  with ok utf8Rest_completes [OF utf8Wf_feed [OF run utf8Wf_reset]] have "utf8_valid (bs @ utf8Rest st)"
    by (auto simp: utf8_valid_def wsUtf8Feed_append)
  then show "utf8_prefix bs" unfolding utf8_prefix_def ..
qed

lemma utf8_valid_prefix: "utf8_valid bs \<Longrightarrow> utf8_prefix bs"
  unfolding utf8_prefix_def by (rule exI [of _ "[]"]) simp

subsection \<open>Properties\<close>

text \<open>C26: The validator implements RFC 3629. Over all byte strings, \<open>wsUtf8Feed\<close> from a reset state
  followed by \<open>wsUtf8Done\<close> accepts exactly the concatenations of encodings of Unicode scalar values:
  no overlong form, no surrogate, nothing above U+10FFFF, no truncated character, and no valid text
  is refused.\<close>

theorem utf8_valid_iff:
  "utf8_valid bs \<longleftrightarrow> (\<exists>cps. list_all scalar cps \<and> bs = concat (map utf8_enc cps))"
  by (rule utf8_valid_encodings)

text \<open>C30: Rejection is exact and happens at the earliest byte: the validator reports an error on some
  bytes exactly when no continuation of them is a concatenation of encodings of Unicode scalar values
  (a close with code 1007 is never sent for a message that could still have become valid, and is sent as
  soon as it cannot).\<close>

theorem utf8_rejects_iff_hopeless:
  "fst (wsUtf8Feed wsUtf8Reset bs) = -1 \<longleftrightarrow>
     \<not> (\<exists>rest cps. list_all scalar cps \<and> bs @ rest = concat (map utf8_enc cps))"
proof -
  have "fst (wsUtf8Feed wsUtf8Reset bs) = -1 \<longleftrightarrow> \<not> fst (wsUtf8Feed wsUtf8Reset bs) = 0"
    using wsUtf8Feed_rc [of wsUtf8Reset bs] by auto
  then show ?thesis unfolding wsUtf8Feed_prefix utf8_prefix_def utf8_valid_encodings by simp
qed

text \<open>Fragmentation does not matter: feeding a text in any pieces, stopping at the first error as the
  callers do, ends in the same verdict and the same state as feeding it at once.\<close>

lemma utf8_fragmentation:
  "foldl utf8FeedOn (0, wsUtf8Reset) chunks = wsUtf8Feed wsUtf8Reset (concat chunks)"
  using utf8.rep_chunks [of "(0, wsUtf8Reset)" "[]" chunks] by simp

end
