(* ===== verification/Config.thy ===== *)
theory Config
  imports Prelude
begin

section \<open>The server's configuration (src/inc/server.h)\<close>

text \<open>
  \<open>ServerConfig_t\<close> with its default values. The queues and the aggregator, which the C structure points
  to, are the shared state of the program (the record \<open>world\<close> of theory Agg); the other fields are set
  by the command line before the threads start and only read afterwards. C strings are byte lists
  without the NUL, sizes are natural numbers.
\<close>

record UpstreamConfig_t =
  uhost :: "byte list"
  uport :: int
  upath :: "byte list"

record ServerConfig_t =
  upstreams :: "UpstreamConfig_t list"
  upstreamCapacity :: nat
  port :: int
  workers :: int
  listeners :: int
  sinkPath :: "byte list"
  handshakeMax :: nat
  maxFrame :: nat
  maxMessage :: nat
  confHigh :: nat
  confLow :: nat
  tickMs :: int

definition UPSTREAM_HOST_MAX :: nat where "UPSTREAM_HOST_MAX = 256"
definition UPSTREAM_PATH_MAX :: nat where "UPSTREAM_PATH_MAX = 512"
definition MAX_WORKERS :: int where "MAX_WORKERS = 64"
definition MAX_LISTENERS :: int where "MAX_LISTENERS = 16"

definition server_defaults :: ServerConfig_t where
  "server_defaults = \<lparr>upstreams = [], upstreamCapacity = 0, port = 33333, workers = 8, listeners = 2,
     sinkPath = bytes ''/feed'', handshakeMax = 8 * 1024, maxFrame = 64 * 1024,
     maxMessage = 4 * 1024 * 1024, confHigh = 256, confLow = 128, tickMs = 1000\<rparr>"

lemma server_defaults_fields [simp]:
  "maxFrame server_defaults = 65536" "maxMessage server_defaults = 4194304" "handshakeMax server_defaults = 8192"
  "confHigh server_defaults = 256" "confLow server_defaults = 128" "sinkPath server_defaults = bytes ''/feed''"
  by (simp_all add: server_defaults_def)

end
