(* ===== verification/Buffer.thy ===== *)
theory Buffer
  imports Os
begin

section \<open>Growing byte buffers (\<open>Buf_t\<close>, src/src/conn.c)\<close>

text \<open>
  A \<open>Buf_t\<close> owns \<open>cap\<close> bytes, of which the first \<open>len\<close> have been filled and the first \<open>off\<close> of
  those have already been consumed. \<open>bp\<close> holds the filled part \<open>p[0 .. len)\<close>, so \<open>len\<close> is its length;
  the bytes above \<open>len\<close> are never read by the program and are not represented. The contents the
  callers see (\<open>bufData\<close>, \<open>bufLen\<close>) are the view \<open>p[off .. len)\<close>.
\<close>

record Buf_t =
  bp :: "byte list"
  cap :: nat
  off :: nat

abbreviation blen :: "Buf_t \<Rightarrow> nat" where
  "blen b \<equiv> length (bp b)"

definition buf_empty :: Buf_t where
  "buf_empty = \<lparr>bp = [], cap = 0, off = 0\<rparr>"

definition bufData :: "Buf_t \<Rightarrow> byte list" where
  "bufData b = drop (off b) (bp b)"

definition bufLen :: "Buf_t \<Rightarrow> nat" where
  "bufLen b = blen b - off b"

definition bufCompact :: "Buf_t \<Rightarrow> Buf_t" where
  "bufCompact b = (if off b = 0 then b else b\<lparr>bp := drop (off b) (bp b), off := 0\<rparr>)"

text \<open>
  The doubling loop of \<open>bufReserve\<close>. On \<open>size_t\<close> it wraps: \<open>growCap64\<close> is the loop on 64-bit words,
  which may not end (\<open>None\<close>); \<open>growCap\<close> is the same loop without a width. They agree as long as
  the request fits in half the address space (\<open>growCap64_nat\<close> below), and \<open>bufReserve\<close> uses the
  second one.
\<close>

partial_function (option) growCap64 :: "u64 \<Rightarrow> u64 \<Rightarrow> u64 option" where
  "growCap64 newCap need = (if newCap < need then growCap64 (newCap * 2) need else Some newCap)"

function growCap :: "nat \<Rightarrow> nat \<Rightarrow> nat" where
  "growCap newCap need = (if 0 < newCap \<and> newCap < need then growCap (newCap * 2) need else newCap)"
  by pat_completeness auto
termination
  by (relation "measure (\<lambda>(newCap, need). need - newCap)") auto

declare growCap.simps [simp del]

definition bufReserve :: "Buf_t \<Rightarrow> nat \<Rightarrow> nat \<Rightarrow> 'a os_scheme \<Rightarrow> int \<times> Buf_t \<times> 'a os_scheme" where
  "bufReserve b extra hardCap s =
     (if extra \<le> cap b - blen b then (0, b, s)
      else
        let b1 = bufCompact b in
        if extra \<le> cap b1 - blen b1 then (0, b1, s)
        else
          let need = blen b1 + extra;
              newCap = growCap (if cap b1 \<noteq> 0 then cap b1 else 256) need
          in
          if hardCap \<noteq> 0 \<and> hardCap < newCap \<and> hardCap < need then (-1, b1, s)
          else
            let newCap' = (if hardCap \<noteq> 0 \<and> hardCap < newCap then hardCap else newCap);
                (ok, s1) = os_alloc s
            in if ok then (0, b1\<lparr>cap := newCap'\<rparr>, s1) else (-1, b1, s1))"

definition bufConsume :: "Buf_t \<Rightarrow> nat \<Rightarrow> Buf_t" where
  "bufConsume b n =
     (let off' = off b + n in
      if blen b \<le> off' then b\<lparr>bp := [], off := 0\<rparr> else b\<lparr>off := off'\<rparr>)"

definition bufAppend :: "Buf_t \<Rightarrow> byte list \<Rightarrow> 'a os_scheme \<Rightarrow> Buf_t \<times> 'a os_scheme" where
  "bufAppend b data s =
     (if data = [] then (b, s)
      else case bufReserve b (length data) 0 s of
        (rc, b1, s1) \<Rightarrow> if rc \<noteq> 0 then (b1, s1) else (b1\<lparr>bp := bp b1 @ data\<rparr>, s1))"

definition bufReset :: "Buf_t \<Rightarrow> Buf_t" where
  "bufReset b = b\<lparr>bp := [], off := 0\<rparr>"

definition bufFree :: "Buf_t \<Rightarrow> Buf_t" where
  "bufFree b = b\<lparr>bp := [], cap := 0, off := 0\<rparr>"

text \<open>Overwriting bytes of the view in place (\<open>wsUnmask\<close> on a pointer into the buffer).\<close>

definition bufPatch :: "Buf_t \<Rightarrow> nat \<Rightarrow> byte list \<Rightarrow> Buf_t" where
  "bufPatch b i xs =
     b\<lparr>bp := take (off b + i) (bp b) @ xs @ drop (off b + i + length xs) (bp b)\<rparr>"

function bufRecvLoop ::
  "bool \<Rightarrow> int \<Rightarrow> nat \<Rightarrow> nat \<Rightarrow> Buf_t \<Rightarrow> 'a os_scheme \<Rightarrow> int \<times> Buf_t \<times> 'a os_scheme" where
  "bufRecvLoop got fd chunk hardCap b s =
     (case bufReserve b chunk hardCap s of (rc, b1, s1) \<Rightarrow>
        if rc \<noteq> 0 then (-2, b1, s1)
        else case os_recv fd (cap b1 - blen b1) s1 of (r, s2) \<Rightarrow>
          (case r of
             RxData bs \<Rightarrow>
               if bs \<noteq> [] then bufRecvLoop True fd chunk hardCap (b1\<lparr>bp := bp b1 @ bs\<rparr>) s2
               else (if got then 2 else -1, b1, s2)
           | RxEof \<Rightarrow> (if got then 2 else -1, b1, s2)
           | RxAgain \<Rightarrow> (if got then 1 else 0, b1, s2)
           | RxIntr \<Rightarrow> (if got then 2 else -1, b1, s2)
           | RxErr \<Rightarrow> (if got then 2 else -1, b1, s2)))"
  by pat_completeness auto

lemma bufReserve_frame:
  "bufReserve b extra hardCap s = (rc, b', s') \<Longrightarrow> rxs s' = rxs s \<and> txs s' = txs s \<and> wire s' = wire s \<and>
     ep_log s' = ep_log s \<and> closed s' = closed s \<and> os.more s' = os.more s"
  by (auto simp: bufReserve_def Let_def split: if_splits prod.splits dest!: os_alloc_frame)

termination bufRecvLoop
  by (relation "measure (\<lambda>(got, fd, chunk, hardCap, b, s). rx_weight (rxs s fd))")
    (auto dest!: bufReserve_frame [OF sym] os_recv_weight [OF sym])

declare bufRecvLoop.simps [simp del]

definition bufRecv :: "int \<Rightarrow> Buf_t \<Rightarrow> nat \<Rightarrow> nat \<Rightarrow> 'a os_scheme \<Rightarrow> int \<times> Buf_t \<times> 'a os_scheme" where
  "bufRecv fd b chunk hardCap s = bufRecvLoop False fd chunk hardCap b s"

lemma bufLen_bufConsume: "bufLen (bufConsume b n) = bufLen b - n"
  by (auto simp: bufLen_def bufConsume_def Let_def)

function bufSend :: "int \<Rightarrow> Buf_t \<Rightarrow> 'a os_scheme \<Rightarrow> int \<times> Buf_t \<times> 'a os_scheme" where
  "bufSend fd b s =
     (if 0 < bufLen b then
        case os_send fd (bufData b) s of (r, s1) \<Rightarrow>
          (case r of
             IoN n \<Rightarrow> if 0 < n then bufSend fd (bufConsume b n) s1 else (-1, b, s1)
           | IoAgain \<Rightarrow> (0, b, s1)
           | IoIntr \<Rightarrow> (-1, b, s1)
           | IoErr \<Rightarrow> (-1, b, s1))
      else (1, b, s))"
  by pat_completeness auto
termination
  by (relation "measure (\<lambda>(fd, b, s). bufLen b)") (auto simp: bufLen_bufConsume)

declare bufSend.simps [simp del]

subsection \<open>The representation invariant and the view\<close>

definition bufInv :: "Buf_t \<Rightarrow> bool" where
  "bufInv b \<longleftrightarrow> off b \<le> blen b \<and> blen b \<le> cap b"

lemma bufInv_empty [simp, inv_intros]: "bufInv buf_empty"
  by (simp add: bufInv_def buf_empty_def)

lemma bufData_empty [simp]: "bufData buf_empty = []"
  by (simp add: bufData_def buf_empty_def)

lemma length_bufData [simp]: "length (bufData b) = bufLen b"
  by (simp add: bufData_def bufLen_def)

lemma bufCompact_view [buf_simps]: "bufData (bufCompact b) = bufData b"
  by (simp add: bufCompact_def bufData_def)

lemma bufInv_bufCompact [inv_intros]: "bufInv b \<Longrightarrow> bufInv (bufCompact b)"
  by (auto simp: bufInv_def bufCompact_def)

lemma cap_bufCompact [simp]: "cap (bufCompact b) = cap b"
  by (simp add: bufCompact_def)

lemma bp_bufCompact [simp]: "bp (bufCompact b) = bufData b"
  by (simp add: bufCompact_def bufData_def)

lemma bufData_cap [simp]: "bufData (b\<lparr>cap := n\<rparr>) = bufData b"
  by (simp add: bufData_def)

lemma blen_bufCompact: "blen (bufCompact b) = bufLen b"
  by (simp add: bufCompact_def bufLen_def)

lemma off_bufCompact [simp]: "off (bufCompact b) = 0"
  by (simp add: bufCompact_def)

lemma bufConsume_view [buf_simps]: "bufData (bufConsume b n) = drop n (bufData b)"
  by (simp add: bufConsume_def bufData_def Let_def add.commute)

lemma bufInv_bufConsume [inv_intros]: "bufInv b \<Longrightarrow> bufInv (bufConsume b n)"
  by (auto simp: bufInv_def bufConsume_def Let_def)

lemma bufReset_view [buf_simps]: "bufData (bufReset b) = []"
  by (simp add: bufReset_def bufData_def)

lemma bufLen_bufReset [simp]: "bufLen (bufReset b) = 0"
  by (simp add: bufReset_def bufLen_def)

lemma bufInv_bufReset [inv_intros]: "bufInv (bufReset b)"
  by (simp add: bufInv_def bufReset_def)

lemma bufFree_view [buf_simps]: "bufData (bufFree b) = []"
  by (simp add: bufFree_def bufData_def)

lemma bufInv_bufFree [inv_intros]: "bufInv (bufFree b)"
  by (simp add: bufInv_def bufFree_def)

lemma bufPatch_view:
  assumes "bufInv b" and "i + length xs \<le> bufLen b"
  shows "bufData (bufPatch b i xs) = take i (bufData b) @ xs @ drop (i + length xs) (bufData b)"
proof -
  have "off b + i \<le> blen b" using assms by (auto simp: bufInv_def bufLen_def)
  then show ?thesis
    by (simp add: bufPatch_def bufData_def min_def take_drop add.commute add.left_commute)
qed

lemma blen_bufPatch:
  "bufInv b \<Longrightarrow> i + length xs \<le> bufLen b \<Longrightarrow> blen (bufPatch b i xs) = blen b"
  by (auto simp: bufPatch_def bufInv_def bufLen_def)

lemma bufInv_bufPatch [inv_intros]:
  "bufInv b \<Longrightarrow> i + length xs \<le> bufLen b \<Longrightarrow> bufInv (bufPatch b i xs)"
  using blen_bufPatch [of b i xs] by (auto simp: bufInv_def bufPatch_def)

lemma bufLen_bufPatch:
  "bufInv b \<Longrightarrow> i + length xs \<le> bufLen b \<Longrightarrow> bufLen (bufPatch b i xs) = bufLen b"
  using blen_bufPatch [of b i xs] by (auto simp: bufLen_def bufPatch_def)

subsection \<open>Reserving room\<close>

lemma growCap_ge: "0 < newCap \<Longrightarrow> need \<le> growCap newCap need \<and> newCap \<le> growCap newCap need"
proof (induction newCap need rule: growCap.induct)
  case (1 newCap need)
  then show ?case by (subst (1 2) growCap.simps) force
qed

lemma growCap_le: "0 < newCap \<Longrightarrow> growCap newCap need \<le> max newCap (2 * need)"
proof (induction newCap need rule: growCap.induct)
  case (1 newCap need)
  then show ?case by (subst growCap.simps) force
qed

text \<open>Reserving never changes the contents.\<close>

lemma bufReserve_view:
  "bufReserve b extra hardCap s = (rc, b', s') \<Longrightarrow> bufData b' = bufData b"
  by (auto simp: bufReserve_def Let_def buf_simps split: if_splits prod.splits)

lemma bufReserve_inv:
  "bufReserve b extra hardCap s = (rc, b', s') \<Longrightarrow> bufInv b \<Longrightarrow> bufInv b'"
  using growCap_ge [of "if cap b \<noteq> 0 then cap b else 256" "bufLen b + extra"]
  by (auto simp: bufReserve_def Let_def bufInv_def blen_bufCompact bufCompact_def bufLen_def
      split: if_splits prod.splits)

lemma bufReserve_ok:
  "bufReserve b extra hardCap s = (0, b', s') \<Longrightarrow> extra \<le> cap b' - blen b'"
  using growCap_ge [of "if cap b \<noteq> 0 then cap b else 256" "bufLen b + extra"]
  by (auto simp: bufReserve_def Let_def blen_bufCompact split: if_splits prod.splits)

lemma bufReserve_rc: "bufReserve b extra hardCap s = (rc, b', s') \<Longrightarrow> rc = 0 \<or> rc = -1"
  by (auto simp: bufReserve_def Let_def split: if_splits prod.splits)

lemma bufReserve_cap:
  "bufReserve b extra hardCap s = (rc, b', s') \<Longrightarrow> hardCap \<noteq> 0 \<Longrightarrow> cap b' \<le> max (cap b) hardCap"
  by (auto simp: bufReserve_def Let_def split: if_splits prod.splits)

lemma bufReserve_fail:
  "bufReserve b extra hardCap s = (-1, b', s') \<Longrightarrow>
     mallocs s \<noteq> [] \<or> (hardCap \<noteq> 0 \<and> hardCap < bufLen b + extra)"
  by (auto simp: bufReserve_def Let_def os_alloc_def blen_bufCompact
      split: if_splits prod.splits list.splits)

lemma bufReserve_refuses:
  assumes "bufInv b" and "cap b \<le> hardCap" and "hardCap \<noteq> 0" and "hardCap < bufLen b + extra"
  shows "fst (bufReserve b extra hardCap s) = -1"
proof -
  have "\<not> extra \<le> cap b - blen b" and "\<not> extra \<le> cap b - bufLen b"
    using assms by (auto simp: bufInv_def bufLen_def)
  then show ?thesis
    using assms growCap_ge [of "if cap b \<noteq> 0 then cap b else 256" "bufLen b + extra"]
    by (auto simp: bufReserve_def Let_def blen_bufCompact)
qed

lemma bufReserve_mallocs:
  "bufReserve b extra hardCap s = (rc, b', s') \<Longrightarrow> mallocs s = [] \<Longrightarrow> mallocs s' = []"
  by (auto simp: bufReserve_def Let_def os_alloc_def split: if_splits prod.splits list.splits)

text \<open>On 64-bit sizes the doubling loop does not wrap and ends, if the request fits in \<open>2 ^ 63\<close>.\<close>

lemma unat_double: "unat (w :: u64) < 2 ^ 63 \<Longrightarrow> unat (w * 2) = 2 * unat w"
  by (simp add: unat_word_ariths)

lemma growCap64_steps:
  "0 < unat newCap \<Longrightarrow> unat need \<le> 2 ^ 63 \<Longrightarrow>
     \<exists>r. growCap64 newCap need = Some r \<and> unat r = growCap (unat newCap) (unat need)"
proof (induction "unat need - unat newCap" arbitrary: newCap rule: less_induct)
  case less
  show ?case
  proof (cases "newCap < need")
    case True
    then have lt: "unat newCap < unat need" by (simp add: word_less_nat_alt)
    with less.prems have dbl: "unat (newCap * 2) = unat newCap * 2"
      by (subst unat_double) auto
    with less.prems lt have "\<exists>r. growCap64 (newCap * 2) need = Some r \<and>
        unat r = growCap (unat (newCap * 2)) (unat need)"
      by (intro less.hyps) auto
    with less.prems lt dbl True show ?thesis
      by (subst growCap64.simps, subst growCap.simps) auto
  next
    case False
    then show ?thesis
      by (subst growCap64.simps, subst growCap.simps) (simp add: word_less_nat_alt)
  qed
qed

subsection \<open>Appending, receiving, sending\<close>

lemma bufAppend_frame:
  "bufAppend b data s = (b', s') \<Longrightarrow> rxs s' = rxs s \<and> txs s' = txs s \<and> wire s' = wire s \<and>
     ep_log s' = ep_log s \<and> closed s' = closed s \<and> os.more s' = os.more s"
  by (auto simp: bufAppend_def split: if_splits prod.splits dest!: bufReserve_frame)

lemma bufInv_bufAppend [inv_intros]: "bufAppend b data s = (b', s') \<Longrightarrow> bufInv b \<Longrightarrow> bufInv b'"
  using bufReserve_inv [of b "length data" 0 s] bufReserve_ok [of b "length data" 0 s]
  by (auto simp: bufAppend_def bufInv_def split: if_splits prod.splits)

text \<open>Appending appends, or (only when the allocator fails) leaves the contents as they were.\<close>

lemma bufAppend_view_cases:
  "bufAppend b data s = (b', s') \<Longrightarrow> bufInv b \<Longrightarrow>
     bufData b' = bufData b @ data \<or> (bufData b' = bufData b \<and> mallocs s \<noteq> [])"
proof -
  assume app: "bufAppend b data s = (b', s')" and inv: "bufInv b"
  obtain rc b1 s1 where res: "bufReserve b (length data) 0 s = (rc, b1, s1)" by (metis prod_cases3)
  have view: "bufData b1 = bufData b" using res by (rule bufReserve_view)
  have inv1: "bufInv b1" using res inv by (rule bufReserve_inv)
  show ?thesis
  proof (cases "data = [] \<or> rc = 0")
    case True
    with app res view inv1 show ?thesis
      by (auto simp: bufAppend_def bufData_def bufInv_def split: if_splits)
  next
    case False
    with res have "mallocs s \<noteq> []" using bufReserve_rc [OF res] bufReserve_fail [of b _ 0 s b1 s1] by auto
    with False app res view show ?thesis by (auto simp: bufAppend_def)
  qed
qed

lemma bufAppend_view [buf_simps]:
  "bufInv b \<Longrightarrow> mallocs s = [] \<Longrightarrow> bufData (fst (bufAppend b data s)) = bufData b @ data"
  using bufAppend_view_cases [of b data s "fst (bufAppend b data s)" "snd (bufAppend b data s)"] by simp

lemma bufAppend_mallocs:
  "bufAppend b data s = (b', s') \<Longrightarrow> mallocs s = [] \<Longrightarrow> mallocs s' = []"
  by (auto simp: bufAppend_def split: if_splits prod.splits dest: bufReserve_mallocs)

text \<open>
  The induction every fact about \<open>bufRecv\<close> uses: one unfolding of the loop, with the reserve and the
  receive step named.
\<close>

lemma bufRecvLoop_unfold:
  assumes "bufReserve b chunk hardCap s = (rc, b1, s1)"
    and "os_recv fd (cap b1 - blen b1) s1 = (r, s2)"
  shows "bufRecvLoop got fd chunk hardCap b s =
    (if rc \<noteq> 0 then (-2, b1, s1)
     else case r of
       RxData bs \<Rightarrow> if bs \<noteq> [] then bufRecvLoop True fd chunk hardCap (b1\<lparr>bp := bp b1 @ bs\<rparr>) s2
                    else (if got then 2 else -1, b1, s2)
     | RxAgain \<Rightarrow> (if got then 1 else 0, b1, s2)
     | _ \<Rightarrow> (if got then 2 else -1, b1, s2))"
  by (subst bufRecvLoop.simps) (simp add: assms split: rx_res.splits)

lemma bufRecvLoop_induct [consumes 1, case_names reserve_fails received stops]:
  fixes s :: "'a os_scheme"
  assumes run: "bufRecvLoop got fd chunk hardCap b s = (rc, b', s')"
    and fails: "\<And>got b s b1 s1 rc1. bufReserve b chunk hardCap s = (rc1, b1, s1) \<Longrightarrow> rc1 \<noteq> 0 \<Longrightarrow>
      P got b (s :: 'a os_scheme) (-2 :: int) b1 s1"
    and received: "\<And>got b s b1 s1 bs s2 rc b' s'. bufReserve b chunk hardCap s = (0, b1, s1) \<Longrightarrow>
      os_recv fd (cap b1 - blen b1) s1 = (RxData bs, s2) \<Longrightarrow> bs \<noteq> [] \<Longrightarrow>
      P True (b1\<lparr>bp := bp b1 @ bs\<rparr>) s2 rc b' s' \<Longrightarrow> P got b s rc b' s'"
    and stops: "\<And>got b s b1 s1 r s2 rc. bufReserve b chunk hardCap s = (0, b1, s1) \<Longrightarrow>
      os_recv fd (cap b1 - blen b1) s1 = (r, s2) \<Longrightarrow> \<forall>bs. r = RxData bs \<longrightarrow> bs = [] \<Longrightarrow>
      rc = (if r = RxAgain then (if got then 1 else 0) else (if got then 2 else -1)) \<Longrightarrow>
      P got b s rc b1 s2"
  shows "P got b s rc b' s'"
  using run
proof (induction "rx_weight (rxs s fd)" arbitrary: got b s rule: less_induct)
  case less
  obtain rc1 b1 s1 where res: "bufReserve b chunk hardCap s = (rc1, b1, s1)" by (metis prod_cases3)
  obtain r s2 where rcv: "os_recv fd (cap b1 - blen b1) s1 = (r, s2)" by fastforce
  note step = bufRecvLoop_unfold [OF res rcv, of got]
  consider "rc1 \<noteq> 0" | bs where "rc1 = 0" "r = RxData bs" "bs \<noteq> []"
    | "rc1 = 0" "\<forall>bs. r = RxData bs \<longrightarrow> bs = []" by blast
  then show ?case
  proof cases
    case 1
    with less.prems step res show ?thesis by (auto intro: fails)
  next
    case 2
    with res have res0: "bufReserve b chunk hardCap s = (0, b1, s1)" by simp
    from rcv 2 have rcv': "os_recv fd (cap b1 - blen b1) s1 = (RxData bs, s2)" by simp
    have "rx_weight (rxs s2 fd) < rx_weight (rxs s fd)"
      using os_recv_weight [OF rcv' 2(3)] bufReserve_frame [OF res0] by simp
    moreover have "bufRecvLoop True fd chunk hardCap (b1\<lparr>bp := bp b1 @ bs\<rparr>) s2 = (rc, b', s')"
      using less.prems step 2 by simp
    ultimately show ?thesis by (intro received [OF res0 rcv' 2(3)]) (rule less.hyps)
  next
    case 3
    then have "(rc, b', s') =
        (if r = RxAgain then (if got then 1 else 0) else (if got then 2 else -1), b1, s2)"
      using less.prems step by (auto split: rx_res.splits if_splits)
    with res rcv 3 show ?thesis by (auto intro!: stops)
  qed
qed

lemma bufReserve_append_inv:
  assumes "bufReserve b chunk hardCap s = (0, b1, s1)"
    and "os_recv fd (cap b1 - blen b1) s1 = (RxData bs, s2)" and "bufInv b"
  shows "bufInv (b1\<lparr>bp := bp b1 @ bs\<rparr>)"
    and "bufData (b1\<lparr>bp := bp b1 @ bs\<rparr>) = bufData b @ bs"
  using bufReserve_inv [OF assms(1,3)] os_recv_bytes [OF assms(2)] bufReserve_view [OF assms(1)]
  by (auto simp: bufInv_def bufData_def)

lemma bufRecvLoop_stream:
  "bufRecvLoop got fd chunk hardCap b s = (rc, b', s') \<Longrightarrow> bufInv b \<Longrightarrow>
     bufInv b' \<and> bufData b' @ rx_bytes (rxs s' fd) = bufData b @ rx_bytes (rxs s fd)"
proof (induction rule: bufRecvLoop_induct)
  case (reserve_fails got b s b1 s1 rc1)
  then show ?case
    using bufReserve_inv [OF reserve_fails(1)] bufReserve_view [OF reserve_fails(1)]
      bufReserve_frame [OF reserve_fails(1)] by simp
next
  case (received got b s b1 s1 bs s2 rc b' s')
  with bufReserve_append_inv [OF received(1,2)] show ?case
    using os_recv_bytes [OF received(2)] bufReserve_frame [OF received(1)] by simp
next
  case (stops got b s b1 s1 r s2 rc)
  have "rx_bytes (rxs s2 fd) = rx_bytes (rxs s1 fd)"
  proof (cases "\<exists>bs. r = RxData bs")
    case True
    with stops(2,3) have "os_recv fd (cap b1 - blen b1) s1 = (RxData [], s2)" by auto
    then show ?thesis using os_recv_bytes by fastforce
  next
    case False
    with os_recv_other_bytes [OF stops(2)] show ?thesis by blast
  qed
  with stops show ?case
    using bufReserve_inv [OF stops(1)] bufReserve_view [OF stops(1)] bufReserve_frame [OF stops(1)]
    by simp
qed

lemma bufRecvLoop_limit:
  "bufRecvLoop got fd chunk hardCap b s = (rc, b', s') \<Longrightarrow> bufInv b \<Longrightarrow> cap b \<le> hardCap \<Longrightarrow> 0 < hardCap \<Longrightarrow>
     cap b' \<le> hardCap \<and> (rc \<noteq> -2 \<longrightarrow> bufLen b' + chunk \<le> hardCap)"
proof (induction rule: bufRecvLoop_induct)
  case (reserve_fails got b s b1 s1 rc1)
  then show ?case using bufReserve_cap [OF reserve_fails(1)] by simp
next
  case (received got b s b1 s1 bs s2 rc b' s')
  with bufReserve_append_inv [OF received(1,2)] bufReserve_cap [OF received(1)] show ?case by simp
next
  case (stops got b s b1 s1 r s2 rc)
  with bufReserve_cap [OF stops(1)] bufReserve_ok [OF stops(1)] bufReserve_inv [OF stops(1)]
  show ?case by (auto simp: bufLen_def bufInv_def)
qed

lemma bufRecvLoop_rc:
  "bufRecvLoop got fd chunk hardCap b s = (rc, b', s') \<Longrightarrow> rc \<in> {-2, -1, 0, 1, 2}"
  by (induction rule: bufRecvLoop_induct) auto

lemma bufRecvLoop_frame:
  "bufRecvLoop got fd chunk hardCap b s = (rc, b', s') \<Longrightarrow> txs s' = txs s \<and> wire s' = wire s \<and>
     ep_log s' = ep_log s \<and> closed s' = closed s \<and> os.more s' = os.more s"
  by (induction rule: bufRecvLoop_induct) (auto dest!: bufReserve_frame os_recv_frame)

lemma bufRecvLoop_mallocs:
  "bufRecvLoop got fd chunk hardCap b s = (rc, b', s') \<Longrightarrow> mallocs s = [] \<Longrightarrow> mallocs s' = []"
  by (induction rule: bufRecvLoop_induct) (auto dest!: bufReserve_mallocs dest: os_recv_frame)

lemmas bufRecv_stream = bufRecvLoop_stream [of False, folded bufRecv_def]
lemmas bufRecv_limit = bufRecvLoop_limit [of False, folded bufRecv_def]
lemmas bufRecv_rc = bufRecvLoop_rc [of False, folded bufRecv_def]
lemmas bufRecv_frame = bufRecvLoop_frame [of False, folded bufRecv_def]
lemmas bufRecv_mallocs = bufRecvLoop_mallocs [of False, folded bufRecv_def]

lemma bufSend_stream:
  "bufSend fd b s = (rc, b', s') \<Longrightarrow> bufInv b \<Longrightarrow>
     bufInv b' \<and> wire s' fd @ bufData b' = wire s fd @ bufData b \<and> (rc = 1 \<longleftrightarrow> bufData b' = [])
     \<and> rc \<in> {-1, 0, 1} \<and> (\<forall>g. g \<noteq> fd \<longrightarrow> wire s' g = wire s g)"
proof (induction fd b s rule: bufSend.induct)
  case (1 fd b s)
  show ?case
  proof (cases "0 < bufLen b")
    case False
    with "1.prems" show ?thesis by (auto simp: bufSend.simps [of fd b s] bufData_def bufLen_def)
  next
    case True
    obtain r s1 where snd: "os_send fd (bufData b) s = (r, s1)" by fastforce
    show ?thesis
    proof (cases "\<exists>n. r = IoN n \<and> 0 < n")
      case True
      then obtain n where n: "r = IoN n" "0 < n" by blast
      with \<open>0 < bufLen b\<close> snd "1.prems" have "bufSend fd (bufConsume b n) s1 = (rc, b', s')"
        by (simp add: bufSend.simps [of fd b s])
      moreover have "bufInv (bufConsume b n)" using "1.prems" by (simp add: inv_intros)
      ultimately show ?thesis
        using "1.IH" [OF \<open>0 < bufLen b\<close> snd [symmetric] n(1) n(2)] os_send_wire [of fd _ s n s1] snd n
        by (auto simp: buf_simps)
    next
      case False
      have "bufData b \<noteq> []" using \<open>0 < bufLen b\<close> by (auto simp: bufData_def bufLen_def)
      with False \<open>0 < bufLen b\<close> snd "1.prems" show ?thesis
        using os_send_wire [of fd _ s _ s1] os_send_fail_wire [OF snd]
        by (auto simp: bufSend.simps [of fd b s] split: io_res.splits if_splits)
    qed
  qed
qed

lemma bufSend_frame:
  "bufSend fd b s = (rc, b', s') \<Longrightarrow> mallocs s' = mallocs s \<and> rxs s' = rxs s \<and>
     ep_log s' = ep_log s \<and> closed s' = closed s \<and> os.more s' = os.more s"
proof (induction fd b s rule: bufSend.induct)
  case (1 fd b s)
  obtain r s1 where snd: "os_send fd (bufData b) s = (r, s1)" by fastforce
  with 1 show ?case
    by (auto simp: bufSend.simps [of fd b s] dest!: os_send_frame split: io_res.splits if_splits)
qed

lemma bufSend_all: "txs s fd = [] \<Longrightarrow> fst (bufSend fd b s) = 1"
  by (simp add: bufSend.simps [of fd b s] os_send_def bufSend.simps [of fd "bufConsume b n" for n]
      bufLen_bufConsume)

subsection \<open>Properties\<close>

text \<open>A buffer with two bytes, one of them consumed, for the witnesses.\<close>

definition buf_two :: Buf_t where
  "buf_two = \<lparr>bp = [1, 2], cap = 256, off = 1\<rparr>"

lemma bufInv_buf_two: "bufInv buf_two"
  by (simp add: buf_two_def bufInv_def)

text \<open>C9: Receiving neither loses, repeats nor reorders bytes, and respects the limit: whatever the socket
  does, after \<open>bufRecv\<close> the buffer's view followed by what is still in the kernel is the view before
  followed by what was in the kernel; the allocation stays within \<open>hardCap\<close>; and unless it reports -2, at
  least \<open>chunk\<close> bytes of room are left, so the contents are at most \<open>hardCap - chunk\<close> bytes (the limit
  the callers get is smaller than the configured one by a whole chunk).\<close>

theorem bufRecv_correct:
  assumes "bufInv b" and "cap b \<le> hardCap" and "0 < hardCap"
  shows "case bufRecv fd b chunk hardCap s of (rc, b', s') \<Rightarrow>
    bufInv b' \<and> bufData b' @ rx_bytes (rxs s' fd) = bufData b @ rx_bytes (rxs s fd) \<and>
    cap b' \<le> hardCap \<and> rc \<in> {-2, -1, 0, 1, 2} \<and> (rc = -2 \<or> bufLen b' + chunk \<le> hardCap)"
proof -
  obtain rc b' s' where r: "bufRecv fd b chunk hardCap s = (rc, b', s')" by (metis prod_cases3)
  then show ?thesis
    using bufRecv_stream [OF r assms(1)] bufRecv_limit [OF r assms] bufRecv_rc [OF r] by auto
qed

theorem bufRecv_correct_witness:
  "case bufRecv 4 buf_two 16 512 (os_idle\<lparr>rxs := (\<lambda>_. [RxData [7, 8], RxEof])\<rparr>) of (rc, b', s') \<Rightarrow>
    bufInv b' \<and> bufData b' @ rx_bytes (rxs s' 4) =
      bufData buf_two @ rx_bytes (rxs (os_idle\<lparr>rxs := (\<lambda>_. [RxData [7, 8], RxEof])\<rparr>) 4) \<and>
    cap b' \<le> 512 \<and> rc \<in> {-2, -1, 0, 1, 2} \<and> (rc = -2 \<or> bufLen b' + 16 \<le> 512)"
  by (rule bufRecv_correct [OF bufInv_buf_two]) (simp_all add: buf_two_def)

text \<open>C36: \<open>bufReserve\<close> refuses exactly the requests that cannot fit: with memory available, a buffer whose
  allocation is within the limit is given room for \<open>extra\<close> more bytes if and only if contents and
  \<open>extra\<close> together fit in \<open>hardCap\<close>; it never changes the contents, and the allocation stays within
  the limit.\<close>

theorem bufReserve_exact:
  assumes "bufInv b" and "cap b \<le> hardCap" and "0 < hardCap" and "mallocs s = []"
  shows "case bufReserve b extra hardCap s of (rc, b', s') \<Rightarrow>
    rc = (if bufLen b + extra \<le> hardCap then 0 else -1) \<and> (rc = -1 \<or> extra \<le> cap b' - blen b') \<and>
    bufInv b' \<and> bufData b' = bufData b \<and> cap b' \<le> hardCap"
proof -
  obtain rc b' s' where r: "bufReserve b extra hardCap s = (rc, b', s')" by (metis prod_cases3)
  have "rc = (if bufLen b + extra \<le> hardCap then 0 else -1)"
    using bufReserve_rc [OF r] bufReserve_fail [of b extra hardCap s b' s'] assms r
      bufReserve_refuses [OF assms(1,2), of extra s] by auto
  moreover have "rc = -1 \<or> extra \<le> cap b' - blen b'"
    using bufReserve_ok [of b extra hardCap s] bufReserve_rc [OF r] r by auto
  ultimately show ?thesis
    using bufReserve_inv [OF r assms(1)] bufReserve_view [OF r] bufReserve_cap [OF r] assms(2,3) r
    by simp
qed

theorem bufReserve_exact_witness:
  "case bufReserve buf_two 600 512 os_idle of (rc, b', s') \<Rightarrow>
    rc = (if bufLen buf_two + 600 \<le> 512 then 0 else -1) \<and> (rc = -1 \<or> 600 \<le> cap b' - blen b') \<and>
    bufInv b' \<and> bufData b' = bufData buf_two \<and> cap b' \<le> 512"
  by (rule bufReserve_exact [OF bufInv_buf_two]) (simp_all add: buf_two_def os_idle_def)

text \<open>C37: The doubling loop that computes the new capacity on 64-bit sizes ends and does not wrap for every
  request of at most \<open>2 ^ 63\<close> bytes: its result is the least doubling of the old capacity that holds the
  request, computed without overflow.\<close>

theorem growCap64_terminates:
  assumes "0 < unat newCap" and "unat need \<le> 2 ^ 63"
  shows "\<exists>r. growCap64 newCap need = Some r \<and> unat r = growCap (unat newCap) (unat need) \<and> need \<le> r \<and>
    unat r \<le> max (unat newCap) (2 * unat need)"
  using growCap64_steps [OF assms] growCap_ge [OF assms(1), of "unat need"] growCap_le [OF assms(1), of "unat need"]
  by (auto simp: word_le_nat_alt)

theorem growCap64_terminates_witness:
  "\<exists>r. growCap64 256 1000 = Some r \<and> unat r = growCap (unat (256 :: u64)) (unat (1000 :: u64)) \<and> 1000 \<le> r \<and>
    unat r \<le> max (unat (256 :: u64)) (2 * unat (1000 :: u64))"
  by (rule growCap64_terminates) simp_all

text \<open>C28: Sending neither loses nor repeats bytes: what the peer has received followed by what is still in
  the buffer is always what it had received followed by the contents before; the result 1 says exactly
  that everything was sent; and no other socket is written to.\<close>

theorem bufSend_correct:
  assumes "bufInv b"
  shows "case bufSend fd b s of (rc, b', s') \<Rightarrow>
    bufInv b' \<and> wire s' fd @ bufData b' = wire s fd @ bufData b \<and> (rc = 1 \<longleftrightarrow> bufData b' = []) \<and>
    rc \<in> {-1, 0, 1} \<and> wire s' = (wire s)(fd := wire s' fd)"
  using bufSend_stream [OF _ assms, of fd s] by (auto simp: fun_eq_iff split: prod.splits)

theorem bufSend_correct_witness:
  "case bufSend 4 buf_two os_idle of (rc, b', s') \<Rightarrow>
    bufInv b' \<and> wire s' 4 @ bufData b' = wire os_idle 4 @ bufData buf_two \<and> (rc = 1 \<longleftrightarrow> bufData b' = []) \<and>
    rc \<in> {-1, 0, 1} \<and> wire s' = (wire os_idle)(4 := wire s' 4)"
  by (rule bufSend_correct [OF bufInv_buf_two])

end
