(* ===== verification/Http.thy ===== *)
theory Http
  imports Ws Buffer
begin

section \<open>The HTTP upgrade handshake (src/src/http.c)\<close>

text \<open>
  The request is scanned in place: a pointer into the buffer and the length left are a suffix of the
  byte list here, and a returned pointer with its length is the bytes it denotes. The functions are
  translated loop by loop; their meaning on well-formed header blocks (lines, comma-separated lists)
  is stated and proved below.
\<close>

definition CRLF :: "byte list" where "CRLF = [13, 10]"

definition tolower8 :: "byte \<Rightarrow> byte" where
  "tolower8 c = (if 65 \<le> c \<and> c \<le> 90 then c + 32 else c)"

text \<open>\<open>strncasecmp(a, b, n) == 0\<close> where \<open>b\<close> is a text of \<open>n\<close> characters without NUL.\<close>

definition caseEq :: "byte list \<Rightarrow> byte list \<Rightarrow> bool" where
  "caseEq a b \<longleftrightarrow> map tolower8 a = map tolower8 b"

fun findCRLF :: "byte list \<Rightarrow> nat option" where
  "findCRLF (a # b # r) = (if a = 13 \<and> b = 10 then Some 0 else map_option Suc (findCRLF (b # r)))"
| "findCRLF _ = None"

fun httpFindHeaderEnd :: "byte list \<Rightarrow> nat option" where
  "httpFindHeaderEnd (a # b # c # d # r) =
     (if a = 13 \<and> b = 10 \<and> c = 13 \<and> d = 10 then Some 0
      else map_option Suc (httpFindHeaderEnd (b # c # d # r)))"
| "httpFindHeaderEnd _ = None"

definition trimLeft :: "byte list \<Rightarrow> byte list" where
  "trimLeft v = dropWhile (\<lambda>c. c = 32) v"

definition trimRight :: "byte list \<Rightarrow> byte list" where
  "trimRight v = rev (dropWhile (\<lambda>c. c = 32) (rev v))"

lemma findCRLF_less: "findCRLF p = Some i \<Longrightarrow> Suc i < length p"
  by (induction p arbitrary: i rule: findCRLF.induct) (auto split: if_splits)

text \<open>The \<open>while\<close> loop of \<open>httpFindHeader\<close>; the argument is \<open>buf + pos\<close>.\<close>

function findHeaderLoop :: "byte list \<Rightarrow> byte list \<Rightarrow> byte list option" where
  "findHeaderLoop name line =
     (if line = [] then None
      else let nl = findCRLF line;
               lineLen = (case nl of Some i \<Rightarrow> i | None \<Rightarrow> length line);
               nameLen = length name
           in if lineLen = 0 then None
              else if nameLen < lineLen \<and> line ! nameLen = 58 \<and> caseEq (take nameLen line) name
              then Some (trimRight (trimLeft (take (lineLen - nameLen - 1) (drop (nameLen + 1) line))))
              else if nl = None then None
              else findHeaderLoop name (drop (lineLen + 2) line))"
  by pat_completeness auto
termination
  by (relation "measure (\<lambda>(name, line). length line)") auto

declare findHeaderLoop.simps [simp del]

definition httpFindHeader :: "byte list \<Rightarrow> byte list \<Rightarrow> byte list option" where
  "httpFindHeader buf name = (case findCRLF buf of None \<Rightarrow> None
     | Some i \<Rightarrow> findHeaderLoop name (drop (i + 2) buf))"

text \<open>\<open>httpHeaderHasToken\<close>; the first argument is \<open>val + i\<close>.\<close>

function httpHeaderHasToken :: "byte list \<Rightarrow> byte list \<Rightarrow> bool" where
  "httpHeaderHasToken val token =
     (if val = [] then False
      else let v = dropWhile (\<lambda>c. c = 32 \<or> c = 44) val;
               t = trimRight (takeWhile (\<lambda>c. c \<noteq> 44) v)
           in if t \<noteq> [] \<and> length t = length token \<and> caseEq t token then True
              else httpHeaderHasToken (dropWhile (\<lambda>c. c \<noteq> 44) v) token)"
  by pat_completeness auto
termination
proof (relation "measure (\<lambda>(val, token). length val)")
  fix val :: "byte list" and v :: "byte list"
  assume ne: "val \<noteq> []" and v: "v = dropWhile (\<lambda>c. c = 32 \<or> c = 44) val"
  have "length (dropWhile (\<lambda>c. c \<noteq> 44) v) < length val"
  proof (cases "hd val = 32 \<or> hd val = 44")
    case True
    then have "length v < length val" unfolding v using ne by (intro length_dropWhile_less)
    then show ?thesis using length_dropWhile_le [of "\<lambda>c. c \<noteq> 44" v] by simp
  next
    case False
    then have "v = val" unfolding v using ne by (cases val) auto
    with False ne show ?thesis by (auto intro: length_dropWhile_less)
  qed
  then show "((dropWhile (\<lambda>c. c \<noteq> 44) v, token), (val, token)) \<in> measure (\<lambda>(val, token). length val)" for token
    by simp
qed simp

declare httpHeaderHasToken.simps [simp del]

datatype HandshakeStatus_t = HS_OK | HS_NOT_UPGRADE | HS_BAD_VERSION | HS_BAD_REQUEST

record HandshakeResult_t =
  hsStatus :: HandshakeStatus_t
  hsPath :: "byte list"
  hsAcceptKey :: "byte list"

text \<open>
  \<open>path\<close> holds the bytes copied before the terminating NUL; \<open>acceptKey\<close> is empty unless computed.
\<close>

definition httpParseHandshake :: "byte list \<Rightarrow> HandshakeResult_t" where
  "httpParseHandshake buf =
     (let out = \<lparr>hsStatus = HS_BAD_REQUEST, hsPath = [], hsAcceptKey = []\<rparr> in
      if length buf < 5 \<or> take 4 buf \<noteq> bytes ''GET '' then out
      else let pathStart = drop 4 buf in
      if 32 \<notin> set pathStart then out
      else let path = takeWhile (\<lambda>c. c \<noteq> 32) pathStart in
      if length path = 0 \<or> 256 \<le> length path then out
      else let out = out\<lparr>hsPath := path\<rparr>;
               upgrade = httpFindHeader buf (bytes ''Upgrade'');
               connVal = httpFindHeader buf (bytes ''Connection'') in
      if upgrade = None \<or> \<not> httpHeaderHasToken (the upgrade) (bytes ''websocket'') \<or>
         connVal = None \<or> \<not> httpHeaderHasToken (the connVal) (bytes ''Upgrade'')
      then out\<lparr>hsStatus := HS_NOT_UPGRADE\<rparr>
      else if httpFindHeader buf (bytes ''Sec-WebSocket-Version'') \<noteq> Some (bytes ''13'')
      then out\<lparr>hsStatus := HS_BAD_VERSION\<rparr>
      else case Option.bind (httpFindHeader buf (bytes ''Sec-WebSocket-Key'')) wsComputeAccept of
          None \<Rightarrow> out\<lparr>hsStatus := HS_BAD_REQUEST\<rparr>
        | Some a \<Rightarrow> out\<lparr>hsStatus := HS_OK, hsAcceptKey := a\<rparr>)"

text \<open>
  \<open>snprintf\<close> into \<open>char hdr[256]\<close> cuts the text at 255 characters but returns its full length \<open>n\<close>, and
  \<open>bufAppend\<close> is given \<open>n\<close> bytes. For texts below 256 characters that is the text; the theorems below
  show that every response of the server is.
\<close>

definition hdr256 :: "byte list \<Rightarrow> byte list" where
  "hdr256 t = (if length t < 256 then t else take 255 t @ [0])"

definition upgradeText :: "byte list \<Rightarrow> byte list" where
  "upgradeText acceptKey =
     bytes ''HTTP/1.1 101 Switching Protocols'' @ CRLF @
     bytes ''Upgrade: websocket'' @ CRLF @
     bytes ''Connection: Upgrade'' @ CRLF @
     bytes ''Sec-WebSocket-Accept: '' @ cstr acceptKey @ CRLF @ CRLF"

definition httpBuildUpgradeResponse :: "Buf_t \<Rightarrow> byte list \<Rightarrow> 'a os_scheme \<Rightarrow> Buf_t \<times> 'a os_scheme" where
  "httpBuildUpgradeResponse tx acceptKey s = bufAppend tx (hdr256 (upgradeText acceptKey)) s"

definition errorText :: "nat \<Rightarrow> byte list \<Rightarrow> byte list option \<Rightarrow> byte list" where
  "errorText code reason extraHeader =
     bytes ''HTTP/1.1 '' @ dec code @ bytes '' '' @ reason @ CRLF @
     (case extraHeader of None \<Rightarrow> [] | Some e \<Rightarrow> e) @
     bytes ''Content-Length: 0'' @ CRLF @
     bytes ''Connection: close'' @ CRLF @ CRLF"

definition httpBuildError ::
  "Buf_t \<Rightarrow> nat \<Rightarrow> byte list \<Rightarrow> byte list option \<Rightarrow> 'a os_scheme \<Rightarrow> Buf_t \<times> 'a os_scheme" where
  "httpBuildError tx code reason extraHeader s = bufAppend tx (hdr256 (errorText code reason extraHeader)) s"

subsection \<open>Header blocks\<close>

text \<open>A value without the spaces around it, for the specifications below.\<close>

definition trim :: "byte list \<Rightarrow> byte list" where
  "trim v = rev (dropWhile (\<lambda>c. c = 32) (rev (dropWhile (\<lambda>c. c = 32) v)))"

lemma trim_eq: "trim v = trimRight (trimLeft v)"
  by (simp add: trim_def trimRight_def trimLeft_def)

definition field_line :: "byte list \<times> byte list \<Rightarrow> byte list" where
  "field_line f = fst f @ [58] @ snd f @ CRLF"

definition header_block :: "(byte list \<times> byte list) list \<Rightarrow> byte list" where
  "header_block fs = concat (map field_line fs) @ CRLF"

definition field_ok :: "byte list \<times> byte list \<Rightarrow> bool" where
  "field_ok f \<longleftrightarrow> fst f \<noteq> [] \<and> 13 \<notin> set (fst f) \<and> 58 \<notin> set (fst f) \<and> 13 \<notin> set (snd f)"

definition field_value :: "(byte list \<times> byte list) list \<Rightarrow> byte list \<Rightarrow> byte list option" where
  "field_value fs name = map_option (\<lambda>f. trim (snd f)) (find (\<lambda>f. caseEq (fst f) name) fs)"

lemma findCRLF_line: "13 \<notin> set l \<Longrightarrow> findCRLF (l @ CRLF @ r) = Some (length l)"
proof (induction l)
  case Nil
  then show ?case by (simp add: CRLF_def)
next
  case (Cons a l)
  then show ?case by (cases l) (simp_all add: CRLF_def)
qed

lemma caseEq_length: "caseEq a b \<Longrightarrow> length a = length b"
  unfolding caseEq_def by (rule map_eq_imp_length_eq)

lemma tolower8_colon: "tolower8 c = 58 \<longleftrightarrow> c = 58"
proof -
  have "unat (c + 32) = unat c + 32" if "unat c \<le> 90"
    using that by (simp add: unat_word_ariths)
  then show ?thesis by (auto simp: tolower8_def word_le_nat_alt word_unat_eq_iff)
qed

lemma caseEq_colon: "caseEq a b \<Longrightarrow> 58 \<in> set a \<longleftrightarrow> 58 \<in> set b"
proof -
  assume "caseEq a b"
  then have "58 \<in> tolower8 ` set a \<longleftrightarrow> 58 \<in> tolower8 ` set b"
    by (metis caseEq_def list.set_map)
  then show ?thesis by (auto simp: image_iff) (metis tolower8_colon)+
qed

text \<open>A line matches a name exactly when the part before its colon does.\<close>

lemma field_match:
  assumes "58 \<notin> set n" and "58 \<notin> set name"
  shows "(length name < length (n @ [58] @ v) \<and> (n @ [58] @ v @ r) ! length name = 58 \<and>
      caseEq (take (length name) (n @ [58] @ v @ r)) name) \<longleftrightarrow> caseEq n name"
proof
  assume "caseEq n name"
  then show "length name < length (n @ [58] @ v) \<and> (n @ [58] @ v @ r) ! length name = 58 \<and>
      caseEq (take (length name) (n @ [58] @ v @ r)) name"
    using caseEq_length [of n name] by (simp add: nth_append)
next
  assume m: "length name < length (n @ [58] @ v) \<and> (n @ [58] @ v @ r) ! length name = 58 \<and>
      caseEq (take (length name) (n @ [58] @ v @ r)) name"
  consider "length name < length n" | "length name = length n" | "length n < length name" by linarith
  then show "caseEq n name"
  proof cases
    case 1
    with m have "n ! length name = 58" by (simp add: nth_append)
    with 1 assms show ?thesis by (metis nth_mem)
  next
    case 2
    with m show ?thesis by simp
  next
    case 3
    then have "take (length name) (n @ [58] @ v @ r) = n @ 58 # take (length name - length n - 1) (v @ r)"
      by (simp add: take_Cons')
    then have "58 \<in> set (take (length name) (n @ [58] @ v @ r))" by simp
    with m assms show ?thesis using caseEq_colon by blast
  qed
qed

lemma findHeaderLoop_block:
  "list_all field_ok fs \<Longrightarrow> 58 \<notin> set name \<Longrightarrow> findHeaderLoop name (header_block fs) = field_value fs name"
proof (induction fs)
  case Nil
  then show ?case
    by (simp add: header_block_def CRLF_def field_value_def findHeaderLoop.simps)
next
  case (Cons f fs)
  obtain n v where f: "f = (n, v)" by (cases f)
  let ?l = "n @ [58] @ v" and ?r = "header_block fs"
  from Cons.prems f have ok: "13 \<notin> set ?l" "58 \<notin> set n" "n \<noteq> []" by (auto simp: field_ok_def)
  have block: "header_block (f # fs) = ?l @ CRLF @ ?r"
    by (simp add: header_block_def field_line_def f)
  have line: "findCRLF (?l @ CRLF @ ?r) = Some (length ?l)" by (rule findCRLF_line) (rule ok)
  note match = field_match [OF ok(2) Cons.prems(2), of v "CRLF @ ?r"]
  show ?case
  proof (cases "caseEq n name")
    case True
    then have len: "length n = length name" by (rule caseEq_length)
    have "findHeaderLoop name (?l @ CRLF @ ?r) =
        Some (trim (take (length ?l - length name - 1) (drop (length name + 1) (?l @ CRLF @ ?r))))"
      using match True line by (subst findHeaderLoop.simps) (simp add: trim_eq Let_def)
    also have "take (length ?l - length name - 1) (drop (length name + 1) (?l @ CRLF @ ?r)) = v"
      by (simp flip: len)
    finally show ?thesis using True by (simp only: block) (simp add: f field_value_def)
  next
    case False
    have "findHeaderLoop name (?l @ CRLF @ ?r) = findHeaderLoop name (drop (length ?l + 2) (?l @ CRLF @ ?r))"
      using match False line by (subst findHeaderLoop.simps) auto
    also have "drop (length ?l + 2) (?l @ CRLF @ ?r) = ?r" by (simp add: CRLF_def numeral_3_eq_3)
    finally show ?thesis using False Cons by (simp only: block) (simp add: f field_value_def)
  qed
qed

lemma httpFindHeader_block:
  assumes "13 \<notin> set l" and "list_all field_ok fs" and "58 \<notin> set name"
  shows "httpFindHeader (l @ CRLF @ header_block fs) name = field_value fs name"
proof -
  have "drop (length l + 2) (l @ CRLF @ header_block fs) = header_block fs" by (simp add: CRLF_def)
  with assms show ?thesis
    by (simp add: httpFindHeader_def findCRLF_line findHeaderLoop_block)
qed

subsection \<open>Where the headers end\<close>

lemma httpFindHeaderEnd_skip:
  "13 \<notin> set l \<Longrightarrow> httpFindHeaderEnd (l @ x) = map_option ((+) (length l)) (httpFindHeaderEnd x)"
proof (induction l)
  case Nil
  then show ?case by (cases "httpFindHeaderEnd x") simp_all
next
  case (Cons a l)
  have "httpFindHeaderEnd (a # ys) = map_option Suc (httpFindHeaderEnd ys)" for ys
    using Cons.prems by (cases ys rule: httpFindHeaderEnd.cases) auto
  with Cons show ?case by (simp add: option.map_comp comp_def)
qed

lemma httpFindHeaderEnd_line:
  "c \<noteq> 13 \<Longrightarrow> httpFindHeaderEnd (CRLF @ c # x) = map_option ((+) 2) (httpFindHeaderEnd (c # x))"
  by (cases x rule: httpFindHeaderEnd.cases)
    (auto simp: CRLF_def option.map_comp comp_def)

lemma httpFindHeaderEnd_block:
  assumes "13 \<notin> set l" and "list_all field_ok fs"
  shows "httpFindHeaderEnd (l @ CRLF @ header_block fs @ r) = Some (length (l @ CRLF @ header_block fs) - 4)"
  using assms
proof (induction fs arbitrary: l)
  case Nil
  then show ?case by (simp add: httpFindHeaderEnd_skip header_block_def CRLF_def)
next
  case (Cons f fs)
  obtain n v where f: "f = (n, v)" by (cases f)
  let ?l = "n @ [58] @ v"
  from Cons.prems f have okf: "field_ok (n, v)" and ok: "13 \<notin> set l" "list_all field_ok fs" by simp_all
  from okf have ok': "13 \<notin> set ?l" "n \<noteq> []" by (auto simp: field_ok_def)
  have block: "header_block (f # fs) = ?l @ CRLF @ header_block fs"
    by (simp add: header_block_def field_line_def f)
  obtain c x where c: "?l @ CRLF @ header_block fs @ r = c # x" "c \<noteq> 13"
    using ok' by (cases n) auto
  have "httpFindHeaderEnd (?l @ CRLF @ header_block fs @ r) = Some (length (?l @ CRLF @ header_block fs) - 4)"
    using ok ok' by (intro Cons.IH)
  moreover have "httpFindHeaderEnd (l @ CRLF @ c # x) =
      map_option ((+) (length l)) (map_option ((+) 2) (httpFindHeaderEnd (c # x)))"
    using ok c by (simp add: httpFindHeaderEnd_skip httpFindHeaderEnd_line)
  moreover have "4 \<le> length (CRLF @ header_block fs)" by (simp add: header_block_def CRLF_def)
  ultimately show ?case by (simp add: block CRLF_def flip: c(1))
qed

subsection \<open>Comma-separated lists\<close>

fun split_on :: "byte \<Rightarrow> byte list \<Rightarrow> byte list list" where
  "split_on c [] = [[]]"
| "split_on c (x # xs) =
     (if x = c then [] # split_on c xs else (x # hd (split_on c xs)) # tl (split_on c xs))"

definition has_token :: "byte list \<Rightarrow> byte list \<Rightarrow> bool" where
  "has_token val token \<longleftrightarrow> list_ex (\<lambda>t. caseEq (trim t) token) (split_on 44 val)"

lemma split_on_not_Nil [simp]: "split_on c xs \<noteq> []"
  by (cases xs) auto

lemma split_on_takeWhile:
  "split_on c xs = takeWhile (\<lambda>x. x \<noteq> c) xs #
     (case dropWhile (\<lambda>x. x \<noteq> c) xs of [] \<Rightarrow> [] | _ # r \<Rightarrow> split_on c r)"
  by (induction xs) auto

lemma trim_space [simp]: "trim (32 # v) = trim v"
  by (simp add: trim_eq trimLeft_def)

lemma trim_Nil [simp]: "trim [] = []"
  by (simp add: trim_eq trimLeft_def trimRight_def)

lemma caseEq_Nil [simp]: "caseEq [] t \<longleftrightarrow> t = []" "caseEq t [] \<longleftrightarrow> t = []"
  by (auto simp: caseEq_def)

lemma has_token_skip:
  "token \<noteq> [] \<Longrightarrow> has_token (dropWhile (\<lambda>c. c = 32 \<or> c = 44) val) token = has_token val token"
proof (induction val)
  case Nil
  then show ?case by simp
next
  case (Cons c val)
  have "has_token (c # val) token = has_token val token" if "c = 32 \<or> c = 44"
    using that Cons.prems split_on_takeWhile [of 44 val] by (auto simp: has_token_def)
  with Cons show ?case by auto
qed

lemma httpHeaderHasToken_eq: "token \<noteq> [] \<Longrightarrow> httpHeaderHasToken val token = has_token val token"
proof (induction val token rule: httpHeaderHasToken.induct)
  case (1 val token)
  show ?case
  proof (cases "val = []")
    case True
    with 1(2) show ?thesis by (simp add: httpHeaderHasToken.simps has_token_def)
  next
    case False
    let ?v = "dropWhile (\<lambda>c. c = 32 \<or> c = 44) val"
    let ?t = "trimRight (takeWhile (\<lambda>c. c \<noteq> 44) ?v)"
    have "trimLeft (takeWhile (\<lambda>c. c \<noteq> 44) ?v) = takeWhile (\<lambda>c. c \<noteq> 44) ?v"
    proof (cases ?v)
      case (Cons c r)
      then have "\<not> (c = 32 \<or> c = 44)"
        using hd_dropWhile [of "\<lambda>c. c = 32 \<or> c = 44" val] by simp
      with Cons show ?thesis by (simp add: trimLeft_def)
    next
      case Nil
      show ?thesis unfolding Nil by (simp add: trimLeft_def)
    qed
    then have t: "trim (takeWhile (\<lambda>c. c \<noteq> 44) ?v) = ?t" by (simp add: trim_eq)
    have guard: "?t \<noteq> [] \<and> length ?t = length token \<and> caseEq ?t token \<longleftrightarrow> caseEq ?t token"
      using caseEq_length [of ?t token] 1(2) by auto
    have drop: "has_token (dropWhile (\<lambda>c. c \<noteq> 44) ?v) token \<longleftrightarrow>
        list_ex (\<lambda>t. caseEq (trim t) token)
          (case dropWhile (\<lambda>c. c \<noteq> 44) ?v of [] \<Rightarrow> [] | _ # r \<Rightarrow> split_on 44 r)"
    proof (cases "dropWhile (\<lambda>c. c \<noteq> 44) ?v")
      case Nil
      show ?thesis unfolding Nil using 1(2) by (simp add: has_token_def)
    next
      case (Cons c r)
      then have "c = 44" using hd_dropWhile [of "\<lambda>c. c \<noteq> 44" ?v] by (metis list.distinct(1) list.sel(1))
      then show ?thesis unfolding Cons using 1(2) by (simp add: has_token_def)
    qed
    have "has_token val token = has_token ?v token" using has_token_skip 1(2) by simp
    also have "\<dots> \<longleftrightarrow> caseEq ?t token \<or> has_token (dropWhile (\<lambda>c. c \<noteq> 44) ?v) token"
      unfolding has_token_def [of ?v] split_on_takeWhile [of 44 ?v] drop by (simp add: t)
    finally have spec: "has_token val token \<longleftrightarrow>
      caseEq ?t token \<or> has_token (dropWhile (\<lambda>c. c \<noteq> 44) ?v) token" .
    have IH: "\<not> caseEq ?t token \<Longrightarrow>
        httpHeaderHasToken (dropWhile (\<lambda>c. c \<noteq> 44) ?v) token = has_token (dropWhile (\<lambda>c. c \<noteq> 44) ?v) token"
      using 1(1) [OF False refl refl] guard 1(2) by simp
    have "httpHeaderHasToken val token \<longleftrightarrow>
        (if caseEq ?t token then True else httpHeaderHasToken (dropWhile (\<lambda>c. c \<noteq> 44) ?v) token)"
      using False guard by (subst httpHeaderHasToken.simps) (simp add: Let_def)
    with spec IH show ?thesis by (cases "caseEq ?t token") simp_all
  qed
qed

subsection \<open>The request and the responses as header blocks\<close>

definition handshake_request :: "byte list \<Rightarrow> (byte list \<times> byte list) list \<Rightarrow> byte list" where
  "handshake_request path fs = bytes ''GET '' @ path @ bytes '' HTTP/1.1'' @ CRLF @ header_block fs"

definition path_ok :: "byte list \<Rightarrow> bool" where
  "path_ok path \<longleftrightarrow> path \<noteq> [] \<and> length path < 256 \<and> 32 \<notin> set path \<and> 13 \<notin> set path"

definition field_has :: "(byte list \<times> byte list) list \<Rightarrow> byte list \<Rightarrow> byte list \<Rightarrow> bool" where
  "field_has fs name token = (case field_value fs name of None \<Rightarrow> False | Some v \<Rightarrow> has_token v token)"

text \<open>
  What a server owes such a request, with the accept key stated by RFC 6455's \<open>rfc_key\<close> and \<open>rfc_accept\<close>.
  The target ends at the first space; this server has room for 255 bytes of it.
\<close>

definition handshake_spec :: "byte list \<Rightarrow> (byte list \<times> byte list) list \<Rightarrow> HandshakeResult_t" where
  "handshake_spec path fs =
     (let target = takeWhile (\<lambda>c. c \<noteq> 32) path;
          st = (\<lambda>st a. \<lparr>hsStatus = st, hsPath = target, hsAcceptKey = a\<rparr>) in
      if target = [] \<or> 256 \<le> length target then \<lparr>hsStatus = HS_BAD_REQUEST, hsPath = [], hsAcceptKey = []\<rparr>
      else if \<not> field_has fs (bytes ''Upgrade'') (bytes ''websocket'') \<or>
         \<not> field_has fs (bytes ''Connection'') (bytes ''Upgrade'') then st HS_NOT_UPGRADE []
      else if field_value fs (bytes ''Sec-WebSocket-Version'') \<noteq> Some (bytes ''13'') then st HS_BAD_VERSION []
      else case field_value fs (bytes ''Sec-WebSocket-Key'') of
          None \<Rightarrow> st HS_BAD_REQUEST []
        | Some key \<Rightarrow> if rfc_key key then st HS_OK (rfc_accept key) else st HS_BAD_REQUEST [])"

lemma bytes_nonempty [simp]: "bytes s = [] \<longleftrightarrow> s = []"
  by (simp add: bytes_def)

lemma header_names:
  "58 \<notin> set (bytes ''Upgrade'')" "58 \<notin> set (bytes ''Connection'')"
  "58 \<notin> set (bytes ''Sec-WebSocket-Version'')" "58 \<notin> set (bytes ''Sec-WebSocket-Key'')"
  "58 \<notin> set (bytes ''Sec-WebSocket-Accept'')" "13 \<notin> set (bytes ''GET '')" "13 \<notin> set (bytes '' HTTP/1.1'')"
  by (simp_all add: bytes_def)

lemma handshake_request_line:
  "13 \<notin> set path \<Longrightarrow> \<exists>l. 13 \<notin> set l \<and> handshake_request path fs = l @ CRLF @ header_block fs"
  using header_names
  by (intro exI [of _ "bytes ''GET '' @ path @ bytes '' HTTP/1.1''"]) (auto simp: handshake_request_def)

lemma httpFindHeader_request:
  assumes "13 \<notin> set path" and "list_all field_ok fs" and "58 \<notin> set name"
  shows "httpFindHeader (handshake_request path fs) name = field_value fs name"
  using handshake_request_line [OF assms(1), of fs] httpFindHeader_block [OF _ assms(2, 3)] by auto

lemma httpParseHandshake_request:
  assumes "13 \<notin> set path" and "list_all field_ok fs"
  shows "httpParseHandshake (handshake_request path fs) = handshake_spec path fs"
proof -
  let ?r = "handshake_request path fs" and ?t = "takeWhile (\<lambda>c. c \<noteq> 32) path"
  have "take 4 ?r = bytes ''GET ''" and rest: "drop 4 ?r = path @ 32 # drop 1 (bytes '' HTTP/1.1'') @ CRLF @ header_block fs"
    by (simp_all add: handshake_request_def bytes_def)
  moreover have "\<not> length ?r < 5" by (simp add: handshake_request_def CRLF_def)
  moreover have "takeWhile (\<lambda>c. c \<noteq> 32) (drop 4 ?r) = ?t"
    unfolding rest by (simp add: takeWhile_append takeWhile_eq_all_conv [THEN iffD2])
  moreover have "32 \<in> set (drop 4 ?r)" unfolding rest by simp
  ultimately show ?thesis
    using httpFindHeader_request [OF assms] header_names
    by (auto simp: httpParseHandshake_def handshake_spec_def field_has_def httpHeaderHasToken_eq
        wsComputeAccept_rfc Let_def split: option.splits)
qed

text \<open>For a target that fits, the path is the target, and the specification is decided by the fields.\<close>

lemma path_okD: "path_ok path \<Longrightarrow> 13 \<notin> set path \<and> takeWhile (\<lambda>c. c \<noteq> 32) path = path \<and> path \<noteq> [] \<and> length path < 256"
  by (auto simp: path_ok_def)

lemma handshake_spec_accepts:
  assumes "path_ok path" and "field_has fs (bytes ''Upgrade'') (bytes ''websocket'')"
    and "field_has fs (bytes ''Connection'') (bytes ''Upgrade'')"
    and "field_value fs (bytes ''Sec-WebSocket-Version'') = Some (bytes ''13'')"
    and "field_value fs (bytes ''Sec-WebSocket-Key'') = Some key" and "wsComputeAccept key = Some a"
  shows "handshake_spec path fs = \<lparr>hsStatus = HS_OK, hsPath = path, hsAcceptKey = a\<rparr>"
proof -
  have "takeWhile (\<lambda>c. c \<noteq> 32) path = path" "path \<noteq> []" "\<not> 256 \<le> length path"
    using path_okD [OF assms(1)] by simp_all
  with assms(2-6) show ?thesis
    by (simp add: handshake_spec_def wsComputeAccept_rfc Let_def takeWhile_eq_all_conv [THEN iffD2] split: if_splits)
qed

subsection \<open>Properties\<close>

text \<open>C38: \<open>httpHeaderHasToken\<close>, which scans the value in place, decides membership in the comma-separated
  list: it answers yes exactly when one of the parts between commas, with the spaces around it
  removed, equals the (non-empty) token up to case.\<close>

theorem httpHeaderHasToken_list:
  assumes "token \<noteq> []"
  shows "httpHeaderHasToken val token = list_ex (\<lambda>t. caseEq (trim t) token) (split_on 44 val)"
  using httpHeaderHasToken_eq [OF assms] by (simp add: has_token_def)

theorem httpHeaderHasToken_list_witness:
  "httpHeaderHasToken (bytes ''keep-alive, Upgrade'') (bytes ''upgrade'') =
     list_ex (\<lambda>t. caseEq (trim t) (bytes ''upgrade'')) (split_on 44 (bytes ''keep-alive, Upgrade''))"
  by (rule httpHeaderHasToken_list) (simp add: bytes_def)

text \<open>C25: What the server makes of a GET request, for every request target (any bytes without a carriage
  return) and every list of header fields: the end of the headers is found exactly behind them, whatever
  bytes follow (pipelined frames), and the handshake parser returns the status the fields call for. A
  target (the bytes up to the first space) that is empty or of 256 bytes and more is a bad request. For
  the others the path is the target; the fields have case-insensitive names, the first field of a name
  counts, values lose the spaces around them; Upgrade and Connection are token lists, the version is 13,
  and the key must be 16 bytes in base64 (\<open>rfc_key\<close>), in which case the accept value is RFC 6455's
  (\<open>rfc_accept\<close>).\<close>

theorem httpParseHandshake_correct:
  assumes "13 \<notin> set path" and "list_all field_ok fs"
  shows "httpFindHeaderEnd (handshake_request path fs @ rest) = Some (length (handshake_request path fs) - 4) \<and>
    httpParseHandshake (take (length (handshake_request path fs) - 4 + 4) (handshake_request path fs @ rest)) =
      handshake_spec path fs"
proof
  show "httpFindHeaderEnd (handshake_request path fs @ rest) = Some (length (handshake_request path fs) - 4)"
    using handshake_request_line [OF assms(1), of fs] httpFindHeaderEnd_block [OF _ assms(2)] by auto
  have "length (handshake_request path fs) - 4 + 4 = length (handshake_request path fs)"
    by (simp add: handshake_request_def)
  then show "httpParseHandshake (take (length (handshake_request path fs) - 4 + 4)
      (handshake_request path fs @ rest)) = handshake_spec path fs"
    using httpParseHandshake_request [OF assms] by simp
qed

text \<open>A complete handshake with the key of RFC 6455, section 1.3.\<close>

definition sampleFields :: "(byte list \<times> byte list) list" where
  "sampleFields = [(bytes ''upgrade'', bytes '' WebSocket''), (bytes ''Connection'', bytes '' keep-alive, Upgrade''),
     (bytes ''Sec-WebSocket-Version'', bytes '' 13''), (bytes ''Sec-WebSocket-Key'', bytes '' dGhlIHNhbXBsZSBub25jZQ=='')]"

theorem httpParseHandshake_correct_witness:
  "httpFindHeaderEnd (handshake_request (bytes ''/chat'') sampleFields @ [0x81]) =
     Some (length (handshake_request (bytes ''/chat'') sampleFields) - 4) \<and>
   httpParseHandshake (take (length (handshake_request (bytes ''/chat'') sampleFields) - 4 + 4)
     (handshake_request (bytes ''/chat'') sampleFields @ [0x81])) = handshake_spec (bytes ''/chat'') sampleFields"
  by (rule httpParseHandshake_correct) (simp_all add: sampleFields_def field_ok_def bytes_def)

end
