(* ===== verification/Pointers.thy ===== *)
theory Pointers
  imports Prelude
begin

section \<open>Singly linked lists in a store\<close>

text \<open>
  The code links queue nodes, parked connections and upstream messages through \<open>next\<close> fields. A
  field is a function from addresses to pointers, \<open>NULL\<close> is \<open>None\<close>. \<open>lpath nx p as\<close> says that the list
  starting at \<open>p\<close> visits exactly the addresses \<open>as\<close> and ends; \<open>walk\<close> collects at most \<open>k\<close> of them.
\<close>

fun lpath :: "('p \<Rightarrow> 'p option) \<Rightarrow> 'p option \<Rightarrow> 'p list \<Rightarrow> bool" where
  "lpath nx p [] \<longleftrightarrow> p = None"
| "lpath nx p (a # as) \<longleftrightarrow> p = Some a \<and> lpath nx (nx a) as"

fun walk :: "('p \<Rightarrow> 'p option) \<Rightarrow> 'p option \<Rightarrow> nat \<Rightarrow> 'p list" where
  "walk nx p 0 = []"
| "walk nx p (Suc k) = (case p of None \<Rightarrow> [] | Some a \<Rightarrow> a # walk nx (nx a) k)"

text \<open>The tail pointer that goes with a list.\<close>

definition last_of :: "'p list \<Rightarrow> 'p option" where
  "last_of as = (if as = [] then None else Some (last as))"

lemma lpath_None [simp]: "lpath nx None as \<longleftrightarrow> as = []"
  by (cases as) auto

lemma last_of_simps [simp]: "last_of [] = None" "last_of (as @ [a]) = Some a"
  "last_of [a] = Some a" "last_of (a # b # as) = last_of (b # as)"
  by (auto simp: last_of_def)

lemma last_of_None [simp]: "last_of as = None \<longleftrightarrow> as = []"
  by (simp add: last_of_def)

lemma lpath_unique: "lpath nx p as \<Longrightarrow> lpath nx p bs \<Longrightarrow> as = bs"
proof (induction as arbitrary: p bs)
  case Nil
  then show ?case by simp
next
  case (Cons a as)
  then show ?case by (cases bs) auto
qed

lemma lpath_append:
  "lpath nx p (as @ b # bs) \<Longrightarrow> lpath nx (Some b) (b # bs)"
  by (induction as arbitrary: p) auto

lemma lpath_distinct: "lpath nx p as \<Longrightarrow> distinct as"
proof (induction as arbitrary: p)
  case Nil
  then show ?case by simp
next
  case (Cons a as)
  have "a \<notin> set as"
  proof
    assume "a \<in> set as"
    then obtain xs ys where split: "as = xs @ a # ys" by (auto simp: in_set_conv_decomp)
    with Cons.prems have "lpath nx (nx a) ys" using lpath_append [of nx "nx a" xs a ys] by simp
    with Cons.prems have "as = ys" by (auto intro: lpath_unique)
    then have "length as = length ys" by simp
    with split show False by simp
  qed
  with Cons show ?case by auto
qed

lemma lpath_upd [simp]: "a \<notin> set as \<Longrightarrow> lpath (nx(a := v)) p as \<longleftrightarrow> lpath nx p as"
  by (induction as arbitrary: p) auto

lemma lpath_cong: "(\<And>a. a \<in> set as \<Longrightarrow> nx a = nx' a) \<Longrightarrow> lpath nx p as \<longleftrightarrow> lpath nx' p as"
  by (induction as arbitrary: p) auto

text \<open>Appending a node behind the last one, as every \<open>tail->next = n\<close> in the code does.\<close>

lemma lpath_snoc:
  assumes "lpath nx p (as @ [l])" and "a \<notin> set (as @ [l])"
  shows "lpath (nx(a := None, l := Some a)) p (as @ [l, a])"
  using assms
proof (induction as arbitrary: p)
  case Nil
  then show ?case by auto
next
  case (Cons b as)
  moreover have "b \<noteq> l" using lpath_distinct [OF Cons.prems(1)] by auto
  ultimately show ?case by auto
qed

lemma walk_lpath: "lpath nx p as \<Longrightarrow> walk nx p (length as) = as"
  by (induction as arbitrary: p) auto

lemma walk_long: "lpath nx p as \<Longrightarrow> length as \<le> k \<Longrightarrow> walk nx p k = as"
proof (induction as arbitrary: p k)
  case Nil
  then show ?case by (cases k) simp_all
next
  case (Cons a as)
  then show ?case by (cases k) auto
qed

lemma lpath_head: "lpath nx p as \<Longrightarrow> p = (case as of [] \<Rightarrow> None | a # _ \<Rightarrow> Some a)"
  by (cases as) auto

subsection \<open>Doubly linked lists\<close>

text \<open>\<open>prevs pv b as\<close>: the back pointers of the nodes \<open>as\<close>, when the first one's is \<open>b\<close>.\<close>

fun prevs :: "('p \<Rightarrow> 'p option) \<Rightarrow> 'p option \<Rightarrow> 'p list \<Rightarrow> bool" where
  "prevs pv b [] \<longleftrightarrow> True"
| "prevs pv b (a # as) \<longleftrightarrow> pv a = b \<and> prevs pv (Some a) as"

lemma prevs_upd [simp]: "a \<notin> set as \<Longrightarrow> prevs (pv(a := v)) b as \<longleftrightarrow> prevs pv b as"
  by (induction as arbitrary: b) auto

lemma prevs_cong: "(\<And>a. a \<in> set as \<Longrightarrow> pv a = pv' a) \<Longrightarrow> prevs pv b as \<longleftrightarrow> prevs pv' b as"
  by (induction as arbitrary: b) auto

lemma prevs_append: "prevs pv b (as @ bs) \<longleftrightarrow> prevs pv b as \<and> prevs pv (if as = [] then b else last_of as) bs"
proof (induction as arbitrary: b)
  case Nil
  then show ?case by simp
next
  case (Cons a as)
  then show ?case by (cases as) (auto simp: last_of_def)
qed

text \<open>Unlinking a node: what its neighbours' pointers become.\<close>

lemma lpath_unlink:
  assumes "lpath nx p (xs @ x # c # ys)"
  shows "lpath (nx(x := nx c)) p (xs @ x # ys)"
  using assms
proof (induction xs arbitrary: p)
  case Nil
  then have "x \<notin> set ys" using lpath_distinct by fastforce
  then have "lpath (nx(x := nx c)) (nx c) ys \<longleftrightarrow> lpath nx (nx c) ys" by (rule lpath_upd)
  with Nil show ?case by (simp only: append.simps lpath.simps fun_upd_same)
next
  case (Cons z xs)
  have "z \<noteq> x" using lpath_distinct [OF Cons.prems] by simp
  with Cons show ?case by simp
qed

lemma prevs_unlink:
  assumes "prevs pv b (xs @ c # y # ys)" and "distinct (xs @ c # y # ys)"
  shows "prevs (pv(y := pv c)) b (xs @ y # ys)"
  using assms by (auto simp: prevs_append)

end
