(* ===== verification/Conn.thy ===== *)
theory Conn
  imports Buffer Utf8 Pointers
begin

section \<open>Connections and their registry (src/inc/conn.h, src/src/conn.c)\<close>

text \<open>
  A connection is a record in a store (\<open>conns\<close>) and is handed from thread to thread by its address, a
  natural number. All live connections are chained into the global registry through \<open>regPrev\<close> and
  \<open>regNext\<close>; \<open>parkNext\<close> chains the parked ones. The epoll tag (\<open>tag\<close>, which always says \<open>EV_CONN\<close> and
  points back to the connection) has no field of its own: an event carries the address.
\<close>

datatype Role_t = ROLE_UNDECIDED | ROLE_SOURCE | ROLE_SINK

datatype ConnState_t = ST_HANDSHAKE_READ | ST_HANDSHAKE_SEND | ST_WS_OPEN

datatype MsgKind_t = MSG_DATA | MSG_SRC_DOWN | MSG_SINK_ADD

text \<open>A message to the aggregator (agg.h); \<open>len\<close> is the length of \<open>mdata\<close>.\<close>

record Msg_t =
  mkind :: MsgKind_t
  srcId :: u64
  mopcode :: byte
  mts :: timespec
  mconn :: "nat option"
  mdata :: "byte list"

record Conn_t =
  cfd :: int
  cepollfd :: int
  cid :: u64
  clientip :: "byte list"
  role :: Role_t
  cstate :: ConnState_t
  closeAfterSend :: bool
  lastEvents :: "ep_flag list"
  rx :: Buf_t
  tx :: Buf_t
  msg :: Buf_t
  msgOpcode :: byte
  fragmenting :: bool
  msgUtf8 :: Utf8St_t
  cseq :: u64
  pendingMsg :: "Msg_t option"
  parkNext :: "nat option"
  regPrev :: "nat option"
  regNext :: "nat option"

record conn_world = os +
  conns :: "nat \<rightharpoonup> Conn_t"
  regHead :: "nat option"
  nextId :: u64

text \<open>Access through a pointer: the store update of \<open>c->field = \<dots>\<close>, and the link fields as functions.\<close>

definition upd_conn :: "nat \<Rightarrow> (Conn_t \<Rightarrow> Conn_t) \<Rightarrow> 'a conn_world_scheme \<Rightarrow> 'a conn_world_scheme" where
  "upd_conn c f w = w\<lparr>conns := (conns w)(c := map_option f (conns w c))\<rparr>"

definition link :: "(Conn_t \<Rightarrow> nat option) \<Rightarrow> 'a conn_world_scheme \<Rightarrow> nat \<Rightarrow> nat option" where
  "link field w a = Option.bind (conns w a) field"

definition registryInit :: "'a conn_world_scheme \<Rightarrow> 'a conn_world_scheme" where
  "registryInit w = w\<lparr>regHead := None, nextId := 1\<rparr>"

definition registryAdd :: "nat \<Rightarrow> 'a conn_world_scheme \<Rightarrow> 'a conn_world_scheme" where
  "registryAdd c w =
     (let h = regHead w;
          w1 = upd_conn c (\<lambda>x. x\<lparr>regPrev := None, regNext := h\<rparr>) w;
          w2 = (case h of Some p \<Rightarrow> upd_conn p (\<lambda>x. x\<lparr>regPrev := Some c\<rparr>) w1 | None \<Rightarrow> w1)
      in w2\<lparr>regHead := Some c\<rparr>)"

definition registryRemove :: "nat \<Rightarrow> 'a conn_world_scheme \<Rightarrow> 'a conn_world_scheme" where
  "registryRemove c w =
     (let prv = link regPrev w c; nxt = link regNext w c;
          w1 = (case prv of Some p \<Rightarrow> upd_conn p (\<lambda>x. x\<lparr>regNext := nxt\<rparr>) w | None \<Rightarrow> w\<lparr>regHead := nxt\<rparr>)
      in case nxt of Some n \<Rightarrow> upd_conn n (\<lambda>x. x\<lparr>regPrev := prv\<rparr>) w1 | None \<Rightarrow> w1)"

text \<open>Freeing a connection frees its buffers and a pending message with it.\<close>

definition connFreeResources :: "nat \<Rightarrow> 'a conn_world_scheme \<Rightarrow> 'a conn_world_scheme" where
  "connFreeResources c w = w\<lparr>conns := (conns w)(c := None)\<rparr>"

text \<open>\<open>calloc\<close>'s answer is the first argument.\<close>

definition conn_zero :: Conn_t where
  "conn_zero = \<lparr>cfd = 0, cepollfd = 0, cid = 0, clientip = [], role = ROLE_UNDECIDED,
     cstate = ST_HANDSHAKE_READ, closeAfterSend = False, lastEvents = [], rx = buf_empty, tx = buf_empty,
     msg = buf_empty, msgOpcode = 0, fragmenting = False, msgUtf8 = wsUtf8Reset, cseq = 0,
     pendingMsg = None, parkNext = None, regPrev = None, regNext = None\<rparr>"

definition connNew :: "nat option \<Rightarrow> int \<Rightarrow> int \<Rightarrow> 'a conn_world_scheme \<Rightarrow> nat option \<times> 'a conn_world_scheme" where
  "connNew mem fd epollfd w = (case mem of None \<Rightarrow> (None, w)
     | Some c \<Rightarrow>
         let x = conn_zero\<lparr>cfd := fd, cepollfd := epollfd, cid := nextId w, role := ROLE_UNDECIDED,
                           cstate := ST_HANDSHAKE_READ\<rparr>;
             w1 = w\<lparr>conns := (conns w)(c \<mapsto> x), nextId := nextId w + 1\<rparr>
         in (Some c, registryAdd c w1))"

definition connDestroy :: "nat \<Rightarrow> 'a conn_world_scheme \<Rightarrow> 'a conn_world_scheme" where
  "connDestroy c w = connFreeResources c (registryRemove c w)"

definition connClose :: "nat \<Rightarrow> 'a conn_world_scheme \<Rightarrow> 'a conn_world_scheme" where
  "connClose c w = (case conns w c of None \<Rightarrow> w
     | Some x \<Rightarrow>
         let w1 = (if 0 \<le> cepollfd x then snd (os_epoll_ctl (cepollfd x) EPOLL_CTL_DEL (cfd x) [] w) else w)
         in connDestroy c (os_close (cfd x) w1))"

partial_function (option) destroyLoop ::
  "nat option \<Rightarrow> 'a conn_world_scheme \<Rightarrow> 'a conn_world_scheme option" where
  "destroyLoop c w = (case c of None \<Rightarrow> Some w
     | Some a \<Rightarrow> (case conns w a of None \<Rightarrow> None
         | Some x \<Rightarrow> destroyLoop (regNext x) (connFreeResources a (os_close (cfd x) w))))"

definition registryDestroyAll :: "'a conn_world_scheme \<Rightarrow> 'a conn_world_scheme option" where
  "registryDestroyAll w = destroyLoop (regHead w) (w\<lparr>regHead := None\<rparr>)"

subsection \<open>The registry invariant\<close>

text \<open>The registered connections are all the connections, each once, linked in both directions.\<close>

definition regShape :: "'a conn_world_scheme \<Rightarrow> nat list \<Rightarrow> bool" where
  "regShape w as \<longleftrightarrow> lpath (link regNext w) (regHead w) as \<and> prevs (link regPrev w) None as \<and>
     set as = dom (conns w)"

definition regInv :: "'a conn_world_scheme \<Rightarrow> bool" where
  "regInv w \<longleftrightarrow> (\<exists>as. regShape w as)"

lemma upd_conn_simps [simp]:
  "regHead (upd_conn c f w) = regHead w" "nextId (upd_conn c f w) = nextId w"
  "conn_world.more (upd_conn c f w) = conn_world.more w" "dom (conns (upd_conn c f w)) = dom (conns w)"
  by (auto simp: upd_conn_def)

lemma link_upd_other: "(\<And>x. field (f x) = field x) \<Longrightarrow> link field (upd_conn c f w) = link field w"
  by (rule ext) (cases "conns w c"; simp add: link_def upd_conn_def)

lemma link_upd_const:
  "c \<in> dom (conns w) \<Longrightarrow> (\<And>x. field (f x) = v) \<Longrightarrow> link field (upd_conn c f w) = (link field w)(c := v)"
  by (rule ext) (auto simp: link_def upd_conn_def)

lemma link_more [simp]:
  "link field (w\<lparr>regHead := h\<rparr>) = link field w" "link field (w\<lparr>nextId := i\<rparr>) = link field w"
  by (simp_all add: link_def fun_eq_iff)

lemma link_conns: "link field (w\<lparr>conns := m\<rparr>) a = Option.bind (m a) field"
  by (simp add: link_def)

lemma regShape_registryAdd:
  assumes "lpath (link regNext w) (regHead w) as" and "prevs (link regPrev w) None as"
    and "c \<notin> set as" and "dom (conns w) = insert c (set as)"
  shows "regShape (registryAdd c w) (c # as)"
proof (cases as)
  case Nil
  with assms show ?thesis
    by (simp add: registryAdd_def Let_def regShape_def link_upd_const)
next
  case (Cons p ps)
  with assms(1) have h: "regHead w = Some p" by simp
  let ?w1 = "upd_conn c (\<lambda>x. x\<lparr>regPrev := None, regNext := Some p\<rparr>) w"
  let ?w2 = "upd_conn p (\<lambda>x. x\<lparr>regPrev := Some c\<rparr>) ?w1"
  have w: "registryAdd c w = ?w2\<lparr>regHead := Some c\<rparr>" using h by (simp add: registryAdd_def Let_def)
  have c: "c \<in> dom (conns w)" "p \<in> dom (conns ?w1)" "p \<noteq> c" using assms Cons by auto
  have nx: "link regNext ?w2 = (link regNext w)(c := Some p)"
    using c by (simp add: link_upd_other link_upd_const)
  have pv: "link regPrev ?w2 = (link regPrev w)(c := None, p := Some c)"
    using c by (simp add: link_upd_const)
  have "lpath ((link regNext w)(c := Some p)) (Some p) as" using assms(1,3) h by simp
  then have "lpath (link regNext ?w2) (Some c) (c # as)" unfolding nx by simp
  moreover have "p \<notin> set ps" using lpath_distinct [OF assms(1)] Cons by simp
  then have "prevs (link regPrev ?w2) None (c # as)"
    using assms(2,3) Cons c unfolding pv by simp
  ultimately show ?thesis using assms(4) by (simp add: w regShape_def)
qed

lemma regInv_connNew:
  assumes "regInv w" and "\<And>c. mem = Some c \<Longrightarrow> c \<notin> dom (conns w)"
  shows "regInv (snd (connNew mem fd epollfd w))"
proof (cases mem)
  case None
  with assms show ?thesis by (simp add: connNew_def)
next
  case (Some c)
  from assms(1) obtain as where sh: "regShape w as" by (auto simp: regInv_def)
  define w1 where "w1 = w\<lparr>conns := (conns w)(c \<mapsto> conn_zero\<lparr>cfd := fd, cepollfd := epollfd,
      cid := nextId w, role := ROLE_UNDECIDED, cstate := ST_HANDSHAKE_READ\<rparr>), nextId := nextId w + 1\<rparr>"
  have c: "c \<notin> set as" using sh assms(2) [OF Some] by (simp add: regShape_def)
  have nx: "lpath (link regNext w1) p as = lpath (link regNext w) p as"
    and pv: "prevs (link regPrev w1) b as = prevs (link regPrev w) b as" for p b
    using c by (auto intro!: lpath_cong prevs_cong simp: w1_def link_def)
  have "regShape (registryAdd c w1) (c # as)"
    using sh c by (intro regShape_registryAdd) (auto simp: nx pv regShape_def, auto simp: w1_def)
  moreover have "snd (connNew mem fd epollfd w) = registryAdd c w1"
    by (simp add: connNew_def Some w1_def Let_def)
  ultimately show ?thesis by (auto simp: regInv_def)
qed

lemma regShape_remove:
  assumes "regShape w (xs @ c # ys)"
  shows "lpath (link regNext (registryRemove c w)) (regHead (registryRemove c w)) (xs @ ys) \<and>
    prevs (link regPrev (registryRemove c w)) None (xs @ ys) \<and>
    dom (conns (registryRemove c w)) = dom (conns w)"
proof -
  let ?nx = "link regNext w" and ?pv = "link regPrev w"
  from assms have path: "lpath ?nx (regHead w) (xs @ c # ys)" and prv: "prevs ?pv None (xs @ c # ys)"
    and dom: "set (xs @ c # ys) = dom (conns w)" by (simp_all add: regShape_def)
  have dist: "distinct (xs @ c # ys)" using path by (rule lpath_distinct)
  have pc: "?pv c = last_of xs" using prv by (auto simp: prevs_append last_of_def)
  have "lpath ?nx (Some c) (c # ys)" using path by (rule lpath_append)
  then have nc: "?nx c = (case ys of [] \<Rightarrow> None | y # _ \<Rightarrow> Some y)" by (cases ys) auto
  define w1 where "w1 = (case last_of xs of Some p \<Rightarrow> upd_conn p (\<lambda>x. x\<lparr>regNext := ?nx c\<rparr>) w
    | None \<Rightarrow> w\<lparr>regHead := ?nx c\<rparr>)"
  have w: "registryRemove c w = (case ?nx c of Some n \<Rightarrow> upd_conn n (\<lambda>x. x\<lparr>regPrev := last_of xs\<rparr>) w1
    | None \<Rightarrow> w1)"
    unfolding w1_def by (simp add: registryRemove_def Let_def pc)
  have dom1: "dom (conns w1) = dom (conns w)" by (simp add: w1_def split: option.split)
  have 1: "lpath (link regNext w1) (regHead w1) (xs @ ys) \<and> link regPrev w1 = ?pv"
  proof (cases xs rule: rev_cases)
    case Nil
    then show ?thesis using path by (auto simp: w1_def)
  next
    case (snoc zs z)
    then have z: "z \<in> dom (conns w)" using dom by auto
    have "lpath (?nx(z := ?nx c)) (regHead w) (zs @ z # ys)"
      using path snoc by (intro lpath_unlink) simp
    then show ?thesis using snoc z by (simp add: w1_def link_upd_other link_upd_const)
  qed
  show ?thesis
  proof (cases ys)
    case Nil
    with 1 dom1 prv nc show ?thesis by (simp add: w prevs_append)
  next
    case (Cons y zs)
    then have y: "y \<in> dom (conns w1)" using dom dom1 by auto
    have "prevs (?pv(y := ?pv c)) None (xs @ y # zs)"
      using prv dist Cons by (intro prevs_unlink) simp_all
    then show ?thesis
      using 1 dom1 nc Cons y by (simp add: w link_upd_other link_upd_const pc)
  qed
qed

lemma regInv_connDestroy:
  assumes "regInv w" and "c \<in> dom (conns w)"
  shows "regInv (connDestroy c w) \<and> dom (conns (connDestroy c w)) = dom (conns w) - {c}"
proof -
  from assms obtain as where sh: "regShape w as" by (auto simp: regInv_def)
  have "c \<in> set as" using sh assms(2) by (simp add: regShape_def)
  then obtain xs ys where as: "as = xs @ c # ys" using split_list by fastforce
  let ?w = "registryRemove c w"
  note rm = regShape_remove [OF sh [unfolded as]]
  have "distinct as" using sh by (auto simp: regShape_def intro: lpath_distinct)
  then have dist: "c \<notin> set (xs @ ys)" using as by auto
  have "lpath (link regNext (connDestroy c w)) p (xs @ ys) = lpath (link regNext ?w) p (xs @ ys)"
    and "prevs (link regPrev (connDestroy c w)) b (xs @ ys) = prevs (link regPrev ?w) b (xs @ ys)" for p b
    using dist by (auto intro!: lpath_cong prevs_cong simp: connDestroy_def connFreeResources_def link_def)
  moreover have "regHead (connDestroy c w) = regHead ?w"
    and "dom (conns (connDestroy c w)) = dom (conns w) - {c}"
    using rm by (simp_all add: connDestroy_def connFreeResources_def)
  moreover have "set (xs @ ys) = dom (conns w) - {c}" using sh dist as by (auto simp: regShape_def)
  ultimately show ?thesis using rm by (auto simp: regInv_def regShape_def intro!: exI [of _ "xs @ ys"])
qed

lemma destroyLoop_path:
  "lpath (link regNext w) p as \<Longrightarrow> set as \<subseteq> dom (conns w) \<Longrightarrow>
     \<exists>w'. destroyLoop p w = Some w' \<and> conns w' = conns w |` (- set as) \<and>
       closed w' = closed w @ map (\<lambda>c. cfd (the (conns w c))) as"
proof (induction as arbitrary: p w)
  case Nil
  then show ?case by (simp add: destroyLoop.simps)
next
  case (Cons a as)
  from Cons.prems obtain x where x: "p = Some a" "conns w a = Some x" by auto
  have a: "a \<notin> set as" using lpath_distinct [OF Cons.prems(1)] by simp
  let ?w = "connFreeResources a (os_close (cfd x) w)"
  have conns: "conns ?w = (conns w)(a := None)" "closed ?w = closed w @ [cfd x]"
    by (simp_all add: connFreeResources_def os_close_def)
  have "lpath (link regNext ?w) (regNext x) as = lpath (link regNext w) (regNext x) as"
    using a by (intro lpath_cong) (auto simp: link_def conns)
  moreover have "link regNext w a = regNext x" by (simp add: link_def x)
  then have "lpath (link regNext w) (regNext x) as" using Cons.prems(1) by simp
  moreover have "set as \<subseteq> dom (conns ?w)" using Cons.prems(2) a by (auto simp: conns)
  ultimately obtain w' where "destroyLoop (regNext x) ?w = Some w'" "conns w' = conns ?w |` (- set as)"
    "closed w' = closed ?w @ map (\<lambda>c. cfd (the (conns ?w c))) as"
    using Cons.IH [of ?w "regNext x"] by auto
  moreover have "map (\<lambda>c. cfd (the (conns ?w c))) as = map (\<lambda>c. cfd (the (conns w c))) as"
    using a by (auto simp: conns)
  moreover have "conns ?w |` (- set as) = conns w |` (- set (a # as))"
    by (auto simp: conns restrict_map_def fun_eq_iff)
  ultimately show ?case using x by (subst destroyLoop.simps) (simp add: conns)
qed

subsection \<open>Properties\<close>

text \<open>A world with one registered connection, for the witnesses.\<close>

definition conn_start :: conn_world where
  "conn_start = os.extend os_idle (conn_world.fields (\<lambda>_. None) None 1)"

definition conn_one :: conn_world where
  "conn_one = snd (connNew (Some 0) 5 3 conn_start)"

lemma regInv_conn_one: "regInv conn_one"
proof -
  have "regInv conn_start"
    by (auto simp: regInv_def regShape_def conn_start_def os.defs conn_world.defs intro: exI [of _ "[]"])
  then show ?thesis unfolding conn_one_def
    by (rule regInv_connNew) (simp add: conn_start_def os.defs conn_world.defs)
qed

text \<open>C27: The registry always holds exactly the live connections, once each and linked consistently in both
  directions: \<open>connNew\<close> (with memory that is not in use, or without memory) and \<open>connClose\<close> of any live
  connection preserve this, and closing removes exactly that connection and closes its socket.\<close>

theorem registry_invariant:
  assumes "regInv w" and "conns w c = Some x" and "mem = None \<or> the mem \<notin> dom (conns w)"
  shows "regInv (snd (connNew mem fd ep w)) \<and> regInv (connClose c w) \<and>
    dom (conns (connClose c w)) = dom (conns w) - {c} \<and> closed (connClose c w) = closed w @ [cfd x]"
proof -
  have new: "regInv (snd (connNew mem fd ep w))" using assms(1,3) by (intro regInv_connNew) auto
  define w1 where "w1 = os_close (cfd x)
    (if 0 \<le> cepollfd x then snd (os_epoll_ctl (cepollfd x) EPOLL_CTL_DEL (cfd x) [] w) else w)"
  have w1: "conns w1 = conns w" "regHead w1 = regHead w" "closed w1 = closed w @ [cfd x]"
    by (simp_all add: w1_def os_close_def os_epoll_ctl_def Let_def split: list.splits)
  have "link f w1 = link f w" for f by (simp add: link_def w1 fun_eq_iff)
  with assms(1) w1 have "regInv w1" by (simp add: regInv_def regShape_def)
  moreover have cl: "connClose c w = connDestroy c w1"
    using assms(2) by (simp add: connClose_def w1_def Let_def)
  moreover have "closed (connDestroy c w1) = closed w1"
    by (simp add: connDestroy_def connFreeResources_def registryRemove_def Let_def upd_conn_def
        split: option.split)
  ultimately show ?thesis
    using regInv_connDestroy [of w1 c] assms(2) new by (auto simp only: w1 cl domI)
qed

theorem registry_invariant_witness:
  "regInv (snd (connNew (Some 9) 8 3 conn_one)) \<and> regInv (connClose 0 conn_one) \<and>
    dom (conns (connClose 0 conn_one)) = dom (conns conn_one) - {0} \<and>
    closed (connClose 0 conn_one) = closed conn_one @ [cfd (the (conns conn_one 0))]"
  by (rule registry_invariant [OF regInv_conn_one])
    (auto simp: conn_one_def conn_start_def connNew_def registryAdd_def upd_conn_def Let_def
      os.defs conn_world.defs)

text \<open>The clean-up at the end of the program is complete: \<open>registryDestroyAll\<close> follows the list to its
  end (it does terminate, and never reads a freed connection), closes every connection's socket once and
  leaves none allocated.\<close>

lemma registryDestroyAll_complete:
  assumes "regInv w"
  shows "\<exists>w' as. registryDestroyAll w = Some w' \<and> conns w' = Map.empty \<and> set as = dom (conns w) \<and>
    distinct as \<and> closed w' = closed w @ map (\<lambda>c. cfd (the (conns w c))) as"
proof -
  from assms obtain as where sh: "regShape w as" by (auto simp: regInv_def)
  then obtain w' where "registryDestroyAll w = Some w'" "conns w' = conns w |` (- set as)"
    "closed w' = closed w @ map (\<lambda>c. cfd (the (conns w c))) as"
    using destroyLoop_path [of "w\<lparr>regHead := None\<rparr>" "regHead w" as]
    by (auto simp: regShape_def registryDestroyAll_def)
  moreover have "conns w |` (- set as) = Map.empty"
    using sh by (auto simp: regShape_def restrict_map_def fun_eq_iff domIff)
  moreover have "distinct as" using sh lpath_distinct by (auto simp: regShape_def)
  ultimately show ?thesis using sh by (auto simp: regShape_def)
qed

lemma registryDestroyAll_complete_witness:
  "\<exists>w' as. registryDestroyAll conn_one = Some w' \<and> conns w' = Map.empty \<and> set as = dom (conns conn_one) \<and>
    distinct as \<and> closed w' = closed conn_one @ map (\<lambda>c. cfd (the (conns conn_one c))) as"
  by (rule registryDestroyAll_complete [OF regInv_conn_one])

end
