(* ===== verification/Queue.thy ===== *)
theory Queue
  imports Interfaces Pointers Os
begin

section \<open>The thread-safe queue (src/src/queue.c)\<close>

text \<open>
  A linked list of nodes with head, tail and size, guarded by one mutex: every operation below is the
  critical section of the C function of that name, so it is one atomic step. The nodes live in a
  store (\<open>qnodes\<close>); \<open>qfresh\<close> is an address \<open>malloc\<close> has not returned yet. \<open>evCount\<close> is the counter of
  the eventfd that \<open>queueEnableNotify\<close> attaches (\<open>notifyFd\<close>, -1 without one): the kernel refuses to
  raise it above \<open>2 ^ 64 - 2\<close>. \<open>push\<close> and \<open>shutdownQueue\<close> of the code write to the eventfd after they have
  unlocked the mutex; the model counts that write to the critical section. A reader that runs in between sees
  the item before the count is raised, and then the write wakes it once more than needed; the two orders
  differ in nothing else, since the count does not decide what the queue's operations return. The queue is
  passed by value, so the tests for a \<open>NULL\<close> queue have no counterpart.
\<close>

record 'a QNode_t =
  qnext :: "nat option"
  qitem :: 'a

record 'a Queue_t =
  qhead :: "nat option"
  qtail :: "nat option"
  qsize :: nat
  qshutdown :: bool
  notifyFd :: int
  evCount :: nat
  qnodes :: "nat \<rightharpoonup> 'a QNode_t"
  qfresh :: nat

definition createQueue :: "'a Queue_t" where
  "createQueue = \<lparr>qhead = None, qtail = None, qsize = 0, qshutdown = False, notifyFd = -1, evCount = 0,
     qnodes = (\<lambda>_. None), qfresh = 0\<rparr>"

text \<open>\<open>fd\<close> is what \<open>eventfd\<close> returned.\<close>

definition queueEnableNotify :: "int \<Rightarrow> 'a Queue_t \<Rightarrow> int \<times> 'a Queue_t" where
  "queueEnableNotify fd q = (if fd = -1 then (-1, q) else (fd, q\<lparr>notifyFd := fd, evCount := 0\<rparr>))"

definition notify :: "'a Queue_t \<Rightarrow> 'a Queue_t" where
  "notify q = (if 0 \<le> notifyFd q \<and> evCount q < 2 ^ 64 - 2 then q\<lparr>evCount := evCount q + 1\<rparr> else q)"

text \<open>The reader of the eventfd takes the whole count (agg.c and ws_client.c read 8 bytes from it).\<close>

definition evRead :: "'a Queue_t \<Rightarrow> 'a Queue_t" where
  "evRead q = q\<lparr>evCount := 0\<rparr>"

text \<open>The store update of \<open>push\<close> between lock and unlock, once \<open>malloc\<close> has returned a node.\<close>

definition pushLocked :: "'a \<Rightarrow> 'a Queue_t \<Rightarrow> 'a Queue_t" where
  "pushLocked item q =
     (let n = qfresh q;
          q0 = q\<lparr>qfresh := Suc n, qnodes := (qnodes q)(n \<mapsto> \<lparr>qnext = None, qitem = item\<rparr>)\<rparr>;
          q1 = (case qtail q0 of
                  Some t \<Rightarrow> q0\<lparr>qnodes := (qnodes q0)(t := map_option (\<lambda>nd. nd\<lparr>qnext := Some n\<rparr>) (qnodes q0 t))\<rparr>
                | None \<Rightarrow> q0\<lparr>qhead := Some n\<rparr>)
      in q1\<lparr>qtail := Some n, qsize := qsize q1 + 1\<rparr>)"

definition push :: "'a \<Rightarrow> 'a Queue_t \<Rightarrow> 'b os_scheme \<Rightarrow> int \<times> 'a Queue_t \<times> 'b os_scheme" where
  "push item q s = (case os_alloc s of (ok, s1) \<Rightarrow>
     if \<not> ok then (-1, q, s1) else (0, notify (pushLocked item q), s1))"

definition shutdownQueue :: "'a Queue_t \<Rightarrow> 'a Queue_t" where
  "shutdownQueue q = notify (q\<lparr>qshutdown := True\<rparr>)"

definition queueIsShutdown :: "'a Queue_t \<Rightarrow> bool" where
  "queueIsShutdown q = qshutdown q"

text \<open>\<open>None\<close> is the dereference of a null or dangling head, which the invariant excludes.\<close>

definition popHeadLocked :: "'a Queue_t \<Rightarrow> ('a \<times> 'a Queue_t) option" where
  "popHeadLocked q = (case qhead q of None \<Rightarrow> None
     | Some n \<Rightarrow> (case qnodes q n of None \<Rightarrow> None
         | Some nd \<Rightarrow>
             let q1 = q\<lparr>qhead := qnext nd\<rparr>;
                 q2 = (if qhead q1 = None then q1\<lparr>qtail := None\<rparr> else q1);
                 q3 = q2\<lparr>qsize := qsize q2 - 1, qnodes := (qnodes q2)(n := None)\<rparr>
             in Some (qitem nd, q3)))"

text \<open>
  \<open>pop\<close> under the lock: wait (the condition of its \<open>while\<close> loop holds), or return with -1 or an item.
\<close>

datatype 'a pop_res = PopWait | PopNone | PopItem 'a

definition pop :: "'a Queue_t \<Rightarrow> 'a pop_res \<times> 'a Queue_t" where
  "pop q =
     (if qsize q = 0 \<and> \<not> qshutdown q then (PopWait, q)
      else if qsize q = 0 then (PopNone, q)
      else case popHeadLocked q of Some (x, q') \<Rightarrow> (PopItem x, q') | None \<Rightarrow> (PopNone, q))"

definition trypop :: "'a Queue_t \<Rightarrow> ('a \<times> 'a Queue_t) option" where
  "trypop q = (if qsize q = 0 then None else popHeadLocked q)"

definition queueSize :: "'a Queue_t \<Rightarrow> nat" where
  "queueSize q = qsize q"

text \<open>
  \<open>deleteQueueWith\<close>: the loop over the nodes, which reads \<open>next\<close> before it frees the node. The
  result is the items given to \<open>freeItem\<close>, in order, and the nodes that are still allocated.
\<close>

partial_function (option) deleteLoop ::
  "(nat \<rightharpoonup> 'a QNode_t) \<Rightarrow> nat option \<Rightarrow> 'a list \<Rightarrow> ('a list \<times> (nat \<rightharpoonup> 'a QNode_t)) option" where
  "deleteLoop nodes node freed = (case node of None \<Rightarrow> Some (freed, nodes)
     | Some n \<Rightarrow> (case nodes n of None \<Rightarrow> None
         | Some nd \<Rightarrow> deleteLoop (nodes(n := None)) (qnext nd) (freed @ [qitem nd])))"

definition deleteQueueWith ::
  "'a Queue_t \<Rightarrow> 'b os_scheme \<Rightarrow> ('a list \<times> 'a Queue_t \<times> 'b os_scheme) option" where
  "deleteQueueWith q s = (case deleteLoop (qnodes q) (qhead q) [] of None \<Rightarrow> None
     | Some (items, nodes) \<Rightarrow>
         Some (items, q\<lparr>qhead := None, qtail := None, qsize := 0, qnodes := nodes\<rparr>,
               if 0 \<le> notifyFd q then os_close (notifyFd q) s else s))"

subsection \<open>The invariant\<close>

text \<open>
  The nodes reachable from the head are all the nodes there are (nothing leaks, nothing dangles), the
  tail is the last of them, and \<open>size\<close> is their number.
\<close>

definition qnx :: "(nat \<rightharpoonup> 'a QNode_t) \<Rightarrow> nat \<Rightarrow> nat option" where
  "qnx nodes a = Option.bind (nodes a) qnext"

definition qval :: "(nat \<rightharpoonup> 'a QNode_t) \<Rightarrow> nat \<Rightarrow> 'a" where
  "qval nodes a = qitem (the (nodes a))"

definition qshape :: "'a Queue_t \<Rightarrow> nat list \<Rightarrow> bool" where
  "qshape q as \<longleftrightarrow> lpath (qnx (qnodes q)) (qhead q) as \<and> set as = dom (qnodes q) \<and>
     qtail q = last_of as \<and> qsize q = length as \<and> (\<forall>a \<in> set as. a < qfresh q)"

definition queueInv :: "'a Queue_t \<Rightarrow> bool" where
  "queueInv q \<longleftrightarrow> (\<exists>as. qshape q as)"

definition qcontents :: "'a Queue_t \<Rightarrow> 'a list" where
  "qcontents q = map (qval (qnodes q)) (walk (qnx (qnodes q)) (qhead q) (qsize q))"

lemma qcontents_shape: "qshape q as \<Longrightarrow> qcontents q = map (qval (qnodes q)) as"
  by (simp add: qshape_def qcontents_def walk_lpath)

lemma queueInv_create [inv_intros]: "queueInv createQueue"
  by (auto simp: queueInv_def qshape_def createQueue_def intro: exI [of _ "[]"])

lemma qcontents_create [simp]: "qcontents createQueue = []"
  by (simp add: qcontents_def createQueue_def)

lemma length_qcontents: "queueInv q \<Longrightarrow> length (qcontents q) = qsize q"
  unfolding queueInv_def by (auto simp: qcontents_shape) (simp add: qshape_def)

lemma notify_simps [simp]:
  "qcontents (notify q) = qcontents q" "queueInv (notify q) = queueInv q" "qsize (notify q) = qsize q"
  "qshutdown (notify q) = qshutdown q" "notifyFd (notify q) = notifyFd q"
  by (simp_all add: notify_def qcontents_def queueInv_def qshape_def)

lemma evRead_simps [simp]:
  "qcontents (evRead q) = qcontents q" "queueInv (evRead q) = queueInv q" "qsize (evRead q) = qsize q"
  "qshutdown (evRead q) = qshutdown q" "notifyFd (evRead q) = notifyFd q"
  by (simp_all add: evRead_def qcontents_def queueInv_def qshape_def)

lemma shutdownQueue_simps [simp]:
  "qcontents (shutdownQueue q) = qcontents q" "queueInv (shutdownQueue q) = queueInv q"
  "qsize (shutdownQueue q) = qsize q" "qshutdown (shutdownQueue q)"
  by (simp_all add: shutdownQueue_def) (simp_all add: qcontents_def queueInv_def qshape_def)

lemma qshape_push:
  assumes "qshape q as"
  shows "qshape (pushLocked x q) (as @ [qfresh q]) \<and>
    map (qval (qnodes (pushLocked x q))) (as @ [qfresh q]) = map (qval (qnodes q)) as @ [x]"
proof -
  let ?n = "qfresh q" and ?N = "qnodes q" and ?q = "pushLocked x q"
  from assms have path: "lpath (qnx ?N) (qhead q) as" and dom: "set as = dom ?N"
    and tail: "qtail q = last_of as" and size: "qsize q = length as" and lt: "\<forall>a \<in> set as. a < ?n"
    by (simp_all add: qshape_def)
  have fresh: "?n \<notin> set as" using lt by auto
  show ?thesis
  proof (cases as rule: rev_cases)
    case Nil
    with tail size dom show ?thesis
      by (simp add: qshape_def pushLocked_def Let_def qnx_def qval_def)
  next
    case (snoc bs l)
    then obtain nd where nd: "?N l = Some nd" using dom by auto
    have nodes: "qnodes ?q = ?N(?n \<mapsto> \<lparr>qnext = None, qitem = x\<rparr>, l \<mapsto> nd\<lparr>qnext := Some ?n\<rparr>)"
      using tail snoc nd fresh by (auto simp: pushLocked_def Let_def)
    have "qnx (qnodes ?q) = (qnx ?N)(?n := None, l := Some ?n)"
      using fresh snoc by (auto simp: nodes qnx_def fun_eq_iff)
    then have "lpath (qnx (qnodes ?q)) (qhead q) (bs @ [l, ?n])"
      using path fresh snoc by (auto intro: lpath_snoc)
    moreover have "qhead ?q = qhead q" "qtail ?q = Some ?n" "qsize ?q = Suc (qsize q)" "qfresh ?q = Suc ?n"
      using tail snoc by (simp_all add: pushLocked_def Let_def)
    moreover have "dom (qnodes ?q) = insert ?n (set as)" using dom nd by (auto simp: nodes)
    moreover have "map (qval (qnodes ?q)) (as @ [?n]) = map (qval ?N) as @ [x]"
      using fresh nd snoc by (auto simp: nodes qval_def)
    ultimately show ?thesis using snoc size lt last_of_simps(2) [of as ?n] by (auto simp: qshape_def)
  qed
qed

lemma pushLocked_contents:
  "queueInv q \<Longrightarrow> qcontents (pushLocked x q) = qcontents q @ [x] \<and> queueInv (pushLocked x q)"
  unfolding queueInv_def using qshape_push [of q _ x] by (metis qcontents_shape)

lemma qshape_pop:
  assumes "qshape q as"
  shows "popHeadLocked q = None \<longleftrightarrow> as = []"
    and "popHeadLocked q = Some (x, q') \<Longrightarrow>
      qshape q' (tl as) \<and> map (qval (qnodes q)) as = x # map (qval (qnodes q')) (tl as)"
proof -
  from assms have path: "lpath (qnx (qnodes q)) (qhead q) as" and dom: "set as = dom (qnodes q)"
    and tail: "qtail q = last_of as" and size: "qsize q = length as" and lt: "\<forall>a \<in> set as. a < qfresh q"
    by (simp_all add: qshape_def)
  show "popHeadLocked q = None \<longleftrightarrow> as = []"
    using path dom by (cases as) (auto simp: popHeadLocked_def Let_def split: option.splits)
  assume pop: "popHeadLocked q = Some (x, q')"
  with path obtain n bs where as: "as = n # bs" by (cases as) (auto simp: popHeadLocked_def)
  with path dom obtain nd where nd: "qhead q = Some n" "qnodes q n = Some nd" by auto
  have n: "n \<notin> set bs" using lpath_distinct [OF path] as by simp
  have "qnx ((qnodes q)(n := None)) = (qnx (qnodes q))(n := None)"
    by (auto simp: qnx_def fun_eq_iff)
  then have "lpath (qnx ((qnodes q)(n := None))) (qnext nd) bs"
    using path as nd n by (auto simp: qnx_def)
  moreover have "q' = q\<lparr>qhead := qnext nd, qtail := if qnext nd = None then None else qtail q,
      qsize := qsize q - 1, qnodes := (qnodes q)(n := None)\<rparr>" "x = qitem nd"
    using pop nd by (auto simp: popHeadLocked_def Let_def)
  moreover have "(if qnext nd = None then None else qtail q) = last_of bs"
    using path tail as nd by (cases bs) (auto simp: qnx_def)
  ultimately show "qshape q' (tl as) \<and> map (qval (qnodes q)) as = x # map (qval (qnodes q')) (tl as)"
    using as dom size lt nd n by (auto simp: qshape_def qval_def)
qed

lemma popHeadLocked_None: "queueInv q \<Longrightarrow> popHeadLocked q = None \<longleftrightarrow> qcontents q = []"
  unfolding queueInv_def using qshape_pop(1) by (metis qcontents_shape list.map_disc_iff)

lemma popHeadLocked_Some:
  "queueInv q \<Longrightarrow> popHeadLocked q = Some (x, q') \<Longrightarrow> qcontents q = x # qcontents q' \<and> queueInv q'"
  unfolding queueInv_def using qshape_pop(2) by (metis qcontents_shape)

lemma trypop_popHead: "queueInv q \<Longrightarrow> trypop q = popHeadLocked q"
  using popHeadLocked_None [of q] length_qcontents [of q] by (auto simp: trypop_def)

interpretation queue: fifo pushLocked trypop qcontents queueInv "\<lambda>_ _. True"
  by unfold_locales
    (simp_all add: pushLocked_contents trypop_popHead popHeadLocked_None popHeadLocked_Some)

subsection \<open>Sleeping consumers\<close>

text \<open>
  The condition variable: \<open>pthread_cond_wait\<close> puts a consumer to sleep inside \<open>pop\<close>'s loop, a signal
  moves one sleeper (if any) to the threads that will re-acquire the mutex, a broadcast moves all, and
  a sleeper may wake up for no reason. A thread that has been woken runs the loop test again. The
  consumers are counted, since nothing distinguishes them.
\<close>

record 'a qsys =
  theQueue :: "'a Queue_t"
  sleeping :: nat
  woken :: nat

definition cond_signal :: "'a qsys \<Rightarrow> 'a qsys" where
  "cond_signal z = (if 0 < sleeping z then z\<lparr>sleeping := sleeping z - 1, woken := woken z + 1\<rparr> else z)"

definition cond_broadcast :: "'a qsys \<Rightarrow> 'a qsys" where
  "cond_broadcast z = z\<lparr>sleeping := 0, woken := woken z + sleeping z\<rparr>"

text \<open>One round of the loop of \<open>pop\<close>: it either leaves with a result or goes to sleep.\<close>

definition pop_round :: "'a qsys \<Rightarrow> 'a qsys" where
  "pop_round z = (case pop (theQueue z) of
       (PopWait, q) \<Rightarrow> z\<lparr>theQueue := q, sleeping := sleeping z + 1\<rparr>
     | (_, q) \<Rightarrow> z\<lparr>theQueue := q\<rparr>)"

inductive qstep :: "'a qsys \<Rightarrow> 'a qsys \<Rightarrow> bool" where
  produce: "qstep z (cond_signal (z\<lparr>theQueue := notify (pushLocked x (theQueue z))\<rparr>))"
| consume: "qstep z (pop_round z)"
| resume: "0 < woken z \<Longrightarrow> qstep z (pop_round (z\<lparr>woken := woken z - 1\<rparr>))"
| poll: "trypop (theQueue z) = Some (x, q) \<Longrightarrow> qstep z (z\<lparr>theQueue := q\<rparr>)"
| spurious: "0 < sleeping z \<Longrightarrow> qstep z (cond_signal z)"
| stop: "qstep z (cond_broadcast (z\<lparr>theQueue := shutdownQueue (theQueue z)\<rparr>))"

inductive qreach :: "'a qsys \<Rightarrow> bool" where
  start: "qreach \<lparr>theQueue = createQueue, sleeping = 0, woken = 0\<rparr>"
| step: "qreach z \<Longrightarrow> qstep z z' \<Longrightarrow> qreach z'"

definition qsysInv :: "'a qsys \<Rightarrow> bool" where
  "qsysInv z \<longleftrightarrow> queueInv (theQueue z) \<and>
     (0 < sleeping z \<longrightarrow> qsize (theQueue z) \<le> woken z \<and> \<not> qshutdown (theQueue z))"

lemma qsize_pushLocked: "qsize (pushLocked x q) = qsize q + 1" "qshutdown (pushLocked x q) = qshutdown q"
  by (simp_all add: pushLocked_def Let_def split: option.split)

lemma popHeadLocked_size:
  "popHeadLocked q = Some (x, q') \<Longrightarrow> qsize q' = qsize q - 1 \<and> qshutdown q' = qshutdown q"
  by (auto simp: popHeadLocked_def Let_def split: option.splits if_splits)

lemma qsysInv_pop_round:
  assumes "qsysInv z"
  shows "qsysInv (pop_round z)"
    and "0 < woken z \<Longrightarrow> qsysInv (pop_round (z\<lparr>woken := woken z - 1\<rparr>))"
proof -
  let ?q = "theQueue z"
  have inv: "queueInv ?q" and slp: "0 < sleeping z \<longrightarrow> qsize ?q \<le> woken z \<and> \<not> qshutdown ?q"
    using assms by (auto simp: qsysInv_def)
  show "qsysInv (pop_round z)" "0 < woken z \<Longrightarrow> qsysInv (pop_round (z\<lparr>woken := woken z - 1\<rparr>))"
  proof (atomize (full), cases "qsize ?q = 0")
    case True
    with inv slp show "qsysInv (pop_round z) \<and>
        (0 < woken z \<longrightarrow> qsysInv (pop_round (z\<lparr>woken := woken z - 1\<rparr>)))"
      by (auto simp: pop_round_def pop_def qsysInv_def)
  next
    case False
    then have "qcontents ?q \<noteq> []" using length_qcontents [OF inv] by auto
    then obtain x q' where p: "popHeadLocked ?q = Some (x, q')" using popHeadLocked_None [OF inv] by auto
    with popHeadLocked_Some [OF inv p] popHeadLocked_size [OF p] False slp
    show "qsysInv (pop_round z) \<and> (0 < woken z \<longrightarrow> qsysInv (pop_round (z\<lparr>woken := woken z - 1\<rparr>)))"
      by (auto simp: pop_round_def pop_def qsysInv_def)
  qed
qed

lemma qsysInv_step: "qstep z z' \<Longrightarrow> qsysInv z \<Longrightarrow> qsysInv z'"
proof (induction rule: qstep.induct)
  case (produce z x)
  then show ?case
    by (auto simp: qsysInv_def cond_signal_def pushLocked_contents qsize_pushLocked)
next
  case (poll z x q)
  then show ?case
    using popHeadLocked_Some [of "theQueue z" x q] popHeadLocked_size [of "theQueue z" x q]
    by (auto simp: qsysInv_def trypop_popHead)
next
  case (spurious z)
  then show ?case by (auto simp: qsysInv_def cond_signal_def)
next
  case (stop z)
  then show ?case by (auto simp: qsysInv_def cond_broadcast_def)
next
  case (consume z)
  then show ?case by (rule qsysInv_pop_round)
next
  case (resume z)
  then show ?case by (intro qsysInv_pop_round)
qed

lemma qreach_inv: "qreach z \<Longrightarrow> qsysInv z"
  by (induction rule: qreach.induct) (simp_all add: qsysInv_def queueInv_create qsysInv_step [unfolded qsysInv_def])

subsection \<open>Freeing the queue\<close>

lemma deleteLoop_path:
  "lpath (qnx nodes) p as \<Longrightarrow> set as \<subseteq> dom nodes \<Longrightarrow>
     deleteLoop nodes p freed = Some (freed @ map (qval nodes) as, nodes |` (- set as))"
proof (induction as arbitrary: nodes p freed)
  case Nil
  then show ?case by (simp add: deleteLoop.simps)
next
  case (Cons a as)
  then obtain nd where nd: "nodes a = Some nd" by auto
  have a: "a \<notin> set as" using lpath_distinct [OF Cons.prems(1)] by simp
  have "qnx (nodes(a := None)) = (qnx nodes)(a := None)" by (auto simp: qnx_def fun_eq_iff)
  with Cons.prems a nd have "lpath (qnx (nodes(a := None))) (qnext nd) as" by (simp, simp add: qnx_def)
  moreover have "set as \<subseteq> dom (nodes(a := None))" using Cons.prems a by auto
  ultimately have "deleteLoop (nodes(a := None)) (qnext nd) (freed @ [qitem nd]) =
      Some ((freed @ [qitem nd]) @ map (qval (nodes(a := None))) as, nodes(a := None) |` (- set as))"
    by (rule Cons.IH)
  moreover have "map (qval (nodes(a := None))) as = map (qval nodes) as"
    using a by (auto simp: qval_def)
  moreover have "nodes(a := None) |` (- set as) = nodes |` (- set (a # as))"
    by (auto simp: restrict_map_def fun_eq_iff)
  ultimately show ?case
    using Cons.prems(1) nd by (subst deleteLoop.simps) (simp add: qval_def)
qed

subsection \<open>Properties\<close>

text \<open>A queue with one item, shut down: the input of the witnesses.\<close>

definition queue_7 :: "int Queue_t" where
  "queue_7 = shutdownQueue (pushLocked 7 (snd (queueEnableNotify 5 createQueue)))"

lemma queueInv_queue_7: "queueInv queue_7"
proof -
  have "queueInv (snd (queueEnableNotify 5 (createQueue :: int Queue_t)))"
    by (auto simp: queueInv_def qshape_def createQueue_def queueEnableNotify_def intro: exI [of _ "[]"])
  then show ?thesis unfolding queue_7_def shutdownQueue_simps by (simp only: pushLocked_contents)
qed

text \<open>C19: The linked list is a first-in first-out sequence: on every well-formed queue \<open>push\<close> appends
  exactly its item (or, without memory for a node, returns -1 and changes nothing), \<open>trypop\<close> takes the
  oldest item or says the queue is empty, \<open>queueSize\<close> is the number of items, the shutdown flag leaves
  the items alone, and all of them keep the list well formed.\<close>

theorem queue_is_fifo:
  assumes "queueInv q"
  shows "(case push x q s of (rc, q', s') \<Rightarrow> queueInv q' \<and>
           (if fst (os_alloc s) then rc = 0 \<and> qcontents q' = qcontents q @ [x] else rc = -1 \<and> q' = q)) \<and>
         (case trypop q of None \<Rightarrow> qcontents q = []
          | Some (y, q') \<Rightarrow> queueInv q' \<and> qcontents q = y # qcontents q') \<and>
         queueSize q = length (qcontents q) \<and>
         queueInv (shutdownQueue q) \<and> qcontents (shutdownQueue q) = qcontents q"
proof -
  have "case push x q s of (rc, q', s') \<Rightarrow> queueInv q' \<and>
           (if fst (os_alloc s) then rc = 0 \<and> qcontents q' = qcontents q @ [x] else rc = -1 \<and> q' = q)"
    using assms by (auto simp: push_def pushLocked_contents split: prod.splits)
  moreover have "case trypop q of None \<Rightarrow> qcontents q = []
          | Some (y, q') \<Rightarrow> queueInv q' \<and> qcontents q = y # qcontents q'"
    using assms by (cases rule: queue.deq_cases) auto
  ultimately show ?thesis using assms by (simp add: queueSize_def length_qcontents)
qed

theorem queue_is_fifo_witness:
  "(case push 8 queue_7 os_idle of (rc, q', s') \<Rightarrow> queueInv q' \<and>
      (if fst (os_alloc os_idle) then rc = 0 \<and> qcontents q' = qcontents queue_7 @ [8]
       else rc = -1 \<and> q' = queue_7)) \<and>
   (case trypop queue_7 of None \<Rightarrow> qcontents queue_7 = []
    | Some (y, q') \<Rightarrow> queueInv q' \<and> qcontents queue_7 = y # qcontents q') \<and>
   queueSize queue_7 = length (qcontents queue_7) \<and>
   queueInv (shutdownQueue queue_7) \<and> qcontents (shutdownQueue queue_7) = qcontents queue_7"
  by (rule queue_is_fifo [OF queueInv_queue_7])

text \<open>No item is lost at shutdown and no consumer is told to stop early: \<open>pop\<close> waits exactly while the
  queue is empty and not shut down, reports the end exactly when it is empty and shut down, and
  otherwise hands over the oldest item; so \<open>n\<close> calls on a shut-down queue deliver its first \<open>n\<close> items
  in order.\<close>

lemma pop_drains:
  assumes "queueInv q"
  shows "case pop q of
      (PopWait, q') \<Rightarrow> qcontents q = [] \<and> \<not> queueIsShutdown q \<and> q' = q
    | (PopNone, q') \<Rightarrow> qcontents q = [] \<and> queueIsShutdown q \<and> q' = q
    | (PopItem x, q') \<Rightarrow> qcontents q = x # qcontents q' \<and> queueInv q' \<and>
        queueIsShutdown q' = queueIsShutdown q"
proof (cases "popHeadLocked q")
  case None
  with assms have "qcontents q = []" by (simp add: popHeadLocked_None)
  moreover have "qsize q = 0" using calculation length_qcontents [OF assms] by simp
  ultimately show ?thesis by (simp add: pop_def queueIsShutdown_def)
next
  case (Some p)
  obtain x q' where p: "popHeadLocked q = Some (x, q')" using Some by (cases p) auto
  note * = popHeadLocked_Some [OF assms p] popHeadLocked_size [OF p]
  moreover have "qsize q \<noteq> 0" using * length_qcontents [OF assms] by simp
  ultimately show ?thesis using p by (simp add: pop_def queueIsShutdown_def)
qed

lemma pop_drains_witness:
  "case pop queue_7 of
      (PopWait, q') \<Rightarrow> qcontents queue_7 = [] \<and> \<not> queueIsShutdown queue_7 \<and> q' = queue_7
    | (PopNone, q') \<Rightarrow> qcontents queue_7 = [] \<and> queueIsShutdown queue_7 \<and> q' = queue_7
    | (PopItem x, q') \<Rightarrow> qcontents queue_7 = x # qcontents q' \<and> queueInv q' \<and>
        queueIsShutdown q' = queueIsShutdown queue_7"
  by (rule pop_drains [OF queueInv_queue_7])

text \<open>C18: No wake-up is lost: in every state the producers, the blocking consumers, the polling ones and
  \<open>shutdownQueue\<close> can reach (spurious wake-ups included), consumers sleep only if every queued item has
  a woken consumer coming for it, and none sleeps once the queue has been shut down.\<close>

theorem queue_no_lost_wakeup:
  assumes "qreach z" and "0 < sleeping z"
  shows "length (qcontents (theQueue z)) \<le> woken z \<and> \<not> queueIsShutdown (theQueue z)"
  using qreach_inv [OF assms(1)] assms(2) by (simp add: qsysInv_def length_qcontents queueIsShutdown_def)

theorem queue_no_lost_wakeup_witness:
  "length (qcontents (theQueue (pop_round \<lparr>theQueue = (createQueue :: int Queue_t), sleeping = 0, woken = 0\<rparr>)))
     \<le> woken (pop_round \<lparr>theQueue = (createQueue :: int Queue_t), sleeping = 0, woken = 0\<rparr>) \<and>
   \<not> queueIsShutdown (theQueue (pop_round
       \<lparr>theQueue = (createQueue :: int Queue_t), sleeping = 0, woken = 0\<rparr>))"
proof (rule queue_no_lost_wakeup)
  show "qreach (pop_round \<lparr>theQueue = (createQueue :: int Queue_t), sleeping = 0, woken = 0\<rparr>)"
    by (rule qreach.step [OF qreach.start qstep.consume])
  show "0 < sleeping (pop_round \<lparr>theQueue = (createQueue :: int Queue_t), sleeping = 0, woken = 0\<rparr>)"
    by (simp add: pop_round_def pop_def createQueue_def)
qed

text \<open>Freeing a queue is complete and never touches freed memory: the loop of \<open>deleteQueueWith\<close> ends,
  gives every remaining item to \<open>freeItem\<close> exactly once, in order, and leaves no node allocated; the
  eventfd is closed if there is one.\<close>

lemma deleteQueueWith_complete:
  assumes "queueInv q"
  shows "\<exists>q'. deleteQueueWith q s =
      Some (qcontents q, q', if 0 \<le> notifyFd q then os_close (notifyFd q) s else s) \<and>
    qnodes q' = Map.empty \<and> qhead q' = None \<and> qsize q' = 0"
proof -
  from assms obtain as where sh: "qshape q as" by (auto simp: queueInv_def)
  then have "deleteLoop (qnodes q) (qhead q) [] = Some (map (qval (qnodes q)) as, qnodes q |` (- set as))"
    using deleteLoop_path [of "qnodes q" "qhead q" as "[]"] by (simp add: qshape_def)
  moreover have "qnodes q |` (- set as) = Map.empty"
    using sh by (auto simp: qshape_def restrict_map_def fun_eq_iff domIff)
  ultimately show ?thesis by (simp add: deleteQueueWith_def qcontents_shape [OF sh])
qed

lemma deleteQueueWith_complete_witness:
  "\<exists>q'. deleteQueueWith queue_7 os_idle =
      Some (qcontents queue_7, q',
        if 0 \<le> notifyFd queue_7 then os_close (notifyFd queue_7) os_idle else os_idle) \<and>
    qnodes q' = Map.empty \<and> qhead q' = None \<and> qsize q' = 0"
  by (rule deleteQueueWith_complete [OF queueInv_queue_7])

end
