(* ===== verification/Json.thy ===== *)
theory Json
  imports Utf8
begin

section \<open>JSON strings (src/src/agg.c, \<open>jsonEscapeInto\<close>)\<close>

text \<open>
  How the payload of a text message is put between the quotes of the JSON object sent to the sink. The
  reader at the end of the section is not part of the program: it is RFC 8259's string syntax, and what
  the escaping is proved against.
\<close>

definition hexDigit :: "nat \<Rightarrow> byte" where
  "hexDigit n = (if n < 10 then of_nat (48 + n) else of_nat (87 + n))"

text \<open>The \<open>switch\<close>: the bytes written for one input byte (\<open>\<close> \<open>%04x\<close> of a value below 32).\<close>

definition jsonEsc :: "byte \<Rightarrow> byte list" where
  "jsonEsc c =
     (if c = 34 then [92, 34]
      else if c = 92 then [92, 92]
      else if c = 10 then [92, 110]
      else if c = 13 then [92, 114]
      else if c = 9 then [92, 116]
      else if c < 0x20 then [92, 117, 48, 48, hexDigit (unat c div 16), hexDigit (unat c mod 16)]
      else [c])"

text \<open>The loop; \<open>cap\<close> is the room still left, and a byte whose escape does not fit ends it.\<close>

fun jsonEscapeInto :: "nat \<Rightarrow> byte list \<Rightarrow> byte list" where
  "jsonEscapeInto cap [] = []"
| "jsonEscapeInto cap (c # cs) =
     (if cap < length (jsonEsc c) then []
      else jsonEsc c @ jsonEscapeInto (cap - length (jsonEsc c)) cs)"

lemma length_jsonEsc: "1 \<le> length (jsonEsc c) \<and> length (jsonEsc c) \<le> 6"
  by (simp add: jsonEsc_def)

lemma length_escaped: "length (concat (map jsonEsc cs)) \<le> 6 * length cs"
proof (induction cs)
  case Nil
  then show ?case by simp
next
  case (Cons c cs)
  with length_jsonEsc [of c] show ?case by simp
qed

lemma jsonEscapeInto_room:
  "length (concat (map jsonEsc cs)) \<le> cap \<Longrightarrow> jsonEscapeInto cap cs = concat (map jsonEsc cs)"
  by (induction cs arbitrary: cap) auto

subsection \<open>The reader\<close>

definition unhex :: "byte \<Rightarrow> nat option" where
  "unhex c =
     (if 48 \<le> c \<and> c \<le> 57 then Some (unat c - 48)
      else if 97 \<le> c \<and> c \<le> 102 then Some (unat c - 87)
      else if 65 \<le> c \<and> c \<le> 70 then Some (unat c - 55)
      else None)"

definition hex4 :: "byte \<Rightarrow> byte \<Rightarrow> byte \<Rightarrow> byte \<Rightarrow> nat option" where
  "hex4 a b c d = (case (unhex a, unhex b, unhex c, unhex d) of
     (Some w, Some x, Some y, Some z) \<Rightarrow> Some (4096 * w + 256 * x + 16 * y + z) | _ \<Rightarrow> None)"

definition json_simple :: "byte \<Rightarrow> byte option" where
  "json_simple e =
     (if e = 34 \<or> e = 92 \<or> e = 47 then Some e
      else if e = 98 then Some 8 else if e = 102 then Some 12 else if e = 110 then Some 10
      else if e = 114 then Some 13 else if e = 116 then Some 9 else None)"

text \<open>One character or escape sequence of a string, as the bytes it stands for.\<close>

definition json_unicode :: "byte list \<Rightarrow> (byte list \<times> byte list) option" where
  "json_unicode r = (case r of
     h1 # h2 # h3 # h4 # r' \<Rightarrow>
       (case hex4 h1 h2 h3 h4 of
          Some n \<Rightarrow> if scalar n then Some (utf8_enc n, r') else None
        | None \<Rightarrow> None)
   | _ \<Rightarrow> None)"

definition json_char :: "byte list \<Rightarrow> (byte list \<times> byte list) option" where
  "json_char s = (case s of
     [] \<Rightarrow> None
   | c # cs \<Rightarrow>
       if c = 34 \<or> c < 0x20 then None
       else if c \<noteq> 92 then Some ([c], cs)
       else (case cs of
           [] \<Rightarrow> None
         | e # r \<Rightarrow> if e = 117 then json_unicode r else map_option (\<lambda>b. ([b], r)) (json_simple e)))"

lemma json_char_shorter: "json_char s = Some (b, r) \<Longrightarrow> length r < length s"
  by (auto simp: json_char_def json_unicode_def split: list.splits if_splits option.splits)

text \<open>The text up to the closing quote, unescaped, and what follows the quote.\<close>

function json_string :: "byte list \<Rightarrow> (byte list \<times> byte list) option" where
  "json_string s = (case s of
     [] \<Rightarrow> None
   | c # cs \<Rightarrow>
       if c = 34 then Some ([], cs)
       else (case json_char s of
           None \<Rightarrow> None
         | Some (b, r) \<Rightarrow> map_option (\<lambda>(bs, r'). (b @ bs, r')) (json_string r)))"
  by pat_completeness auto
termination
  by (relation "measure length") (auto dest: json_char_shorter)

declare json_string.simps [simp del]

lemma unhex_hexDigit: "n < 16 \<Longrightarrow> unhex (hexDigit n) = Some n"
  by (auto simp: unhex_def hexDigit_def word_le_nat_alt unat_word_ariths unat_of_nat)

lemma hex_control: "n < 32 \<Longrightarrow> hex4 48 48 (hexDigit (n div 16)) (hexDigit (n mod 16)) = Some n"
proof -
  assume "n < 32"
  then have "unhex (hexDigit (n div 16)) = Some (n div 16)" by (intro unhex_hexDigit) simp
  moreover have "unhex 48 = Some 0" by (simp add: unhex_def)
  ultimately show ?thesis by (simp add: hex4_def unhex_hexDigit)
qed

lemma json_char_esc: "json_char (jsonEsc c @ r) = Some ([c], r)"
proof (cases "c = 34 \<or> c = 92 \<or> c = 10 \<or> c = 13 \<or> c = 9 \<or> \<not> c < 0x20")
  case True
  then show ?thesis by (auto simp: jsonEsc_def json_char_def json_simple_def)
next
  case False
  then have n: "unat c < 32" by (simp add: word_less_nat_alt)
  then have "hex4 48 48 (hexDigit (unat c div 16)) (hexDigit (unat c mod 16)) = Some (unat c)"
    by (rule hex_control)
  moreover have "utf8_enc (unat c) = [c]" using n by (simp add: utf8_enc_def)
  moreover have "scalar (unat c)" using n by (simp add: scalar_def)
  ultimately show ?thesis using False by (auto simp: jsonEsc_def json_char_def json_unicode_def)
qed

lemma hd_jsonEsc: "\<exists>x xs. jsonEsc c = x # xs \<and> x \<noteq> 34"
  by (auto simp: jsonEsc_def)

lemma json_string_escaped: "json_string (concat (map jsonEsc d) @ 34 # r) = Some (d, r)"
proof (induction d)
  case Nil
  then show ?case by (simp add: json_string.simps)
next
  case (Cons c d)
  let ?r = "concat (map jsonEsc d) @ 34 # r"
  obtain x xs where x: "jsonEsc c @ ?r = x # xs" "x \<noteq> 34" using hd_jsonEsc [of c] by auto
  then have "json_string (jsonEsc c @ ?r) =
      (case json_char (jsonEsc c @ ?r) of None \<Rightarrow> None
       | Some (b, q) \<Rightarrow> map_option (\<lambda>(bs, r'). (b @ bs, r')) (json_string q))"
    by (subst json_string.simps) simp
  with Cons show ?case by (simp add: json_char_esc)
qed

subsection \<open>Escaping keeps UTF-8 valid\<close>

lemma utf8_valid_append: "utf8_valid xs \<Longrightarrow> utf8_valid ys \<Longrightarrow> utf8_valid (xs @ ys)"
proof -
  assume "utf8_valid xs" and "utf8_valid ys"
  then obtain cs ds where "list_all scalar cs" "xs = concat (map utf8_enc cs)"
    "list_all scalar ds" "ys = concat (map utf8_enc ds)" by (auto simp: utf8_valid_encodings)
  then show ?thesis unfolding utf8_valid_encodings by (intro exI [of _ "cs @ ds"]) simp
qed

lemma utf8_valid_ascii: "list_all (\<lambda>c. c < 0x80) xs \<Longrightarrow> utf8_valid xs"
proof -
  assume ascii: "list_all (\<lambda>c. c < 0x80) xs"
  then have "concat (map utf8_enc (map unat xs)) = xs"
    by (induction xs) (auto simp: utf8_enc_def word_less_nat_alt)
  moreover have "list_all scalar (map unat xs)"
    using ascii by (auto simp: list_all_iff scalar_def word_less_nat_alt)
  ultimately show ?thesis unfolding utf8_valid_encodings by metis
qed

lemma jsonEsc_high: "0x80 \<le> c \<Longrightarrow> jsonEsc c = [c]"
  by (auto simp: jsonEsc_def word_le_nat_alt word_less_nat_alt)

lemma hexDigit_ascii: "n < 16 \<Longrightarrow> hexDigit n < 0x80"
  by (auto simp: hexDigit_def word_less_nat_alt unat_word_ariths unat_of_nat)

lemma jsonEsc_ascii: "c < 0x80 \<Longrightarrow> list_all (\<lambda>c. c < 0x80) (jsonEsc c)"
  using hexDigit_ascii [of "unat c div 16"] hexDigit_ascii [of "unat c mod 16"]
  by (auto simp: jsonEsc_def word_less_nat_alt)

lemma byte_high: "128 \<le> n \<Longrightarrow> n < 256 \<Longrightarrow> 0x80 \<le> (of_nat n :: byte)"
  by (simp add: word_le_nat_alt unat_byte)

lemma utf8_enc_high: "0x80 \<le> cp \<Longrightarrow> scalar cp \<Longrightarrow> list_all (\<lambda>c. 0x80 \<le> c) (utf8_enc cp)"
  by (auto simp: utf8_enc_def scalar_def simp del: of_nat_add of_nat_numeral intro!: byte_high)

lemma escaped_high: "list_all (\<lambda>c. 0x80 \<le> c) xs \<Longrightarrow> concat (map jsonEsc xs) = xs"
  by (induction xs) (simp_all add: jsonEsc_high)

lemma utf8_valid_escaped:
  assumes "utf8_valid d"
  shows "utf8_valid (concat (map jsonEsc d))"
proof -
  from assms obtain cps where cps: "list_all scalar cps" "d = concat (map utf8_enc cps)"
    by (auto simp: utf8_valid_encodings)
  have "utf8_valid (concat (map jsonEsc (utf8_enc cp)))" if "scalar cp" for cp
  proof (cases "cp < 0x80")
    case True
    then show ?thesis by (auto simp: utf8_enc_def word_less_nat_alt unat_byte intro!: utf8_valid_ascii jsonEsc_ascii)
  next
    case False
    then have "list_all (\<lambda>c. 0x80 \<le> c) (utf8_enc cp)" using that by (intro utf8_enc_high) simp_all
    then have "concat (map jsonEsc (utf8_enc cp)) = utf8_enc cp" by (rule escaped_high)
    with that show ?thesis unfolding utf8_valid_encodings by (intro exI [of _ "[cp]"]) simp
  qed
  with cps(1) show ?thesis unfolding cps(2)
    by (induction cps) (auto simp: utf8_valid_append utf8_valid_ascii)
qed

end
