(* ===== verification/Agg.thy ===== *)
theory Agg
  imports Conn Queue Ws Json
begin

section \<open>The aggregator's data (src/inc/agg.h, src/src/agg.c, first part)\<close>

text \<open>
  Messages, the list of parked sources, the table of sources and \<open>aggOnMessage\<close>, which turns a message
  into the frame for the sink. The shared state of the whole program is the record \<open>world\<close>: the
  operating system, the connections, the three queues and the aggregator. The array \<open>src\<close> with its
  count \<open>srcCount\<close> is the list of the entries in use.
\<close>

record AggSrc_t =
  asId :: u64
  asAlive :: bool
  asMsgCount :: u64
  asByteCount :: u64
  asLastTs :: timespec

record Agg_t =
  asrcs :: "AggSrc_t list"
  sink :: "nat option"
  aepollfd :: int
  pending :: "Frame_t option"
  pendingOff :: nat
  pendingCtrl :: "Frame_t option"
  pendingCtrlOff :: nat
  parkHead :: "nat option"
  parkTail :: "nat option"
  highWatermark :: nat
  lowWatermark :: nat
  statMsgsIn :: u64
  statBytesIn :: u64
  statMsgsOut :: u64

record world = conn_world +
  ingest :: "nat Queue_t"
  dataQueue :: "Msg_t Queue_t"
  ctrlQueue :: "Msg_t Queue_t"
  agg :: Agg_t

definition AGG_MAX_SOURCES :: nat where
  "AGG_MAX_SOURCES = 256"

subsection \<open>Messages\<close>

definition msgNewData :: "u64 \<Rightarrow> byte \<Rightarrow> byte list \<Rightarrow> 'a os_scheme \<Rightarrow> Msg_t option \<times> 'a os_scheme" where
  "msgNewData sid opcode payload s = (case os_alloc s of (ok, s1) \<Rightarrow>
     if \<not> ok then (None, s1)
     else case os_realtime s1 of (ts, s2) \<Rightarrow>
       (Some \<lparr>mkind = MSG_DATA, srcId = sid, mopcode = opcode, mts = ts, mconn = None, mdata = payload\<rparr>, s2))"

definition msgNewSrcDown :: "u64 \<Rightarrow> 'a os_scheme \<Rightarrow> Msg_t option \<times> 'a os_scheme" where
  "msgNewSrcDown sid s = (case os_alloc s of (ok, s1) \<Rightarrow>
     if \<not> ok then (None, s1)
     else (Some \<lparr>mkind = MSG_SRC_DOWN, srcId = sid, mopcode = 0, mts = \<lparr>tv_sec = 0, tv_nsec = 0\<rparr>,
                 mconn = None, mdata = []\<rparr>, s1))"

definition msgNewSinkAdd :: "nat \<Rightarrow> 'a os_scheme \<Rightarrow> Msg_t option \<times> 'a os_scheme" where
  "msgNewSinkAdd c s = (case os_alloc s of (ok, s1) \<Rightarrow>
     if \<not> ok then (None, s1)
     else (Some \<lparr>mkind = MSG_SINK_ADD, srcId = 0, mopcode = 0, mts = \<lparr>tv_sec = 0, tv_nsec = 0\<rparr>,
                 mconn = Some c, mdata = []\<rparr>, s1))"

subsection \<open>Parked sources\<close>

definition upd_agg :: "(Agg_t \<Rightarrow> Agg_t) \<Rightarrow> 'a world_scheme \<Rightarrow> 'a world_scheme" where
  "upd_agg f w = w\<lparr>agg := f (agg w)\<rparr>"

definition parkListPush :: "nat \<Rightarrow> 'a world_scheme \<Rightarrow> 'a world_scheme" where
  "parkListPush c w =
     (let w1 = upd_conn c (\<lambda>x. x\<lparr>parkNext := None\<rparr>) w;
          w2 = (case parkTail (agg w1) of
                  Some t \<Rightarrow> upd_conn t (\<lambda>x. x\<lparr>parkNext := Some c\<rparr>) w1
                | None \<Rightarrow> upd_agg (\<lambda>a. a\<lparr>parkHead := Some c\<rparr>) w1)
      in upd_agg (\<lambda>a. a\<lparr>parkTail := Some c\<rparr>) w2)"

definition parkListPop :: "'a world_scheme \<Rightarrow> (nat \<times> 'a world_scheme) option" where
  "parkListPop w = (case parkHead (agg w) of
       None \<Rightarrow> None
     | Some c \<Rightarrow>
         let w1 = upd_agg (\<lambda>a. a\<lparr>parkHead := link parkNext w c\<rparr>) w;
             w2 = (if parkHead (agg w1) = None then upd_agg (\<lambda>a. a\<lparr>parkTail := None\<rparr>) w1 else w1)
         in Some (c, upd_conn c (\<lambda>x. x\<lparr>parkNext := None\<rparr>) w2))"

definition aggInit :: "nat \<Rightarrow> nat \<Rightarrow> Agg_t" where
  "aggInit high low = \<lparr>asrcs = [], sink = None, aepollfd = -1, pending = None, pendingOff = 0,
     pendingCtrl = None, pendingCtrlOff = 0, parkHead = None, parkTail = None, highWatermark = high,
     lowWatermark = low, statMsgsIn = 0, statBytesIn = 0, statMsgsOut = 0\<rparr>"

text \<open>\<open>aggFreeState\<close>: its loop takes the parked sources off the list and frees their pending messages.\<close>

partial_function (option) aggFreeState :: "'a world_scheme \<Rightarrow> 'a world_scheme option" where
  "aggFreeState w = (case parkListPop w of
       None \<Rightarrow> Some w
     | Some (c, w1) \<Rightarrow> aggFreeState (upd_conn c (\<lambda>x. x\<lparr>pendingMsg := None\<rparr>) w1))"

subsection \<open>The table of sources\<close>

text \<open>The index of the entry, if there is one or room for one, and the table with it.\<close>

fun findSrc :: "u64 \<Rightarrow> AggSrc_t list \<Rightarrow> nat option" where
  "findSrc i [] = None"
| "findSrc i (s # ss) = (if asId s = i then Some 0 else map_option Suc (findSrc i ss))"

definition findOrCreateSrc :: "u64 \<Rightarrow> Agg_t \<Rightarrow> nat option \<times> Agg_t" where
  "findOrCreateSrc i a = (case findSrc i (asrcs a) of
       Some k \<Rightarrow> (Some k, a)
     | None \<Rightarrow>
         if AGG_MAX_SOURCES \<le> length (asrcs a) then (None, a)
         else (Some (length (asrcs a)),
               a\<lparr>asrcs := asrcs a @ [\<lparr>asId = i, asAlive = True, asMsgCount = 0, asByteCount = 0,
                                     asLastTs = \<lparr>tv_sec = 0, tv_nsec = 0\<rparr>\<rparr>]\<rparr>))"

definition aggSrcDown :: "u64 \<Rightarrow> Agg_t \<Rightarrow> Agg_t" where
  "aggSrcDown i a = (case findSrc i (asrcs a) of
       Some k \<Rightarrow> a\<lparr>asrcs := (asrcs a)[k := (asrcs a ! k)\<lparr>asAlive := False\<rparr>]\<rparr>
     | None \<Rightarrow> a)"

subsection \<open>From a message to a frame\<close>

text \<open>\<open>%06ld\<close>.\<close>

definition pad6 :: "nat \<Rightarrow> byte list" where
  "pad6 n = replicate (6 - length (dec n)) 48 @ dec n"

definition jsonPrefix :: "u64 \<Rightarrow> u64 \<Rightarrow> timespec \<Rightarrow> byte list" where
  "jsonPrefix sid sq ts =
     bytes ''{\"src\":'' @ dec (unat sid) @ bytes '',\"seq\":'' @ dec (unat sq) @ bytes '',\"t\":'' @
     dec (tv_sec ts) @ bytes ''.'' @ pad6 (tv_nsec ts div 1000) @ bytes '',\"data\":\"''"

text \<open>The text frame's payload in a buffer of \<open>len * 6 + 128\<close> bytes; \<open>snprintf\<close> keeps one for the NUL.\<close>

definition aggText :: "u64 \<Rightarrow> u64 \<Rightarrow> timespec \<Rightarrow> byte list \<Rightarrow> byte list" where
  "aggText sid sq ts payload =
     (let cap = length payload * 6 + 128;
          out = take (cap - 1) (jsonPrefix sid sq ts);
          n = length (jsonPrefix sid sq ts);
          esc = jsonEscapeInto (cap - n - 3) payload
      in out @ esc @ take (cap - (n + length esc) - 1) (bytes ''\"}''))"

text \<open>The bookkeeping of \<open>aggOnMessage\<close>: the message's number from its source, and the counters.\<close>

definition aggCount :: "Msg_t \<Rightarrow> Agg_t \<Rightarrow> u64 \<times> Agg_t" where
  "aggCount m a =
     (let (k, a1) = findOrCreateSrc (srcId m) a;
          a2 = (case k of None \<Rightarrow> a1
                | Some k \<Rightarrow>
                    let e = asrcs a1 ! k in
                    a1\<lparr>asrcs := (asrcs a1)[k := e\<lparr>asMsgCount := asMsgCount e + 1,
                        asByteCount := asByteCount e + of_nat (length (mdata m)),
                        asLastTs := mts m, asAlive := True\<rparr>]\<rparr>);
          a3 = a2\<lparr>statMsgsIn := statMsgsIn a2 + 1,
                  statBytesIn := statBytesIn a2 + of_nat (length (mdata m))\<rparr>
      in (case k of None \<Rightarrow> 0 | Some k \<Rightarrow> asMsgCount (asrcs a3 ! k), a3))"

definition aggOnMessage :: "Msg_t \<Rightarrow> Agg_t \<Rightarrow> 'a os_scheme \<Rightarrow> Frame_t option \<times> Agg_t \<times> 'a os_scheme" where
  "aggOnMessage m a s =
     (let (sq, a3) = aggCount m a;
          (f, s1) =
            (if mopcode m = WS_OP_BIN then frameNew WS_OP_BIN (mdata m) s
             else case os_alloc s of (ok, s1) \<Rightarrow>
               if \<not> ok then (None, s1)
               else frameNew WS_OP_TEXT (aggText (srcId m) sq (mts m) (mdata m)) s1)
      in (f, if f \<noteq> None then a3\<lparr>statMsgsOut := statMsgsOut a3 + 1\<rparr> else a3, s1))"

definition aggOnTick :: "Agg_t \<Rightarrow> timespec \<Rightarrow> Frame_t option" where
  "aggOnTick a now = None"

subsection \<open>The park list is a queue\<close>

definition parkShape :: "'a world_scheme \<Rightarrow> nat list \<Rightarrow> bool" where
  "parkShape w as \<longleftrightarrow> lpath (link parkNext w) (parkHead (agg w)) as \<and> parkTail (agg w) = last_of as \<and>
     set as \<subseteq> dom (conns w)"

definition parkInv :: "'a world_scheme \<Rightarrow> bool" where
  "parkInv w \<longleftrightarrow> finite (dom (conns w)) \<and> (\<exists>as. parkShape w as)"

definition parked :: "'a world_scheme \<Rightarrow> nat list" where
  "parked w = walk (link parkNext w) (parkHead (agg w)) (card (dom (conns w)))"

lemma parked_shape: "parkShape w as \<Longrightarrow> finite (dom (conns w)) \<Longrightarrow> parked w = as"
proof -
  assume sh: "parkShape w as" and fin: "finite (dom (conns w))"
  then have "distinct as" and "set as \<subseteq> dom (conns w)" by (auto simp: parkShape_def intro: lpath_distinct)
  then have "length as \<le> card (dom (conns w))" using fin by (metis card_mono distinct_card)
  with sh show ?thesis by (simp add: parkShape_def parked_def walk_long)
qed

lemma upd_agg_simps [simp]:
  "conns (upd_agg f w) = conns w" "agg (upd_agg f w) = f (agg w)" "link field (upd_agg f w) = link field w"
  "dataQueue (upd_agg f w) = dataQueue w" "ctrlQueue (upd_agg f w) = ctrlQueue w"
  by (simp_all add: upd_agg_def link_def fun_eq_iff)

lemma upd_conn_world_simps [simp]:
  "agg (upd_conn c f w) = agg w" "dataQueue (upd_conn c f w) = dataQueue w"
  "ctrlQueue (upd_conn c f w) = ctrlQueue w"
  by (simp_all add: upd_conn_def)

lemma parkShape_push:
  assumes "parkShape w as" and "c \<in> dom (conns w)" and "c \<notin> set as"
  shows "parkShape (parkListPush c w) (as @ [c])"
proof -
  let ?w1 = "upd_conn c (\<lambda>x. x\<lparr>parkNext := None\<rparr>) w"
  have nx1: "link parkNext ?w1 = (link parkNext w)(c := None)" using assms(2) by (simp add: link_upd_const)
  from assms have path: "lpath (link parkNext w) (parkHead (agg w)) as" and tail: "parkTail (agg w) = last_of as"
    and dom: "set as \<subseteq> dom (conns w)" by (simp_all add: parkShape_def)
  show ?thesis
  proof (cases as rule: rev_cases)
    case Nil
    with tail nx1 assms(2) show ?thesis
      by (simp add: parkShape_def parkListPush_def Let_def)
  next
    case (snoc bs l)
    let ?w2 = "upd_conn l (\<lambda>x. x\<lparr>parkNext := Some c\<rparr>) ?w1"
    have w: "parkListPush c w = upd_agg (\<lambda>a. a\<lparr>parkTail := Some c\<rparr>) ?w2"
      using tail snoc by (simp add: parkListPush_def Let_def)
    have "l \<in> dom (conns ?w1)" using dom snoc by auto
    then have nx2: "link parkNext ?w2 = (link parkNext w)(c := None, l := Some c)"
      by (simp add: link_upd_const nx1)
    have "lpath (link parkNext ?w2) (parkHead (agg w)) (bs @ [l, c])"
      unfolding nx2 using path assms(3) snoc by (intro lpath_snoc) simp_all
    then show ?thesis using w snoc dom assms(2) last_of_simps(2) [of as c] by (simp add: parkShape_def)
  qed
qed

lemma parkShape_pop:
  assumes "parkShape w as" and "parkListPop w = Some (c, w')"
  shows "as = c # tl as \<and> parkShape w' (tl as)"
proof -
  from assms(1) have path: "lpath (link parkNext w) (parkHead (agg w)) as" and tail: "parkTail (agg w) = last_of as"
    and dom: "set as \<subseteq> dom (conns w)" by (simp_all add: parkShape_def)
  from assms(2) have head: "parkHead (agg w) = Some c" by (auto simp: parkListPop_def Let_def split: option.splits)
  then obtain bs where as: "as = c # bs" using path by (cases as) auto
  have "link parkNext w c = (case bs of [] \<Rightarrow> None | b # _ \<Rightarrow> Some b)" using path as by (cases bs) auto
  then obtain f where w': "w' = upd_conn c (\<lambda>x. x\<lparr>parkNext := None\<rparr>) (upd_agg f w)"
    and f: "parkHead (f (agg w)) = link parkNext w c" "parkTail (f (agg w)) = last_of bs"
    using assms(2) tail as head by (cases bs) (auto simp: parkListPop_def Let_def upd_agg_def)
  have c: "c \<in> dom (conns w)" "c \<notin> set bs" using dom as lpath_distinct [OF path] by auto
  have "link parkNext w' = (link parkNext w)(c := None)" using c by (simp add: w' link_upd_const)
  then show ?thesis using path as dom c by (simp add: parkShape_def w' f)
qed

lemma parkListPush_simps [simp]:
  "dom (conns (parkListPush c w)) = dom (conns w)" "dataQueue (parkListPush c w) = dataQueue w"
  "ctrlQueue (parkListPush c w) = ctrlQueue w"
  by (simp_all add: parkListPush_def Let_def split: option.split)

lemma parkListPop_frame:
  "parkListPop w = Some (c, w') \<Longrightarrow> dom (conns w') = dom (conns w) \<and> dataQueue w' = dataQueue w \<and>
     ctrlQueue w' = ctrlQueue w \<and> pending (agg w') = pending (agg w) \<and> sink (agg w') = sink (agg w)"
proof -
  assume "parkListPop w = Some (c, w')"
  then obtain f where w': "w' = upd_conn c (\<lambda>x. x\<lparr>parkNext := None\<rparr>) (upd_agg f w)"
    and f: "pending (f (agg w)) = pending (agg w)" "sink (f (agg w)) = sink (agg w)"
    by (auto simp: parkListPop_def Let_def upd_agg_def split: option.splits if_splits)
  show ?thesis by (simp add: w' f)
qed

lemma parkListPop_None: "parkShape w as \<Longrightarrow> parkListPop w = None \<longleftrightarrow> as = []"
  by (cases as) (auto simp: parkShape_def parkListPop_def Let_def)

interpretation park: fifo parkListPush parkListPop parked parkInv
  "\<lambda>c w. c \<in> dom (conns w) \<and> c \<notin> set (parked w)"
proof unfold_locales
  fix w :: "'a world_scheme" and c
  assume inv: "parkInv w" and ok: "c \<in> dom (conns w) \<and> c \<notin> set (parked w)"
  then obtain as where fin: "finite (dom (conns w))" and sh: "parkShape w as" by (auto simp: parkInv_def)
  have p: "parked w = as" using sh fin by (rule parked_shape)
  then have sh': "parkShape (parkListPush c w) (as @ [c])" using ok sh by (intro parkShape_push) auto
  then show "parked (parkListPush c w) = parked w @ [c]" using fin p by (simp add: parked_shape)
  show "parkInv (parkListPush c w)" using sh' fin by (auto simp: parkInv_def)
next
  fix w :: "'a world_scheme"
  assume "parkInv w"
  then obtain as where fin: "finite (dom (conns w))" and sh: "parkShape w as" by (auto simp: parkInv_def)
  then show "parkListPop w = None \<longleftrightarrow> parked w = []" using parkListPop_None parked_shape by metis
next
  fix w :: "'a world_scheme" and c w'
  assume "parkInv w" and pop: "parkListPop w = Some (c, w')"
  then obtain as where fin: "finite (dom (conns w))" and sh: "parkShape w as" by (auto simp: parkInv_def)
  note p = parkShape_pop [OF sh pop] and fr = parkListPop_frame [OF pop]
  then have "parked w = c # parked w'" using parked_shape [OF sh fin] parked_shape [of w' "tl as"] fin by simp
  then show "parked w = c # parked w' \<and> parkInv w'" using p fr fin by (auto simp: parkInv_def)
qed

subsection \<open>What a text frame says\<close>

definition ts_ok :: "timespec \<Rightarrow> bool" where
  "ts_ok ts \<longleftrightarrow> tv_sec ts < 2 ^ 63 \<and> tv_nsec ts < 10 ^ 9"

lemma length_dec_u64: "length (dec (unat (x :: u64))) \<le> 20"
proof -
  have "unat x < 2 ^ 64" using unsigned_less [of x] by simp
  then have "unat x < 10 ^ 20" by simp
  then show ?thesis by (rule length_dec) simp
qed

lemma length_jsonPrefix:
  assumes "ts_ok ts"
  shows "length (jsonPrefix sid sq ts) \<le> 94"
proof -
  have "tv_sec ts < 10 ^ 19" and "tv_nsec ts div 1000 < 10 ^ 6" using assms by (auto simp: ts_ok_def)
  then have "length (dec (tv_sec ts)) \<le> 19" and "length (dec (tv_nsec ts div 1000)) \<le> 6"
    by (auto intro: length_dec)
  then show ?thesis
    using length_dec_u64 [of sid] length_dec_u64 [of sq] by (simp add: jsonPrefix_def pad6_def)
qed

lemma aggText_eq:
  assumes "ts_ok ts"
  shows "aggText sid sq ts payload = jsonPrefix sid sq ts @ concat (map jsonEsc payload) @ bytes ''\"}''"
proof -
  let ?cap = "length payload * 6 + 128" and ?n = "length (jsonPrefix sid sq ts)"
  have n: "?n \<le> 94" using assms by (rule length_jsonPrefix)
  have "length (concat (map jsonEsc payload)) \<le> ?cap - ?n - 3" using length_escaped [of payload] n by simp
  then have esc: "jsonEscapeInto (?cap - ?n - 3) payload = concat (map jsonEsc payload)"
    by (rule jsonEscapeInto_room)
  have "2 \<le> ?cap - (?n + length (concat (map jsonEsc payload))) - 1" using length_escaped [of payload] n by simp
  then have "take (?cap - (?n + length (concat (map jsonEsc payload))) - 1) (bytes ''\"}'') = bytes ''\"}''" by simp
  moreover have "take (?cap - 1) (jsonPrefix sid sq ts) = jsonPrefix sid sq ts" using n by simp
  ultimately show ?thesis unfolding aggText_def Let_def esc by simp
qed

lemma dec_ascii: "list_all (\<lambda>c. c < 0x80) (dec n)"
  using dec_digits [of n] by (auto simp: list_all_iff word_less_nat_alt)

lemma replicate_ascii: "list_all (\<lambda>c :: byte. c < 0x80) (replicate k 48)"
  by (simp add: list_all_iff)

lemma jsonPrefix_ascii: "list_all (\<lambda>c. c < 0x80) (jsonPrefix sid sq ts)"
  by (simp add: jsonPrefix_def pad6_def dec_ascii replicate_ascii bytes_def)

lemma aggText_valid:
  assumes "ts_ok ts" and "utf8_valid payload"
  shows "utf8_valid (aggText sid sq ts payload)"
proof -
  have "utf8_valid (bytes ''\"}'')" by (rule utf8_valid_ascii) (simp add: bytes_def)
  moreover have "utf8_valid (jsonPrefix sid sq ts)" by (rule utf8_valid_ascii) (rule jsonPrefix_ascii)
  ultimately show ?thesis
    unfolding aggText_eq [OF assms(1)] using utf8_valid_escaped [OF assms(2)] by (intro utf8_valid_append)
qed

lemma aggText_string:
  "ts_ok ts \<Longrightarrow> json_string (drop (length (jsonPrefix sid sq ts)) (aggText sid sq ts payload)) =
     Some (payload, bytes ''}'')"
  using json_string_escaped [of payload "bytes ''}''"] by (simp add: aggText_eq bytes_def)

subsection \<open>The table keeps the first 256 sources and numbers their messages\<close>

definition srcIds :: "Agg_t \<Rightarrow> u64 list" where
  "srcIds a = map asId (asrcs a)"

definition msgCountOf :: "Agg_t \<Rightarrow> u64 \<Rightarrow> u64" where
  "msgCountOf a i = (case findSrc i (asrcs a) of None \<Rightarrow> 0 | Some k \<Rightarrow> asMsgCount (asrcs a ! k))"

text \<open>The distinct ids of a list of messages, in the order of their first occurrence.\<close>

definition firstIds :: "u64 list \<Rightarrow> u64 list" where
  "firstIds is = rev (remdups (rev is))"

lemma firstIds_snoc: "firstIds (is @ [i]) = (if i \<in> set is then firstIds is else firstIds is @ [i])"
  by (simp add: firstIds_def)

lemma in_take_single: "x \<in> set (take k [y]) \<Longrightarrow> x = y"
  by (cases k) auto

lemma set_firstIds [simp]: "set (firstIds is) = set is"
  by (simp add: firstIds_def)

lemma findSrc_Some: "findSrc i ss = Some k \<Longrightarrow> k < length ss \<and> asId (ss ! k) = i"
  by (induction ss arbitrary: k) (auto split: if_splits)

lemma findSrc_None: "findSrc i ss = None \<longleftrightarrow> i \<notin> asId ` set ss"
  by (induction ss) auto

lemma findSrc_append: "findSrc i (ss @ [e]) =
    (case findSrc i ss of Some k \<Rightarrow> Some k | None \<Rightarrow> if asId e = i then Some (length ss) else None)"
  by (induction ss) (auto split: option.splits)

lemma findSrc_update: "k < length ss \<Longrightarrow> asId e = asId (ss ! k) \<Longrightarrow> findSrc i (ss[k := e]) = findSrc i ss"
proof (induction ss arbitrary: k)
  case Nil
  then show ?case by simp
next
  case (Cons s ss)
  then show ?case by (cases k) auto
qed

lemma map_asId_update: "k < length ss \<Longrightarrow> asId e = asId (ss ! k) \<Longrightarrow> map asId (ss[k := e]) = map asId ss"
  by (metis list_update_id map_update nth_map length_map)

lemma aggCount_ids:
  "srcIds (snd (aggCount m a)) =
     (if srcId m \<in> set (srcIds a) \<or> AGG_MAX_SOURCES \<le> length (srcIds a) then srcIds a else srcIds a @ [srcId m])"
proof (cases "findSrc (srcId m) (asrcs a)")
  case None
  then have "srcId m \<notin> set (srcIds a)" by (simp add: findSrc_None srcIds_def)
  with None show ?thesis
    by (auto simp: aggCount_def findOrCreateSrc_def Let_def srcIds_def list_update_append)
next
  case (Some k)
  then have "srcId m \<in> set (srcIds a)" using findSrc_None [of "srcId m" "asrcs a"] by (auto simp: srcIds_def)
  with Some findSrc_Some [OF Some] show ?thesis
    by (simp add: aggCount_def findOrCreateSrc_def Let_def srcIds_def map_asId_update)
qed

lemma aggCount_count:
  "msgCountOf (snd (aggCount m a)) i =
     (if i = srcId m \<and> i \<in> set (srcIds (snd (aggCount m a))) then msgCountOf a i + 1 else msgCountOf a i)"
  "fst (aggCount m a) =
     (if srcId m \<in> set (srcIds (snd (aggCount m a))) then msgCountOf (snd (aggCount m a)) (srcId m) else 0)"
proof -
  let ?a = "snd (aggCount m a)"
  have "msgCountOf ?a i = (if i = srcId m \<and> i \<in> set (srcIds ?a) then msgCountOf a i + 1 else msgCountOf a i) \<and>
    fst (aggCount m a) = (if srcId m \<in> set (srcIds ?a) then msgCountOf ?a (srcId m) else 0)"
  proof (cases "findSrc (srcId m) (asrcs a)")
    case None
    then have new: "srcId m \<notin> set (srcIds a)" by (simp add: findSrc_None srcIds_def)
    show ?thesis
    proof (cases "AGG_MAX_SOURCES \<le> length (asrcs a)")
      case True
      with None have "asrcs ?a = asrcs a" and "fst (aggCount m a) = 0"
        by (simp_all add: aggCount_def findOrCreateSrc_def Let_def)
      with new show ?thesis by (auto simp: msgCountOf_def srcIds_def split: option.split)
    next
      case False
      with None obtain e where e: "asrcs ?a = asrcs a @ [e]" "asId e = srcId m" "asMsgCount e = 1"
        "fst (aggCount m a) = 1"
        by (simp add: aggCount_def findOrCreateSrc_def Let_def list_update_append)
      have "findSrc i (asrcs a) = Some k \<Longrightarrow> (asrcs a @ [e]) ! k = asrcs a ! k" for k
        using findSrc_Some [of i "asrcs a" k] by (simp add: nth_append)
      then have "msgCountOf ?a i = (if i = srcId m then 1 else msgCountOf a i)" for i
        using None e findSrc_Some [of i "asrcs a"]
        by (auto simp: msgCountOf_def findSrc_append nth_append split: option.splits)
      with None e show ?thesis by (simp add: srcIds_def msgCountOf_def)
    qed
  next
    case (Some k)
    note k = findSrc_Some [OF Some]
    then have mem: "srcId m \<in> set (srcIds a)" using findSrc_None [of "srcId m" "asrcs a"] Some by (auto simp: srcIds_def)
    then have ids: "srcIds ?a = srcIds a" using aggCount_ids by simp
    obtain e where e: "asrcs ?a = (asrcs a)[k := e]" "asId e = srcId m"
      "asMsgCount e = asMsgCount (asrcs a ! k) + 1" "fst (aggCount m a) = asMsgCount (asrcs a ! k) + 1"
      using Some k by (simp add: aggCount_def findOrCreateSrc_def Let_def)
    have "findSrc i ((asrcs a)[k := e]) = findSrc i (asrcs a)" for i
      using k e by (intro findSrc_update) simp_all
    then have "msgCountOf ?a i = (if i = srcId m then msgCountOf a i + 1 else msgCountOf a i)" for i
      using Some k e findSrc_Some [of i "asrcs a"]
      by (auto simp: msgCountOf_def nth_list_update split: option.splits)
    with mem ids e Some show ?thesis by (auto simp: msgCountOf_def)
  qed
  then show "msgCountOf ?a i = (if i = srcId m \<and> i \<in> set (srcIds ?a) then msgCountOf a i + 1 else msgCountOf a i)"
    and "fst (aggCount m a) = (if srcId m \<in> set (srcIds ?a) then msgCountOf ?a (srcId m) else 0)" by simp_all
qed

text \<open>Processing a list of messages.\<close>

definition aggRun :: "Msg_t list \<Rightarrow> Agg_t \<times> 'a os_scheme \<Rightarrow> Agg_t \<times> 'a os_scheme" where
  "aggRun ms as = foldl (\<lambda>as m. snd (aggOnMessage m (fst as) (snd as))) as ms"

lemma aggOnMessage_srcs:
  "asrcs (fst (snd (aggOnMessage m a s))) = asrcs (snd (aggCount m a))"
  by (simp add: aggOnMessage_def Let_def split: prod.splits)

lemma msgCountOf_new: "i \<notin> set (srcIds a) \<Longrightarrow> msgCountOf a i = 0"
  using findSrc_None [of i "asrcs a"] by (simp add: msgCountOf_def srcIds_def)

lemma aggRun_table:
  "srcIds (fst (aggRun ms (aggInit h l, s))) = take 256 (firstIds (map srcId ms)) \<and>
   (\<forall>i. msgCountOf (fst (aggRun ms (aggInit h l, s))) i =
      (if i \<in> set (take 256 (firstIds (map srcId ms))) then of_nat (count_list (map srcId ms) i) else 0))"
proof (induction ms rule: rev_induct)
  case Nil
  then show ?case by (simp add: aggRun_def srcIds_def aggInit_def msgCountOf_def firstIds_def)
next
  case (snoc m ms)
  let ?as = "aggRun ms (aggInit h l, s)"
  let ?a = "fst ?as" and ?F = "firstIds (map srcId ms)" and ?i = "srcId m"
  have run: "aggRun (ms @ [m]) (aggInit h l, s) = snd (aggOnMessage m ?a (snd ?as))" by (simp add: aggRun_def)
  have tab: "srcIds (fst (aggRun (ms @ [m]) (aggInit h l, s))) = srcIds (snd (aggCount m ?a))"
    "msgCountOf (fst (aggRun (ms @ [m]) (aggInit h l, s))) i = msgCountOf (snd (aggCount m ?a)) i" for i
    unfolding run by (simp_all add: srcIds_def msgCountOf_def aggOnMessage_srcs split: option.split)
  have ids: "srcIds (snd (aggCount m ?a)) = take 256 (firstIds (map srcId (ms @ [m])))"
    using snoc aggCount_ids [of m ?a]
    by (auto simp: firstIds_snoc AGG_MAX_SOURCES_def min_def dest: in_set_takeD split: if_splits)
  have zero: "count_list (map srcId ms) i = 0" if "i \<in> set (take 256 (firstIds (map srcId (ms @ [m]))))"
    "i \<notin> set (take 256 ?F)" for i
  proof -
    have "?i \<notin> set (map srcId ms)" and "i = ?i"
      using that by (auto simp: firstIds_snoc split: if_splits dest: in_take_single)
    then show ?thesis by (simp only: count_list_0_iff not_False_eq_True)
  qed
  show ?case
  proof (intro conjI allI)
    show "srcIds (fst (aggRun (ms @ [m]) (aggInit h l, s))) = take 256 (firstIds (map srcId (ms @ [m])))"
      using tab ids by simp
    fix i
    have mono: "i \<in> set (take 256 ?F) \<Longrightarrow> i \<in> set (take 256 (firstIds (map srcId (ms @ [m]))))"
      by (auto simp: firstIds_snoc)
    show "msgCountOf (fst (aggRun (ms @ [m]) (aggInit h l, s))) i =
      (if i \<in> set (take 256 (firstIds (map srcId (ms @ [m]))))
       then of_nat (count_list (map srcId (ms @ [m])) i) else 0)"
      using snoc tab(2) [of i] aggCount_count(1) [of m ?a i] ids zero [of i] mono
      by (cases "i \<in> set (take 256 (firstIds (map srcId (ms @ [m]))))") auto
  qed
qed

subsection \<open>Properties\<close>

definition data_msg :: "u64 \<Rightarrow> byte list \<Rightarrow> Msg_t" where
  "data_msg i d = \<lparr>mkind = MSG_DATA, srcId = i, mopcode = WS_OP_TEXT, mts = \<lparr>tv_sec = 5, tv_nsec = 42000\<rparr>,
     mconn = None, mdata = d\<rparr>"

text \<open>C12: What the sink reads for a text message: the frame \<open>aggOnMessage\<close> builds is one unmasked text
  frame whose payload is the JSON object's opening with the source's id, the message's number and its
  time, then the message, whose escaped form a JSON reader turns back into exactly the bytes received,
  then the closing brace, with nothing cut off by the fixed-size buffer; and when the message is valid
  UTF-8 the whole payload is, so the sink never gets an invalid text frame.\<close>

theorem aggOnMessage_text:
  fixes s :: "'a os_scheme"
  assumes "mopcode m \<noteq> WS_OP_BIN" and "ts_ok (mts m)" and "utf8_valid (mdata m)" and "length (mdata m) < 2 ^ 60"
  shows "case fst (aggOnMessage m a s) of None \<Rightarrow> mallocs s \<noteq> []
    | Some f \<Rightarrow> \<exists>txt. frame_next f = Some ((server_hdr WS_OP_TEXT (of_nat (length txt)), txt), []) \<and>
        utf8_valid txt \<and>
        take (length (jsonPrefix (srcId m) (fst (aggCount m a)) (mts m))) txt =
          jsonPrefix (srcId m) (fst (aggCount m a)) (mts m) \<and>
        json_string (drop (length (jsonPrefix (srcId m) (fst (aggCount m a)) (mts m))) txt) =
          Some (mdata m, bytes ''}'')"
proof (cases "fst (aggOnMessage m a s)")
  case None
  with assms(1) have "mallocs s \<noteq> []"
    by (auto simp: aggOnMessage_def Let_def frameNew_def os_alloc_def split: prod.splits if_splits list.splits)
  with None show ?thesis by simp
next
  case (Some f)
  let ?txt = "aggText (srcId m) (fst (aggCount m a)) (mts m) (mdata m)"
  obtain s1 s' :: "'a os_scheme" where fr: "frameNew WS_OP_TEXT ?txt s1 = (Some f, s')"
    using assms(1) Some by (auto simp: aggOnMessage_def Let_def split: prod.splits if_splits)
  have "length ?txt \<le> 94 + 6 * length (mdata m) + 2"
    using length_jsonPrefix [OF assms(2), of "srcId m" "fst (aggCount m a)"] length_escaped [of "mdata m"]
    by (simp add: aggText_eq [OF assms(2)])
  then have "length ?txt < 2 ^ 63" using assms(4) by simp
  then have "frame_next f = Some ((server_hdr WS_OP_TEXT (of_nat (length ?txt)), ?txt), [])"
    by (intro frameNew_text [OF fr])
  moreover have "take (length (jsonPrefix (srcId m) (fst (aggCount m a)) (mts m))) ?txt =
      jsonPrefix (srcId m) (fst (aggCount m a)) (mts m)"
    by (simp add: aggText_eq [OF assms(2)])
  ultimately show ?thesis unfolding Some option.case
    using aggText_valid [OF assms(2,3)] aggText_string [OF assms(2)] by blast
qed

theorem aggOnMessage_text_witness:
  "case fst (aggOnMessage (data_msg 7 (bytes ''a\"b'')) (aggInit 256 128) os_idle) of None \<Rightarrow> mallocs os_idle \<noteq> []
    | Some f \<Rightarrow> \<exists>txt. frame_next f = Some ((server_hdr WS_OP_TEXT (of_nat (length txt)), txt), []) \<and>
        utf8_valid txt \<and>
        take (length (jsonPrefix (srcId (data_msg 7 (bytes ''a\"b'')))
            (fst (aggCount (data_msg 7 (bytes ''a\"b'')) (aggInit 256 128))) (mts (data_msg 7 (bytes ''a\"b''))))) txt =
          jsonPrefix (srcId (data_msg 7 (bytes ''a\"b'')))
            (fst (aggCount (data_msg 7 (bytes ''a\"b'')) (aggInit 256 128))) (mts (data_msg 7 (bytes ''a\"b''))) \<and>
        json_string (drop (length (jsonPrefix (srcId (data_msg 7 (bytes ''a\"b'')))
            (fst (aggCount (data_msg 7 (bytes ''a\"b'')) (aggInit 256 128))) (mts (data_msg 7 (bytes ''a\"b''))))) txt) =
          Some (mdata (data_msg 7 (bytes ''a\"b'')), bytes ''}'')"
  by (rule aggOnMessage_text)
    (simp_all add: data_msg_def ws_op_defs ts_ok_def utf8_valid_ascii bytes_def)

text \<open>C31: Binary messages are passed on unchanged: the frame holds exactly the payload, with opcode binary,
  and only a failed allocation can lose it.\<close>

theorem aggOnMessage_binary:
  fixes s :: "'a os_scheme"
  assumes "mopcode m = WS_OP_BIN" and "length (mdata m) < 2 ^ 63"
  shows "case fst (aggOnMessage m a s) of None \<Rightarrow> mallocs s \<noteq> []
    | Some f \<Rightarrow> frame_next f = Some ((server_hdr WS_OP_BIN (of_nat (length (mdata m))), mdata m), [])"
proof (cases "fst (aggOnMessage m a s)")
  case None
  with assms(1) have "mallocs s \<noteq> []"
    by (auto simp: aggOnMessage_def Let_def frameNew_def os_alloc_def split: prod.splits if_splits list.splits)
  with None show ?thesis by simp
next
  case (Some f)
  then obtain s' :: "'a os_scheme" where "frameNew WS_OP_BIN (mdata m) s = (Some f, s')"
    using assms(1) by (auto simp: aggOnMessage_def Let_def split: prod.splits if_splits)
  from frameNew_data [OF this assms(2)] Some show ?thesis by simp
qed

theorem aggOnMessage_binary_witness:
  "case fst (aggOnMessage (data_msg 7 [0]\<lparr>mopcode := WS_OP_BIN\<rparr>) (aggInit 256 128) os_idle) of
      None \<Rightarrow> mallocs os_idle \<noteq> []
    | Some f \<Rightarrow> frame_next f = Some ((server_hdr WS_OP_BIN
        (of_nat (length (mdata (data_msg 7 [0]\<lparr>mopcode := WS_OP_BIN\<rparr>)))), mdata (data_msg 7 [0]\<lparr>mopcode := WS_OP_BIN\<rparr>)), [])"
  by (rule aggOnMessage_binary) (simp_all add: data_msg_def)

text \<open>C32: Numbering. After any messages from a fresh aggregator, the table holds the first 256 distinct sources
  in order of appearance (never more than the array has room for, none twice), and the next message of
  such a source is numbered with its count so far plus one, without gaps; a message of any further
  source is numbered 0.\<close>

theorem agg_numbering:
  "srcIds (fst (aggRun ms (aggInit h l, s))) = take 256 (firstIds (map srcId ms)) \<and>
   fst (aggCount m (fst (aggRun ms (aggInit h l, s)))) =
     (if srcId m \<in> set (take 256 (firstIds (map srcId (ms @ [m]))))
      then of_nat (count_list (map srcId ms) (srcId m) + 1) else 0)"
proof -
  have "aggRun (ms @ [m]) (aggInit h l, s) =
      snd (aggOnMessage m (fst (aggRun ms (aggInit h l, s))) (snd (aggRun ms (aggInit h l, s))))"
    by (simp add: aggRun_def)
  then have tab: "srcIds (fst (aggRun (ms @ [m]) (aggInit h l, s))) =
      srcIds (snd (aggCount m (fst (aggRun ms (aggInit h l, s)))))"
    "msgCountOf (fst (aggRun (ms @ [m]) (aggInit h l, s))) (srcId m) =
      msgCountOf (snd (aggCount m (fst (aggRun ms (aggInit h l, s))))) (srcId m)"
    by (simp_all add: srcIds_def msgCountOf_def aggOnMessage_srcs split: option.split)
  show ?thesis
    using aggRun_table [of ms h l s] aggRun_table [of "ms @ [m]" h l s]
      aggCount_count(2) [of m "fst (aggRun ms (aggInit h l, s))"] tab
    by (auto simp: count_list_append add.commute)
qed

end
