(* ===== verification/Sink.thy ===== *)
theory Sink
  imports Agg
begin

section \<open>The aggregator and its sink (src/src/agg.c, second part)\<close>

text \<open>
  The functions of the aggregator thread, on the shared \<open>world\<close>: handing frames to the sink with one
  data slot and one control slot, adopting and closing sinks, reading what the sink sends, resuming
  parked sources, the pump, the drain at shutdown and the event loop. The pump and the other loops over
  a queue are partial functions (\<open>None\<close> is a loop that does not end, or a dereference of \<open>NULL\<close>); that
  they return is proved from the invariants.
\<close>

definition closePayload :: "u16 \<Rightarrow> byte list" where
  "closePayload code = [ucast (drop_bit 8 code), ucast code]"

function sendSome :: "int \<Rightarrow> byte list \<Rightarrow> 'a os_scheme \<Rightarrow> 'a os_scheme" where
  "sendSome fd bs s =
     (if bs = [] then s
      else case os_send fd bs s of (r, s1) \<Rightarrow>
        (case r of IoN n \<Rightarrow> if n = 0 then s1 else sendSome fd (drop n bs) s1 | _ \<Rightarrow> s1))"
  by pat_completeness auto
termination
  by (relation "measure (\<lambda>(fd, bs, s). length bs)") auto

declare sendSome.simps [simp del]

definition sendCloseBestEffort :: "int \<Rightarrow> u16 \<Rightarrow> 'a os_scheme \<Rightarrow> 'a os_scheme" where
  "sendCloseBestEffort fd code s = (case frameNew WS_OP_CLOSE (closePayload code) s of
       (None, s1) \<Rightarrow> s1
     | (Some f, s1) \<Rightarrow> sendSome fd f s1)"

definition sinkFd :: "nat \<Rightarrow> 'a conn_world_scheme \<Rightarrow> int" where
  "sinkFd c w = (case conns w c of None \<Rightarrow> -1 | Some x \<Rightarrow> cfd x)"

definition closeSink :: "'a world_scheme \<Rightarrow> 'a world_scheme" where
  "closeSink w = (case sink (agg w) of
       None \<Rightarrow> w
     | Some c \<Rightarrow> upd_agg (\<lambda>a. a\<lparr>sink := None,
           pendingOff := if pending a \<noteq> None then 0 else pendingOff a, pending := None,
           pendingCtrlOff := if pendingCtrl a \<noteq> None then 0 else pendingCtrlOff a, pendingCtrl := None\<rparr>)
         (connClose c w))"

definition adoptSink :: "nat \<Rightarrow> 'a world_scheme \<Rightarrow> 'a world_scheme" where
  "adoptSink newSink w =
     (let w1 = (case sink (agg w) of
            Some c \<Rightarrow> closeSink (sendCloseBestEffort (sinkFd c w) 1001 w)
          | None \<Rightarrow> w);
          w2 = upd_conn newSink (\<lambda>x. x\<lparr>cepollfd := aepollfd (agg w1), role := ROLE_SINK\<rparr>) w1;
          w3 = upd_agg (\<lambda>a. a\<lparr>sink := Some newSink\<rparr>) w2
      in snd (os_epoll_ctl (aepollfd (agg w3)) EPOLL_CTL_ADD (sinkFd newSink w3) [EPOLLIN] w3))"

definition push_data :: "Msg_t \<Rightarrow> 'a world_scheme \<Rightarrow> int \<times> 'a world_scheme" where
  "push_data m w = (case push m (dataQueue w) w of (rc, q, w1) \<Rightarrow> (rc, w1\<lparr>dataQueue := q\<rparr>))"

definition resumeParked :: "nat \<Rightarrow> 'a world_scheme \<Rightarrow> 'a world_scheme option" where
  "resumeParked c w = (case conns w c of None \<Rightarrow> None
     | Some x \<Rightarrow> (case pendingMsg x of None \<Rightarrow> None
         | Some m \<Rightarrow>
             let w1 = snd (push_data m w);
                 w2 = upd_conn c (\<lambda>x. x\<lparr>pendingMsg := None\<rparr>) w1;
                 events = [EPOLLIN, EPOLLET, EPOLLRDHUP, EPOLLONESHOT] @
                   (if 0 < bufLen (tx x) then [EPOLLOUT] else [])
             in Some (snd (os_epoll_ctl (cepollfd x) EPOLL_CTL_ADD (cfd x) events w2))))"

function sinkFlushLoop :: "int \<Rightarrow> Frame_t \<Rightarrow> nat \<Rightarrow> 'a os_scheme \<Rightarrow> int \<times> nat \<times> 'a os_scheme" where
  "sinkFlushLoop fd f pos s =
     (if pos < length f then
        (case os_send fd (drop pos f) s of (r, s1) \<Rightarrow>
           (case r of
              IoN n \<Rightarrow> if 0 < n then sinkFlushLoop fd f (pos + n) s1 else (-1, pos, s1)
            | IoAgain \<Rightarrow> (0, pos, s1)
            | _ \<Rightarrow> (-1, pos, s1)))
      else (1, pos, s))"
  by pat_completeness auto
termination
  by (relation "measure (\<lambda>(fd, f, pos, s). length f - pos)") auto

declare sinkFlushLoop.simps [simp del]

definition sinkFlushOne ::
  "int \<Rightarrow> Frame_t option \<Rightarrow> nat \<Rightarrow> 'a os_scheme \<Rightarrow> int \<times> Frame_t option \<times> nat \<times> 'a os_scheme" where
  "sinkFlushOne fd slot pos s = (case slot of None \<Rightarrow> (1, None, pos, s)
     | Some f \<Rightarrow> (case sinkFlushLoop fd f pos s of (rc, pos1, s1) \<Rightarrow>
         if rc = 1 then (1, None, 0, s1) else (rc, Some f, pos1, s1)))"

definition sinkFlush :: "'a world_scheme \<Rightarrow> int \<times> 'a world_scheme" where
  "sinkFlush w = (case sink (agg w) of None \<Rightarrow> (1, w)
     | Some c \<Rightarrow>
         let fd = sinkFd c w;
             (rc, slot, pos, w1) = sinkFlushOne fd (pendingCtrl (agg w)) (pendingCtrlOff (agg w)) w;
             w2 = upd_agg (\<lambda>a. a\<lparr>pendingCtrl := slot, pendingCtrlOff := pos\<rparr>) w1
         in if rc \<le> 0 then (rc, w2)
            else
              let (rc, slot, pos, w3) = sinkFlushOne fd (pending (agg w2)) (pendingOff (agg w2)) w2
              in (rc, upd_agg (\<lambda>a. a\<lparr>pending := slot, pendingOff := pos\<rparr>) w3))"

definition sinkArm :: "'a world_scheme \<Rightarrow> 'a world_scheme" where
  "sinkArm w = (case sink (agg w) of None \<Rightarrow> w
     | Some c \<Rightarrow>
         let want = [EPOLLIN] @ (if pending (agg w) \<noteq> None \<or> pendingCtrl (agg w) \<noteq> None then [EPOLLOUT] else [])
         in snd (os_epoll_ctl (aepollfd (agg w)) EPOLL_CTL_MOD (sinkFd c w) want w))"

text \<open>\<open>sinkReadAndHandle\<close>: the receive loop (the result says whether the sink is gone), \<dots>\<close>

function sinkRecv :: "int \<Rightarrow> Buf_t \<Rightarrow> 'a os_scheme \<Rightarrow> bool \<times> Buf_t \<times> 'a os_scheme" where
  "sinkRecv fd b s =
     (case bufReserve b 4096 (65536 + 64) s of (rc, b1, s1) \<Rightarrow>
        if rc \<noteq> 0 then (True, b1, s1)
        else case os_recv fd (cap b1 - blen b1) s1 of (r, s2) \<Rightarrow>
          (case r of
             RxData bs \<Rightarrow> if bs \<noteq> [] then sinkRecv fd (b1\<lparr>bp := bp b1 @ bs\<rparr>) s2 else (True, b1, s2)
           | RxAgain \<Rightarrow> (False, b1, s2)
           | _ \<Rightarrow> (True, b1, s2)))"
  by pat_completeness auto
termination
  by (relation "measure (\<lambda>(fd, b, s). rx_weight (rxs s fd))")
    (auto dest!: bufReserve_frame [OF sym] os_recv_weight [OF sym])

declare sinkRecv.simps [simp del]

lemma hHeaderLen_ge: "wsParseHeader b = WS_OK h \<Longrightarrow> 2 \<le> hHeaderLen h"
  using wsParseHeader_sound(1) [of b h] by (simp add: hdr_valid_def hdr_encode_def)

text \<open>\<dots> and the loop over the complete frames; 0 closes the sink.\<close>

function sinkFrames :: "int \<Rightarrow> Buf_t \<Rightarrow> 'a world_scheme \<Rightarrow> int \<times> Buf_t \<times> 'a world_scheme" where
  "sinkFrames fd b w = (case wsParseHeader (bufData b) of
       WS_NEED_MORE \<Rightarrow> (1, b, w)
     | WS_ERR_PROTO \<Rightarrow> (0, b, sendCloseBestEffort fd 1002 w)
     | WS_OK h \<Rightarrow>
         let n = unat (hPayloadLen h); tot = hHeaderLen h + n in
         if bufLen b < tot then (1, b, w)
         else
           let raw = take n (drop (hHeaderLen h) (bufData b));
               payload = (if hMasked h then wsUnmask raw (hMaskKey h) else raw);
               b1 = bufPatch b (hHeaderLen h) payload
           in if hOpcode h = WS_OP_PING then
                let w1 = (if pendingCtrl (agg w) = None then
                            (case frameNew WS_OP_PONG payload w of (f, w1) \<Rightarrow>
                               upd_agg (\<lambda>a. a\<lparr>pendingCtrl := f, pendingCtrlOff := 0\<rparr>) w1)
                          else w)
                in sinkFrames fd (bufConsume b1 tot) w1
              else if hOpcode h = WS_OP_CLOSE then
                (0, bufConsume b1 tot, sendCloseBestEffort fd 1000 w)
              else sinkFrames fd (bufConsume b1 tot) w)"
  by pat_completeness auto

lemma consume_shorter:
  assumes "0 < tot" and "tot \<le> bufLen b" and "i + length xs \<le> tot"
  shows "bufLen (bufConsume (bufPatch b i xs) tot) < bufLen b"
proof -
  have "blen (bufPatch b i xs) = blen b" using assms by (simp add: bufPatch_def bufLen_def)
  then have "bufLen (bufPatch b i xs) = bufLen b" by (simp add: bufLen_def) (simp add: bufPatch_def)
  with assms show ?thesis by (simp add: bufLen_bufConsume)
qed

termination sinkFrames
  by (relation "measure (\<lambda>(fd, b, w). bufLen b)")
    (auto intro!: consume_shorter simp: Let_def dest!: hHeaderLen_ge)

declare sinkFrames.simps [simp del]

definition sinkReadAndHandle :: "nat \<Rightarrow> 'a world_scheme \<Rightarrow> bool \<times> 'a world_scheme" where
  "sinkReadAndHandle c w = (case conns w c of None \<Rightarrow> (False, w)
     | Some x \<Rightarrow>
         let (eof, b, w1) = sinkRecv (cfd x) (rx x) w;
             (rc, b1, w2) = sinkFrames (cfd x) b w1;
             w3 = upd_conn c (\<lambda>x. x\<lparr>rx := b1\<rparr>) w2
         in (if rc = 0 then False else \<not> eof, w3))"

subsection \<open>The pump\<close>

definition pumpResume :: "'a world_scheme \<Rightarrow> 'a world_scheme option" where
  "pumpResume w =
     (if queueSize (dataQueue w) \<le> lowWatermark (agg w) then
        (case parkListPop w of None \<Rightarrow> Some w | Some (c, w1) \<Rightarrow> resumeParked c w1)
      else Some w)"

definition pumpEncode :: "Msg_t \<Rightarrow> 'a world_scheme \<Rightarrow> 'a world_scheme" where
  "pumpEncode m w = (case aggOnMessage m (agg w) w of (f, a, w1) \<Rightarrow>
     w1\<lparr>agg := if f \<noteq> None then a\<lparr>pending := f, pendingOff := 0\<rparr> else a\<rparr>)"

partial_function (option) aggPump :: "'a world_scheme \<Rightarrow> 'a world_scheme option" where
  "aggPump w =
     (if sink (agg w) = None then Some w
      else case sinkFlush w of (rc, w1) \<Rightarrow>
        if rc < 0 then Some (closeSink w1)
        else if rc = 0 then Some (sinkArm w1)
        else Option.bind (pumpResume w1) (\<lambda>w2.
          case trypop (dataQueue w2) of
            None \<Rightarrow> Some (sinkArm w2)
          | Some (m, q) \<Rightarrow> aggPump (pumpEncode m (w2\<lparr>dataQueue := q\<rparr>))))"

text \<open>The body of the loops over \<open>ctrlQueue\<close>, which the thread runs first in each round and at the end.\<close>

definition handleCtrl :: "Msg_t \<Rightarrow> 'a world_scheme \<Rightarrow> 'a world_scheme" where
  "handleCtrl m w = (case mkind m of
       MSG_SINK_ADD \<Rightarrow> (case mconn m of Some c \<Rightarrow> adoptSink c w | None \<Rightarrow> w)
     | MSG_SRC_DOWN \<Rightarrow> upd_agg (aggSrcDown (srcId m)) w
     | MSG_DATA \<Rightarrow> w)"

partial_function (option) aggCtrlLoop :: "'a world_scheme \<Rightarrow> 'a world_scheme option" where
  "aggCtrlLoop w = (case trypop (ctrlQueue w) of
       None \<Rightarrow> Some w
     | Some (m, q) \<Rightarrow> aggCtrlLoop (handleCtrl m (w\<lparr>ctrlQueue := q\<rparr>)))"

definition drainOne :: "Msg_t \<Rightarrow> 'a world_scheme \<Rightarrow> 'a world_scheme" where
  "drainOne m w = (case sink (agg w) of
       Some c \<Rightarrow>
         if mkind m = MSG_DATA then
           (case aggOnMessage m (agg w) w of
              (None, a, w1) \<Rightarrow> w1\<lparr>agg := a\<rparr>
            | (Some f, a, w1) \<Rightarrow>
                (case sinkFlushOne (sinkFd c w1) (Some f) 0 w1 of (rc, slot, pos, w2) \<Rightarrow> w2\<lparr>agg := a\<rparr>))
         else w
     | None \<Rightarrow> w)"

partial_function (option) aggDataDrain :: "'a world_scheme \<Rightarrow> 'a world_scheme option" where
  "aggDataDrain w = (case trypop (dataQueue w) of
       None \<Rightarrow> Some w
     | Some (m, q) \<Rightarrow> aggDataDrain (drainOne m (w\<lparr>dataQueue := q\<rparr>)))"

definition aggDrainForShutdown :: "'a world_scheme \<Rightarrow> 'a world_scheme option" where
  "aggDrainForShutdown w = Option.bind (aggCtrlLoop w) aggDataDrain"

subsection \<open>The thread\<close>

text \<open>What the round of the \<open>for (;;)\<close> loop before \<open>epoll_wait\<close> decides.\<close>

datatype agg_next = AggBreak | AggWait

definition aggRound :: "'a world_scheme \<Rightarrow> (agg_next \<times> 'a world_scheme) option" where
  "aggRound w = Option.bind (aggCtrlLoop w) (\<lambda>w1. Option.bind (aggPump w1) (\<lambda>w2.
     let dataDone = queueIsShutdown (dataQueue w2) \<and> queueSize (dataQueue w2) = 0;
         ctrlDone = queueIsShutdown (ctrlQueue w2) \<and> queueSize (ctrlQueue w2) = 0
     in if dataDone \<and> ctrlDone then Some (AggBreak, w2)
        else if queueIsShutdown (dataQueue w2) \<and> sink (agg w2) = None then
          map_option (\<lambda>w3. (AggBreak, w3)) (aggDrainForShutdown w2)
        else Some (AggWait, w2)))"

datatype agg_event = AEvWakeData | AEvWakeCtrl | AEvTimer | AEvConn nat "ep_flag list"

definition aggEvent :: "agg_event \<Rightarrow> 'a world_scheme \<Rightarrow> 'a world_scheme" where
  "aggEvent e w = (case e of
       AEvWakeData \<Rightarrow> w\<lparr>dataQueue := evRead (dataQueue w)\<rparr>
     | AEvWakeCtrl \<Rightarrow> w\<lparr>ctrlQueue := evRead (ctrlQueue w)\<rparr>
     | AEvTimer \<Rightarrow>
         (case os_realtime w of (now, w1) \<Rightarrow>
            (case aggOnTick (agg w1) now of
               None \<Rightarrow> w1
             | Some f \<Rightarrow> if pending (agg w1) \<noteq> None then w1
                         else upd_agg (\<lambda>a. a\<lparr>pending := Some f, pendingOff := 0\<rparr>) w1))
     | AEvConn c evs \<Rightarrow>
         if Some c \<noteq> sink (agg w) then w
         else if EPOLLHUP \<in> set evs \<or> EPOLLERR \<in> set evs then closeSink w
         else if EPOLLIN \<in> set evs then
           (case sinkReadAndHandle c w of (alive, w1) \<Rightarrow> if \<not> alive then closeSink w1 else w1)
         else w)"

text \<open>One round: the queues, then the events \<open>epoll_wait\<close> reported. The boolean says that the loop goes on.\<close>

definition aggIterate :: "agg_event list \<Rightarrow> 'a world_scheme \<Rightarrow> (bool \<times> 'a world_scheme) option" where
  "aggIterate evs w = map_option (\<lambda>(next, w1). case next of
       AggBreak \<Rightarrow> (False, w1)
     | AggWait \<Rightarrow> (True, fold aggEvent evs w1)) (aggRound w)"

definition aggFinish :: "int \<Rightarrow> 'a world_scheme \<Rightarrow> 'a world_scheme option" where
  "aggFinish tmfd w =
     (let w1 = (case sink (agg w) of
            Some c \<Rightarrow> closeSink (sendCloseBestEffort (sinkFd c w) 1001 w)
          | None \<Rightarrow> w)
      in map_option (\<lambda>w2.
           let w3 = (if tmfd \<noteq> -1 then os_close tmfd w2 else w2)
           in os_close (aepollfd (agg w3)) w3) (aggFreeState w1))"

definition logStatsAlive :: "Agg_t \<Rightarrow> nat" where
  "logStatsAlive a = length (filter asAlive (asrcs a))"

end
