(* ===== verification/Upstream.thy ===== *)
theory Upstream
  imports Config Http Sink
begin

section \<open>The upstream reactor (src/src/ws_client.c)\<close>

text \<open>
  One thread serves all upstream connections: it connects to the servers given on the command line, does
  the client's side of the handshake, reads their messages into \<open>dataQueue\<close>, and reconnects with a growing
  delay. A client is a record; the functions take the reactor's epoll descriptor, the client and the
  world, and return the client changed. What \<open>getaddrinfo\<close>, \<open>connect\<close> and \<open>getsockopt\<close> answer is an argument.
\<close>

datatype UpstreamState_t =
    UPSTREAM_DISCONNECTED | UPSTREAM_CONNECTING | UPSTREAM_HANDSHAKE | UPSTREAM_OPEN | UPSTREAM_CLOSING

record UpstreamClient_t =
  uid :: u64
  ufd :: int
  uchost :: "byte list"
  ucport :: int
  ucpath :: "byte list"
  ustate :: UpstreamState_t
  urx :: Buf_t
  utx :: Buf_t
  umsg :: Buf_t
  uopcode :: byte
  ufrag :: bool
  uutf8 :: Utf8St_t
  expectedAccept :: "byte list"
  reconnectAtMs :: u64
  reconnectAttempt :: u32
  upending :: "Msg_t option"
  readPaused :: bool

record UpstreamReactor_t =
  upEpollfd :: int
  upClients :: "UpstreamClient_t list"
  upCapacity :: nat
  upNextId :: u64

subsection \<open>Creating and destroying\<close>

text \<open>\<open>epfd\<close> is what \<open>epoll_create1\<close> returns.\<close>

definition upstreamCreate :: "int \<Rightarrow> 'a os_scheme \<Rightarrow> UpstreamReactor_t option \<times> 'a os_scheme" where
  "upstreamCreate epfd s = (case os_alloc s of (ok, s1) \<Rightarrow>
     if \<not> ok then (None, s1)
     else if epfd < 0 then (None, s1)
     else (Some \<lparr>upEpollfd = epfd, upClients = [], upCapacity = 0, upNextId = 1000000\<rparr>, s1))"

definition client_zero :: UpstreamClient_t where
  "client_zero = \<lparr>uid = 0, ufd = 0, uchost = [], ucport = 0, ucpath = [], ustate = UPSTREAM_DISCONNECTED,
     urx = buf_empty, utx = buf_empty, umsg = buf_empty, uopcode = 0, ufrag = False, uutf8 = wsUtf8Reset,
     expectedAccept = replicate 29 0, reconnectAtMs = 0, reconnectAttempt = 0, upending = None, readPaused = False\<rparr>"

text \<open>\<open>snprintf\<close> cuts the host and the path to the 256 bytes of their arrays.\<close>

definition upstreamAdd ::
  "UpstreamReactor_t \<Rightarrow> byte list \<Rightarrow> int \<Rightarrow> byte list \<Rightarrow> 'a os_scheme \<Rightarrow> int \<times> UpstreamReactor_t \<times> 'a os_scheme" where
  "upstreamAdd r host prt path s =
     (if prt \<le> 0 \<or> 65535 < prt then (-1, r, s)
      else
        let full = (length (upClients r) = upCapacity r);
            newCapacity = (if upCapacity r = 0 then 4 else upCapacity r * 2);
            (ok, s1) = (if full then os_alloc s else (True, s))
        in if \<not> ok then (-1, r, s1)
        else
          let r1 = (if full then r\<lparr>upCapacity := newCapacity\<rparr> else r)
          in case os_alloc s1 of (ok, s2) \<Rightarrow>
            if \<not> ok then (-1, r1, s2)
            else
              let c = client_zero\<lparr>uid := upNextId r1, ufd := -1, ucport := prt, uchost := take 255 (cstr host),
                        ucpath := take 255 (cstr path), ustate := UPSTREAM_DISCONNECTED, reconnectAtMs := 0,
                        reconnectAttempt := 0, uutf8 := wsUtf8Reset\<rparr>
              in (0, r1\<lparr>upNextId := upNextId r1 + 1, upClients := upClients r1 @ [c]\<rparr>, s2))"

definition destroyClient :: "int \<Rightarrow> UpstreamClient_t \<Rightarrow> 'a os_scheme \<Rightarrow> 'a os_scheme" where
  "destroyClient ep c s =
     (if 0 \<le> ufd c then os_close (ufd c) (snd (os_epoll_ctl ep EPOLL_CTL_DEL (ufd c) [] s)) else s)"

definition upstreamDestroy :: "UpstreamReactor_t \<Rightarrow> 'a os_scheme \<Rightarrow> 'a os_scheme" where
  "upstreamDestroy r s =
     (let s1 = fold (destroyClient (upEpollfd r)) (upClients r) s
      in if 0 \<le> upEpollfd r then os_close (upEpollfd r) s1 else s1)"

subsection \<open>Random bytes, time and the reconnect delay\<close>

function randomBytes :: "nat \<Rightarrow> 'a os_scheme \<Rightarrow> byte list option \<times> 'a os_scheme" where
  "randomBytes n s =
     (if n = 0 then (Some [], s)
      else case os_getrandom n s of (r, s1) \<Rightarrow>
        (case r of
           RndData bs \<Rightarrow>
             if bs \<noteq> [] then (case randomBytes (n - length bs) s1 of (rest, s2) \<Rightarrow> (map_option ((@) bs) rest, s2))
             else (None, s1)
         | RndIntr \<Rightarrow> randomBytes n s1
         | RndErr \<Rightarrow> (None, s1)))"
  by pat_completeness auto
termination
  by (relation "measure (\<lambda>(n, s). n + length (rands s))")
    (auto simp: os_getrandom_def split: list.splits rand_res.splits)

declare randomBytes.simps [simp del]

definition nowMs :: "'a os_scheme \<Rightarrow> u64 \<times> 'a os_scheme" where
  "nowMs s = (case os_monotonic s of (ts, s1) \<Rightarrow>
     (of_nat (tv_sec ts) * 1000 + of_nat (tv_nsec ts div 1000000), s1))"

function delayLoop :: "u64 \<Rightarrow> u32 \<Rightarrow> u64" where
  "delayLoop delay attempt =
     (if 0 < attempt \<and> delay < 30000 then delayLoop (delay * 2) (attempt - 1) else delay)"
  by pat_completeness auto
termination
  by (relation "measure (\<lambda>(delay, attempt). unat attempt)") (auto simp: word_gt_0 intro: measure_unat)

declare delayLoop.simps [simp del]

definition reconnectDelayMs :: "u32 \<Rightarrow> u64" where
  "reconnectDelayMs attempt =
     (let delay = delayLoop 1000 attempt in if 30000 < delay then 30000 else delay)"

subsection \<open>Connecting\<close>

definition updateEvents :: "int \<Rightarrow> UpstreamClient_t \<Rightarrow> 'a os_scheme \<Rightarrow> int \<times> 'a os_scheme" where
  "updateEvents ep c s =
     (if ufd c < 0 then (-1, s)
      else
        let events = [EPOLLRDHUP] @
              (if \<not> readPaused c \<and> (ustate c = UPSTREAM_HANDSHAKE \<or> ustate c = UPSTREAM_OPEN) then [EPOLLIN] else []) @
              (if ustate c = UPSTREAM_CONNECTING \<or> 0 < bufLen (utx c) then [EPOLLOUT] else [])
        in os_epoll_ctl ep EPOLL_CTL_MOD (ufd c) events s)"

definition bumpAttempt :: "u32 \<Rightarrow> u32" where
  "bumpAttempt n = (if n < 10 then n + 1 else n)"

definition upstreamDisconnect :: "int \<Rightarrow> UpstreamClient_t \<Rightarrow> 'a os_scheme \<Rightarrow> UpstreamClient_t \<times> 'a os_scheme" where
  "upstreamDisconnect ep c s =
     (let s1 = (if 0 \<le> ufd c then os_close (ufd c) (snd (os_epoll_ctl ep EPOLL_CTL_DEL (ufd c) [] s)) else s);
          delay = reconnectDelayMs (reconnectAttempt c);
          (now, s2) = nowMs s1
      in (c\<lparr>ufd := if 0 \<le> ufd c then -1 else ufd c, urx := bufReset (urx c), utx := bufReset (utx c),
            umsg := bufReset (umsg c), ufrag := False, readPaused := False, upending := None,
            ustate := UPSTREAM_DISCONNECTED, reconnectAttempt := bumpAttempt (reconnectAttempt c),
            reconnectAtMs := now + delay\<rparr>, s2))"

text \<open>One entry for each address \<open>getaddrinfo\<close> found: how \<open>socket\<close>, \<open>fcntl\<close> and \<open>connect\<close> went.\<close>

datatype connect_res = SocketFails | NonblockFails int | ConnectStarted int | ConnectFails int

fun connectLoop :: "connect_res list \<Rightarrow> 'a os_scheme \<Rightarrow> int \<times> 'a os_scheme" where
  "connectLoop [] s = (-1, s)"
| "connectLoop (SocketFails # rs) s = connectLoop rs s"
| "connectLoop (NonblockFails fd # rs) s = connectLoop rs (os_close fd s)"
| "connectLoop (ConnectStarted fd # rs) s = (fd, s)"
| "connectLoop (ConnectFails fd # rs) s = connectLoop rs (os_close fd s)"

text \<open>\<open>None\<close> is a failure of \<open>getaddrinfo\<close>.\<close>

definition upstreamConnect ::
  "int \<Rightarrow> connect_res list option \<Rightarrow> UpstreamClient_t \<Rightarrow> 'a os_scheme \<Rightarrow> int \<times> UpstreamClient_t \<times> 'a os_scheme" where
  "upstreamConnect ep addrs c s = (case addrs of None \<Rightarrow> (-1, c, s)
     | Some rs \<Rightarrow> (case connectLoop rs s of (fd, s1) \<Rightarrow>
         if fd < 0 then (-1, c, s1)
         else
           let c1 = c\<lparr>ufd := fd, ustate := UPSTREAM_CONNECTING\<rparr>
           in case os_epoll_ctl ep EPOLL_CTL_ADD fd [EPOLLOUT, EPOLLRDHUP] s1 of (rc, s2) \<Rightarrow>
             if rc \<noteq> 0 then (-1, c1\<lparr>ufd := -1\<rparr>, os_close fd s2) else (0, c1, s2)))"

text \<open>\<open>err\<close> is the socket's error, or \<open>None\<close> if \<open>getsockopt\<close> fails.\<close>

definition upstreamConnectComplete :: "int option \<Rightarrow> int" where
  "upstreamConnectComplete err = (case err of None \<Rightarrow> -1 | Some e \<Rightarrow> if e \<noteq> 0 then -1 else 0)"

subsection \<open>The handshake\<close>

definition handshakeText :: "byte list \<Rightarrow> byte list \<Rightarrow> int \<Rightarrow> byte list \<Rightarrow> byte list" where
  "handshakeText path host prt key =
     bytes ''GET '' @ path @ bytes '' HTTP/1.1'' @ CRLF @
     bytes ''Host: '' @ host @ bytes '':'' @ dec (nat prt) @ CRLF @
     bytes ''Upgrade: websocket'' @ CRLF @
     bytes ''Connection: Upgrade'' @ CRLF @
     bytes ''Sec-WebSocket-Key: '' @ key @ CRLF @
     bytes ''Sec-WebSocket-Version: 13'' @ CRLF @ CRLF"

definition queueHandshake :: "int \<Rightarrow> UpstreamClient_t \<Rightarrow> 'a os_scheme \<Rightarrow> int \<times> UpstreamClient_t \<times> 'a os_scheme" where
  "queueHandshake ep c s = (case randomBytes 16 s of
       (None, s1) \<Rightarrow> (-1, c, s1)
     | (Some nonce, s1) \<Rightarrow>
         let key = base64Encode nonce
         in case wsComputeAccept key of None \<Rightarrow> (-1, c, s1)
         | Some acc \<Rightarrow>
             let c1 = c\<lparr>expectedAccept := acc\<rparr>;
                 request = handshakeText (ucpath c) (uchost c) (ucport c) key
             in if 1024 \<le> length request then (-1, c1, s1)
                else (case bufAppend (bufReset (utx c1)) request s1 of (b, s2) \<Rightarrow>
                  let c2 = c1\<lparr>utx := b, ustate := UPSTREAM_HANDSHAKE\<rparr>
                  in case updateEvents ep c2 s2 of (rc, s3) \<Rightarrow> (rc, c2, s3)))"

definition processHandshakeResponse ::
  "int \<Rightarrow> ServerConfig_t \<Rightarrow> UpstreamClient_t \<Rightarrow> 'a os_scheme \<Rightarrow> int \<times> UpstreamClient_t \<times> 'a os_scheme" where
  "processHandshakeResponse ep conf c s =
     (let data = bufData (urx c)
      in case httpFindHeaderEnd data of
           None \<Rightarrow> (if handshakeMax conf < length data then -1 else 0, c, s)
         | Some e \<Rightarrow>
             let headerLen = e + 4; hdr = take headerLen data;
                 upgrade = httpFindHeader hdr (bytes ''Upgrade'');
                 connection = httpFindHeader hdr (bytes ''Connection'');
                 acc = httpFindHeader hdr (bytes ''Sec-WebSocket-Accept'')
             in if headerLen < 12 \<or> take 12 data \<noteq> bytes ''HTTP/1.1 101'' then (-1, c, s)
                else if upgrade = None \<or> \<not> httpHeaderHasToken (the upgrade) (bytes ''websocket'') then (-1, c, s)
                else if connection = None \<or> \<not> httpHeaderHasToken (the connection) (bytes ''Upgrade'') then (-1, c, s)
                else if acc = None \<or> length (the acc) \<noteq> 28 \<or> the acc \<noteq> take 28 (expectedAccept c) then (-1, c, s)
                else
                  let c1 = c\<lparr>urx := bufConsume (urx c) headerLen, ustate := UPSTREAM_OPEN, reconnectAttempt := 0\<rparr>
                  in case updateEvents ep c1 s of (rc, s1) \<Rightarrow> (rc, c1, s1))"

text \<open>The loop of \<open>flushUpstreamTx\<close>: 0, or -1 when \<open>send\<close> fails or takes nothing.\<close>

function upFlushLoop :: "int \<Rightarrow> Buf_t \<Rightarrow> 'a os_scheme \<Rightarrow> int \<times> Buf_t \<times> 'a os_scheme" where
  "upFlushLoop fd b s =
     (if 0 < bufLen b then
        (case os_send fd (bufData b) s of (r, s1) \<Rightarrow>
           (case r of
              IoN n \<Rightarrow> if 0 < n then upFlushLoop fd (bufConsume b n) s1 else (-1, b, s1)
            | IoIntr \<Rightarrow> upFlushLoop fd b s1
            | IoAgain \<Rightarrow> (0, b, s1)
            | IoErr \<Rightarrow> (-1, b, s1)))
      else (0, b, s))"
  by pat_completeness auto
termination
  by (relation "measures [\<lambda>(fd, b, s). bufLen b, \<lambda>(fd, b, s). length (txs s fd)]")
    (auto simp: bufLen_bufConsume dest!: os_send_intr_shorter [OF sym])

declare upFlushLoop.simps [simp del]

definition flushUpstreamTx :: "int \<Rightarrow> UpstreamClient_t \<Rightarrow> 'a os_scheme \<Rightarrow> int \<times> UpstreamClient_t \<times> 'a os_scheme" where
  "flushUpstreamTx ep c s = (case upFlushLoop (ufd c) (utx c) s of (rc, b, s1) \<Rightarrow>
     let c1 = c\<lparr>utx := b\<rparr>
     in if rc \<noteq> 0 then (-1, c1, s1)
        else (case updateEvents ep c1 s1 of (rc, s2) \<Rightarrow> (if rc \<noteq> 0 then -1 else 0, c1, s2)))"

subsection \<open>Frames to the server\<close>

definition maskedHeader :: "byte \<Rightarrow> u64 \<Rightarrow> byte list" where
  "maskedHeader opcode len =
     [0x80 OR (opcode AND 0x0F)] @
     (if len \<le> 125 then [0x80 OR ucast len]
      else if len \<le> 0xFFFF then [0x80 OR 126, ucast (drop_bit 8 len), ucast len]
      else (0x80 OR 127) # map (\<lambda>i. ucast (drop_bit (8 * i) len)) (rev [0..<8]))"

definition queueMaskedFrame :: "int \<Rightarrow> UpstreamClient_t \<Rightarrow> byte \<Rightarrow> byte list \<Rightarrow> 'a os_scheme \<Rightarrow>
    int \<times> UpstreamClient_t \<times> 'a os_scheme" where
  "queueMaskedFrame ep c opcode payload s = (case randomBytes 4 s of
       (None, s1) \<Rightarrow> (-1, c, s1)
     | (Some mk, s1) \<Rightarrow>
         (case bufAppend (utx c) (maskedHeader opcode (of_nat (length payload)) @ mk) s1 of (b, s2) \<Rightarrow>
            let c1 = c\<lparr>utx := b\<rparr>
            in if payload = [] then (case updateEvents ep c1 s2 of (rc, s3) \<Rightarrow> (rc, c1, s3))
               else (case os_alloc s2 of (ok, s3) \<Rightarrow>
                 if \<not> ok then (-1, c1, s3)
                 else
                   let masked = map (\<lambda>i. payload ! i XOR mk ! (i AND 3)) [0..<length payload]
                   in case bufAppend (utx c1) masked s3 of (b, s4) \<Rightarrow>
                     let c2 = c1\<lparr>utx := b\<rparr>
                     in case updateEvents ep c2 s4 of (rc, s5) \<Rightarrow> (rc, c2, s5))))"

definition beginClose :: "int \<Rightarrow> UpstreamClient_t \<Rightarrow> u16 \<Rightarrow> 'a os_scheme \<Rightarrow> int \<times> UpstreamClient_t \<times> 'a os_scheme" where
  "beginClose ep c code s =
     queueMaskedFrame ep (c\<lparr>ustate := UPSTREAM_CLOSING\<rparr>) WS_OP_CLOSE [ucast (drop_bit 8 code), ucast code] s"

subsection \<open>Frames from the server\<close>

text \<open>
  A round of the loop of \<open>processBufferedFrames\<close>: return a value, continue, or a message is complete. Every
  protocol error closes and returns 0, or -1 when the close frame cannot be queued.
\<close>

datatype up_out = UpReturn int | UpContinue | UpComplete

definition upFail :: "int \<Rightarrow> UpstreamClient_t \<Rightarrow> u16 \<Rightarrow> 'a os_scheme \<Rightarrow> up_out \<times> UpstreamClient_t \<times> 'a os_scheme" where
  "upFail ep c code s = (case beginClose ep c code s of (rc, c1, s1) \<Rightarrow> (UpReturn (if rc \<noteq> 0 then -1 else 0), c1, s1))"

definition upControl :: "int \<Rightarrow> WsFrameHdr_t \<Rightarrow> byte list \<Rightarrow> nat \<Rightarrow> UpstreamClient_t \<Rightarrow> 'a os_scheme \<Rightarrow>
    up_out \<times> UpstreamClient_t \<times> 'a os_scheme" where
  "upControl ep h payload frameLen c s =
     (if \<not> hFin h \<or> 125 < length payload then upFail ep c 1002 s
      else if hOpcode h = WS_OP_PING then
        (case queueMaskedFrame ep c WS_OP_PONG payload s of (rc, c1, s1) \<Rightarrow>
           if rc \<noteq> 0 then (UpReturn (-1), c1, s1)
           else (UpContinue, c1\<lparr>urx := bufConsume (urx c1) frameLen\<rparr>, s1))
      else if hOpcode h = WS_OP_CLOSE then
        (if length payload = 1 then upFail ep c 1002 s
         else
           let c1 = c\<lparr>urx := bufConsume (urx c) frameLen, ustate := UPSTREAM_CLOSING\<rparr>
           in case queueMaskedFrame ep c1 WS_OP_CLOSE payload s of (rc, c2, s1) \<Rightarrow>
             (UpReturn (if rc \<noteq> 0 then -1 else 0), c2, s1))
      else (UpContinue, c\<lparr>urx := bufConsume (urx c) frameLen\<rparr>, s))"

definition upDataOpen :: "int \<Rightarrow> ServerConfig_t \<Rightarrow> bool \<Rightarrow> byte list \<Rightarrow> nat \<Rightarrow> UpstreamClient_t \<Rightarrow> 'a os_scheme \<Rightarrow>
    up_out \<times> UpstreamClient_t \<times> 'a os_scheme" where
  "upDataOpen ep conf fin payload frameLen c s =
     (let current = bufLen (umsg c)
      in if maxMessage conf < current \<or> maxMessage conf - current < length payload then upFail ep c 1009 s
      else
        let (rc, st) = (if uopcode c = WS_OP_TEXT \<and> 0 < length payload then wsUtf8Feed (uutf8 c) payload
                        else (0, uutf8 c));
            c1 = c\<lparr>uutf8 := st\<rparr>
        in if rc \<noteq> 0 then upFail ep c1 1007 s
        else
          let (b, s1) = bufAppend (umsg c1) payload s;
              c2 = c1\<lparr>umsg := b, urx := bufConsume (urx c1) frameLen\<rparr>
          in if \<not> fin then (UpContinue, c2, s1)
          else
            let c3 = c2\<lparr>ufrag := False\<rparr>
            in if uopcode c3 = WS_OP_TEXT \<and> \<not> wsUtf8Done (uutf8 c3) then upFail ep c3 1007 s1
               else (UpComplete, c3, s1))"

definition upData :: "int \<Rightarrow> ServerConfig_t \<Rightarrow> WsFrameHdr_t \<Rightarrow> byte list \<Rightarrow> nat \<Rightarrow> UpstreamClient_t \<Rightarrow> 'a os_scheme \<Rightarrow>
    up_out \<times> UpstreamClient_t \<times> 'a os_scheme" where
  "upData ep conf h payload frameLen c s =
     (if hOpcode h = WS_OP_CONT then
        (if \<not> ufrag c then upFail ep c 1002 s
         else upDataOpen ep conf (hFin h) payload frameLen c s)
      else if hOpcode h = WS_OP_TEXT \<or> hOpcode h = WS_OP_BIN then
        (if ufrag c then upFail ep c 1002 s
         else upDataOpen ep conf (hFin h) payload frameLen
           (c\<lparr>uopcode := hOpcode h, ufrag := True, umsg := bufReset (umsg c), uutf8 := wsUtf8Reset\<rparr>) s)
      else upFail ep c 1002 s)"

definition upFrameStep :: "int \<Rightarrow> ServerConfig_t \<Rightarrow> UpstreamClient_t \<Rightarrow> 'a os_scheme \<Rightarrow>
    up_out \<times> UpstreamClient_t \<times> 'a os_scheme" where
  "upFrameStep ep conf c s = (case wsParseHeader (bufData (urx c)) of
       WS_NEED_MORE \<Rightarrow> (UpReturn 0, c, s)
     | WS_ERR_PROTO \<Rightarrow> upFail ep c 1002 s
     | WS_OK h \<Rightarrow>
         if hMasked h then upFail ep c 1002 s
         else
           let n = unat (hPayloadLen h); frameLen = hHeaderLen h + n
           in if maxFrame conf < n then upFail ep c 1009 s
              else if 2 ^ 64 - 1 - hHeaderLen h < n then (UpReturn (-1), c, s)
              else if bufLen (urx c) < frameLen then (UpReturn 0, c, s)
              else
                let payload = take n (drop (hHeaderLen h) (bufData (urx c)))
                in if hOpcode h AND 0x08 \<noteq> 0 then upControl ep h payload frameLen c s
                   else upData ep conf h payload frameLen c s)"

text \<open>1 is a pause at the high watermark. A message the queue has no memory for is lost.\<close>

definition publishReactorMessage :: "int \<Rightarrow> ServerConfig_t \<Rightarrow> UpstreamClient_t \<Rightarrow> 'a world_scheme \<Rightarrow>
    int \<times> UpstreamClient_t \<times> 'a world_scheme" where
  "publishReactorMessage ep conf c w =
     (case msgNewData (uid c) (uopcode c) (bufData (umsg c)) w of
        (None, w1) \<Rightarrow> (0, c, w1)
      | (Some m, w1) \<Rightarrow>
          if confHigh conf \<le> queueSize (dataQueue w1) then
            (case updateEvents ep (c\<lparr>upending := Some m, readPaused := True\<rparr>) w1 of (rc, w2) \<Rightarrow>
               if rc \<noteq> 0 then (-1, c\<lparr>upending := None, readPaused := False\<rparr>, w2)
               else (1, c\<lparr>upending := Some m, readPaused := True\<rparr>, w2))
          else (0, c, snd (push_data m w1)))"

text \<open>Handling a frame reads nothing from the socket, and every round that goes on consumes a frame.\<close>

lemma updateEvents_os:
  "updateEvents ep c s = (rc, s') \<Longrightarrow> os.more s' = os.more s \<and> rxs s' = rxs s \<and> txs s' = txs s \<and> wire s' = wire s \<and>
     mallocs s' = mallocs s \<and> closed s' = closed s \<and> rands s' = rands s \<and>
     (ep_rets s = [] \<longrightarrow> ep_rets s' = [] \<and> rc = (if ufd c < 0 then -1 else 0))"
  by (auto simp: updateEvents_def os_epoll_ctl_def Let_def split: if_splits list.splits)

lemma randomBytes_os:
  "randomBytes n s = (r, s') \<Longrightarrow> os.more s' = os.more s \<and> rxs s' = rxs s \<and> txs s' = txs s \<and> wire s' = wire s \<and>
     mallocs s' = mallocs s \<and> closed s' = closed s \<and> ep_rets s' = ep_rets s \<and> (\<forall>bs. r = Some bs \<longrightarrow> length bs = n)"
proof (induction n s arbitrary: r s' rule: randomBytes.induct)
  case (1 n s)
  show ?case
  proof (cases "n = 0")
    case True
    then show ?thesis using "1.prems" by (auto simp: randomBytes.simps)
  next
    case False
    obtain q s1 where get: "os_getrandom n s = (q, s1)" by fastforce
    have s1: "os.more s1 = os.more s \<and> rxs s1 = rxs s \<and> txs s1 = txs s \<and> wire s1 = wire s \<and> mallocs s1 = mallocs s \<and>
        closed s1 = closed s \<and> ep_rets s1 = ep_rets s \<and> (\<forall>bs. q = RndData bs \<longrightarrow> length bs \<le> n)"
      using get by (auto simp: os_getrandom_def split: list.splits rand_res.splits)
    show ?thesis
    proof (cases q)
      case (RndData bs)
      obtain r2 s2 where rest: "randomBytes (n - length bs) s1 = (r2, s2)" by fastforce
      from "1.prems" False get RndData rest
      have res: "(r, s') = (if bs = [] then (None, s1) else (map_option ((@) bs) r2, s2))"
        by (auto simp: randomBytes.simps [of n s])
      show ?thesis
      proof (cases "bs = []")
        case False
        from "1.IH"(1) [OF \<open>n \<noteq> 0\<close> get [symmetric] RndData False rest] res False s1 RndData
        show ?thesis by auto
      qed (use res s1 in simp)
    next
      case RndIntr
      have "randomBytes n s1 = (r, s')" using "1.prems" False get RndIntr by (simp add: randomBytes.simps [of n s])
      from "1.IH"(2) [OF False get [symmetric] RndIntr this] s1 show ?thesis by auto
    next
      case RndErr
      then show ?thesis using "1.prems" False get s1 by (simp add: randomBytes.simps [of n s])
    qed
  qed
qed

text \<open>What handling a frame leaves of a client: everything but its buffers, the assembly state and \<open>ustate\<close>.\<close>

definition sameUp :: "UpstreamClient_t \<Rightarrow> UpstreamClient_t \<Rightarrow> bool" where
  "sameUp c c' \<longleftrightarrow> c'\<lparr>ustate := ustate c, urx := urx c, utx := utx c, umsg := umsg c, uopcode := uopcode c,
     ufrag := ufrag c, uutf8 := uutf8 c\<rparr> = c"

lemma sameUp_refl [simp]: "sameUp c c"
  by (simp add: sameUp_def)

lemma sameUp_trans [trans]: "sameUp x y \<Longrightarrow> sameUp y z \<Longrightarrow> sameUp x z"
  unfolding sameUp_def by (cases x, cases y, cases z) simp

lemma sameUp_fields:
  assumes "sameUp c c'"
  shows "uid c' = uid c" "ufd c' = ufd c" "uchost c' = uchost c" "ucport c' = ucport c" "ucpath c' = ucpath c"
    "expectedAccept c' = expectedAccept c" "reconnectAtMs c' = reconnectAtMs c"
    "reconnectAttempt c' = reconnectAttempt c" "upending c' = upending c" "readPaused c' = readPaused c"
  using assms unfolding sameUp_def by (cases c, cases c', simp)+

lemma sameUp_upd [simp]:
  "sameUp c (c'\<lparr>ustate := st\<rparr>) = sameUp c c'" "sameUp c (c'\<lparr>urx := b\<rparr>) = sameUp c c'"
  "sameUp c (c'\<lparr>utx := b\<rparr>) = sameUp c c'" "sameUp c (c'\<lparr>umsg := b\<rparr>) = sameUp c c'"
  "sameUp c (c'\<lparr>uopcode := op\<rparr>) = sameUp c c'" "sameUp c (c'\<lparr>ufrag := fr\<rparr>) = sameUp c c'"
  "sameUp c (c'\<lparr>uutf8 := u\<rparr>) = sameUp c c'"
  unfolding sameUp_def by (cases c, cases c', simp)+

definition stepKeeps :: "UpstreamClient_t \<Rightarrow> 'a os_scheme \<Rightarrow> UpstreamClient_t \<Rightarrow> 'a os_scheme \<Rightarrow> bool" where
  "stepKeeps c s c' s' \<longleftrightarrow> sameUp c c' \<and> rxs s' = rxs s \<and> txs s' = txs s \<and> wire s' = wire s \<and> closed s' = closed s \<and>
     os.more s' = os.more s \<and> (mallocs s = [] \<longrightarrow> mallocs s' = []) \<and> (ep_rets s = [] \<longrightarrow> ep_rets s' = [])"

lemma stepKeeps_refl [simp]: "stepKeeps c s c s"
  by (simp add: stepKeeps_def)

lemma stepKeeps_trans [trans]: "stepKeeps a s b t \<Longrightarrow> stepKeeps b t c u \<Longrightarrow> stepKeeps a s c u"
  by (auto simp: stepKeeps_def intro: sameUp_trans)

lemma stepKeeps_upd [simp]:
  "stepKeeps c s (c'\<lparr>ustate := st\<rparr>) s' = stepKeeps c s c' s'" "stepKeeps c s (c'\<lparr>urx := b\<rparr>) s' = stepKeeps c s c' s'"
  "stepKeeps c s (c'\<lparr>utx := b\<rparr>) s' = stepKeeps c s c' s'" "stepKeeps c s (c'\<lparr>umsg := b\<rparr>) s' = stepKeeps c s c' s'"
  "stepKeeps c s (c'\<lparr>uopcode := op\<rparr>) s' = stepKeeps c s c' s'" "stepKeeps c s (c'\<lparr>ufrag := fr\<rparr>) s' = stepKeeps c s c' s'"
  "stepKeeps c s (c'\<lparr>uutf8 := u\<rparr>) s' = stepKeeps c s c' s'"
  by (simp_all add: stepKeeps_def)

lemma stepKeeps_updateEvents: "updateEvents ep c s = (rc, s') \<Longrightarrow> stepKeeps d s d s'"
  by (auto simp: stepKeeps_def dest!: updateEvents_os)

lemma bufAppend_ep_rets: "bufAppend b xs s = (b', s') \<Longrightarrow> ep_rets s' = ep_rets s"
  by (auto simp: bufAppend_def bufReserve_def Let_def split: if_splits prod.splits elim!: os_alloc_cases)

lemma stepKeeps_bufAppend: "bufAppend b xs s = (b', s') \<Longrightarrow> stepKeeps d s d s'"
  using bufAppend_frame [of b xs s b' s'] bufAppend_mallocs [of b xs s b' s'] bufAppend_ep_rets [of b xs s b' s']
  by (simp add: stepKeeps_def)

lemma stepKeeps_alloc: "os_alloc s = (ok, s') \<Longrightarrow> stepKeeps d s d s'"
  by (auto simp: stepKeeps_def elim!: os_alloc_cases)

lemma queueMaskedFrame_keeps:
  assumes "queueMaskedFrame ep c op p s = (rc, c', s')"
  shows "stepKeeps c s c' s'" and "c' = c\<lparr>utx := utx c'\<rparr>"
proof -
  obtain r s1 where rnd: "randomBytes 4 s = (r, s1)" by fastforce
  have k1: "stepKeeps c s c s1" using randomBytes_os [OF rnd] by (simp add: stepKeeps_def)
  show "stepKeeps c s c' s'"
  proof (cases r)
    case None
    then show ?thesis using assms rnd k1 by (simp add: queueMaskedFrame_def)
  next
    case (Some m)
    obtain b s2 where a1: "bufAppend (utx c) (maskedHeader op (of_nat (length p)) @ m) s1 = (b, s2)" by fastforce
    have k2: "stepKeeps c s c s2" using stepKeeps_trans [OF k1 stepKeeps_bufAppend [OF a1]] .
    obtain ok s3 where al: "os_alloc s2 = (ok, s3)" by fastforce
    have k3: "stepKeeps c s c s3" using stepKeeps_trans [OF k2 stepKeeps_alloc [OF al]] .
    obtain b4 s4 where a4: "bufAppend b (map (\<lambda>i. p ! i XOR m ! (i AND 3)) [0..<length p]) s3 = (b4, s4)" by fastforce
    have k4: "stepKeeps c s c s4" using stepKeeps_trans [OF k3 stepKeeps_bufAppend [OF a4]] .
    have "stepKeeps c s c s5" if "updateEvents ep d v = (q, s5)" "stepKeeps c s c v" for d v q s5
      using stepKeeps_trans [OF that(2) stepKeeps_updateEvents [OF that(1)]] .
    then show ?thesis using assms rnd Some a1 al a4 k2 k3 k4
      by (auto simp: queueMaskedFrame_def Let_def split: prod.splits if_splits)
  qed
  show "c' = c\<lparr>utx := utx c'\<rparr>"
    using assms by (auto simp: queueMaskedFrame_def Let_def split: option.splits prod.splits if_splits)
qed

lemma upFail_keeps:
  assumes "upFail ep c code s = (out, c', s')"
  shows "\<exists>rc. out = UpReturn rc" and "stepKeeps c s c' s'" and "c' = c\<lparr>utx := utx c', ustate := UPSTREAM_CLOSING\<rparr>"
proof -
  obtain rc c1 s1 where q: "queueMaskedFrame ep (c\<lparr>ustate := UPSTREAM_CLOSING\<rparr>) WS_OP_CLOSE
      [ucast (drop_bit 8 code), ucast code] s = (rc, c1, s1)" by (metis prod_cases3)
  note k = queueMaskedFrame_keeps [OF q]
  have "stepKeeps c s (c\<lparr>ustate := UPSTREAM_CLOSING\<rparr>) s" by simp
  from stepKeeps_trans [OF this k(1)] assms q show "stepKeeps c s c' s'" "\<exists>rc. out = UpReturn rc"
    by (auto simp: upFail_def beginClose_def)
  have "c' = c1" using assms q by (simp add: upFail_def beginClose_def)
  then show "c' = c\<lparr>utx := utx c', ustate := UPSTREAM_CLOSING\<rparr>" using k(2) by (cases c, cases c1) simp
qed

text \<open>Every round that goes on consumes a frame.\<close>

lemma upControl_keeps:
  assumes "upControl ep h p n c s = (out, c', s')"
  shows "stepKeeps c s c' s'" and "(\<exists>rc. out = UpReturn rc) \<or> urx c' = bufConsume (urx c) n"
proof -
  have close: "stepKeeps c s d t" if "queueMaskedFrame ep (c\<lparr>urx := b, ustate := UPSTREAM_CLOSING\<rparr>) op p s = (q, d, t)" for b op q d t
    using stepKeeps_trans [OF _ queueMaskedFrame_keeps(1) [OF that], of c s] by simp
  show "stepKeeps c s c' s'"
    using assms by (auto simp: upControl_def Let_def split: if_splits prod.splits
        dest: upFail_keeps(2) queueMaskedFrame_keeps(1) close)
  have "urx d = urx c" if "queueMaskedFrame ep c op p s = (q, d, t)" for op q d t
    using arg_cong [OF queueMaskedFrame_keeps(2) [OF that], of urx] by simp
  then show "(\<exists>rc. out = UpReturn rc) \<or> urx c' = bufConsume (urx c) n"
    using assms by (auto simp: upControl_def Let_def split: if_splits prod.splits dest: upFail_keeps(1))
qed

lemma upDataOpen_step:
  assumes "(if uopcode c = WS_OP_TEXT \<and> 0 < length p then wsUtf8Feed (uutf8 c) p else (0, uutf8 c)) = (rc, st)"
    and "bufAppend (umsg c) p s = (b, s1)"
  shows "upDataOpen ep conf fin p n c s =
    (if maxMessage conf < bufLen (umsg c) \<or> maxMessage conf - bufLen (umsg c) < length p then upFail ep c 1009 s
     else if rc \<noteq> 0 then upFail ep (c\<lparr>uutf8 := st\<rparr>) 1007 s
     else if \<not> fin then (UpContinue, c\<lparr>uutf8 := st, umsg := b, urx := bufConsume (urx c) n\<rparr>, s1)
     else if uopcode c = WS_OP_TEXT \<and> \<not> wsUtf8Done st then
       upFail ep (c\<lparr>uutf8 := st, umsg := b, urx := bufConsume (urx c) n, ufrag := False\<rparr>) 1007 s1
     else (UpComplete, c\<lparr>uutf8 := st, umsg := b, urx := bufConsume (urx c) n, ufrag := False\<rparr>, s1))"
  using assms by (simp add: upDataOpen_def Let_def)

lemma upDataOpen_keeps:
  assumes "upDataOpen ep conf fin p n c s = (out, c', s')"
  shows "stepKeeps c s c' s'" and "(\<exists>rc. out = UpReturn rc) \<or> urx c' = bufConsume (urx c) n"
proof -
  obtain rc st where feed: "(if uopcode c = WS_OP_TEXT \<and> 0 < length p then wsUtf8Feed (uutf8 c) p else (0, uutf8 c)) = (rc, st)"
    by fastforce
  obtain b s1 where app: "bufAppend (umsg c) p s = (b, s1)" by fastforce
  have k: "stepKeeps c s c s1" by (rule stepKeeps_bufAppend [OF app])
  let ?c3 = "c\<lparr>uutf8 := st, umsg := b, urx := bufConsume (urx c) n, ufrag := False\<rparr>"
  have f: "stepKeeps c s d t" if "upFail ep ?c3 code s1 = (q, d, t)" for code q d t
    using stepKeeps_trans [OF _ upFail_keeps(2) [OF that], of c s] k by simp
  have f1: "stepKeeps c s d t" if "upFail ep (c\<lparr>uutf8 := st\<rparr>) code s = (q, d, t)" for code q d t
    using stepKeeps_trans [OF _ upFail_keeps(2) [OF that], of c s] by simp
  note step = upDataOpen_step [OF feed app, of ep conf fin n]
  show "stepKeeps c s c' s'"
    using assms k unfolding step by (auto split: if_splits dest: upFail_keeps(2) f f1)
  show "(\<exists>rc. out = UpReturn rc) \<or> urx c' = bufConsume (urx c) n"
    using assms unfolding step by (auto split: if_splits dest: upFail_keeps(1))
qed

lemma upData_keeps:
  assumes "upData ep conf h p n c s = (out, c', s')"
  shows "stepKeeps c s c' s'" and "(\<exists>rc. out = UpReturn rc) \<or> urx c' = bufConsume (urx c) n"
proof -
  let ?c = "c\<lparr>uopcode := hOpcode h, ufrag := True, umsg := bufReset (umsg c), uutf8 := wsUtf8Reset\<rparr>"
  have d: "stepKeeps c s d t" if "upDataOpen ep conf fin p n ?c s = (q, d, t)" for fin q d t
    using stepKeeps_trans [OF _ upDataOpen_keeps(1) [OF that], of c s] by simp
  show "stepKeeps c s c' s'"
    using assms by (auto simp: upData_def split: if_splits dest: upFail_keeps(2) upDataOpen_keeps(1) d)
  show "(\<exists>rc. out = UpReturn rc) \<or> urx c' = bufConsume (urx c) n"
    using assms by (auto simp: upData_def split: if_splits dest: upFail_keeps(1) upDataOpen_keeps(2))
qed

lemma upFrameStep_keeps:
  assumes "upFrameStep ep conf c s = (out, c', s')"
  shows "stepKeeps c s c' s'" and "(\<exists>rc. out = UpReturn rc) \<or> bufLen (urx c') < bufLen (urx c)"
proof -
  show "stepKeeps c s c' s'"
    using assms by (auto simp: upFrameStep_def Let_def split: WsRc_t.splits if_splits
        dest: upFail_keeps(2) upControl_keeps(1) upData_keeps(1))
  show "(\<exists>rc. out = UpReturn rc) \<or> bufLen (urx c') < bufLen (urx c)"
  proof (cases "wsParseHeader (bufData (urx c))")
    case (WS_OK h)
    have "(\<exists>rc. out = UpReturn rc) \<or> urx c' = bufConsume (urx c) (hHeaderLen h + unat (hPayloadLen h)) \<and>
        hHeaderLen h + unat (hPayloadLen h) \<le> bufLen (urx c)"
      using assms WS_OK by (auto simp: upFrameStep_def Let_def split: if_splits
          dest: upFail_keeps(1) upControl_keeps(2) upData_keeps(2))
    then show ?thesis using hHeaderLen_ge [OF WS_OK] by (auto simp: bufLen_bufConsume)
  qed (use assms in \<open>auto simp: upFrameStep_def dest: upFail_keeps(1)\<close>)
qed

lemma publish_keeps:
  fixes w :: "'a world_scheme"
  assumes "publishReactorMessage ep conf c w = (rc, c', w')"
  shows "rxs w' = rxs w" "c' = c\<lparr>upending := upending c', readPaused := readPaused c'\<rparr>"
proof -
  have "rxs (snd (push_data m v)) = rxs v" for m and v :: "'a world_scheme"
    by (auto simp: push_data_def push_def os_alloc_def split: list.splits if_splits prod.splits)
  moreover have "rxs v = rxs w" if "msgNewData i op p w = (m, v)" for i op p m v
    using that by (auto simp: msgNewData_def os_alloc_def os_realtime_def split: list.splits if_splits)
  ultimately show "rxs w' = rxs w"
    using assms by (auto simp: publishReactorMessage_def Let_def split: prod.splits option.splits if_splits
        dest!: updateEvents_os)
  show "c' = c\<lparr>upending := upending c', readPaused := readPaused c'\<rparr>"
    using assms by (cases c) (auto simp: publishReactorMessage_def Let_def split: prod.splits option.splits if_splits)
qed

function processBufferedFrames :: "int \<Rightarrow> ServerConfig_t \<Rightarrow> UpstreamClient_t \<Rightarrow> 'a world_scheme \<Rightarrow>
    int \<times> UpstreamClient_t \<times> 'a world_scheme" where
  "processBufferedFrames ep conf c w =
     (if 0 < bufLen (urx c) then
        (case upFrameStep ep conf c w of (out, c1, w1) \<Rightarrow>
           (case out of
              UpReturn rc \<Rightarrow> (rc, c1, w1)
            | UpContinue \<Rightarrow> processBufferedFrames ep conf c1 w1
            | UpComplete \<Rightarrow>
                (case publishReactorMessage ep conf c1 w1 of (rc, c2, w2) \<Rightarrow>
                   if rc < 0 then (-1, c2\<lparr>umsg := bufReset (umsg c2)\<rparr>, w2)
                   else if rc = 1 then (1, c2\<lparr>umsg := bufReset (umsg c2)\<rparr>, w2)
                   else processBufferedFrames ep conf (c2\<lparr>umsg := bufReset (umsg c2)\<rparr>) w2)))
      else (0, c, w))"
  by pat_completeness auto

lemma publish_urx: "publishReactorMessage ep conf c w = (rc, c', w') \<Longrightarrow> urx c' = urx c \<and> ufd c' = ufd c"
  using arg_cong [OF publish_keeps(2), of ep conf c w rc c' w' urx] arg_cong [OF publish_keeps(2), of ep conf c w rc c' w' ufd]
  by simp

termination processBufferedFrames
  by (relation "measure (\<lambda>(ep, conf, c, w). bufLen (urx c))")
    (auto dest!: upFrameStep_keeps(2) [OF sym] publish_urx [OF sym])

declare processBufferedFrames.simps [simp del]

lemma processBufferedFrames_rx:
  "processBufferedFrames ep conf c w = (rc, c', w') \<Longrightarrow> rxs w' = rxs w \<and> ufd c' = ufd c"
proof (induction "bufLen (urx c)" arbitrary: c w rule: less_induct)
  case less
  obtain out c1 w1 where step: "upFrameStep ep conf c w = (out, c1, w1)" by (metis prod_cases3)
  obtain q c2 w2 where pub: "publishReactorMessage ep conf c1 w1 = (q, c2, w2)" by (metis prod_cases3)
  note k = upFrameStep_keeps [OF step] and p = publish_keeps(1) [OF pub] publish_urx [OF pub]
  have k1: "rxs w1 = rxs w" "ufd c1 = ufd c" using k(1) by (simp_all add: stepKeeps_def sameUp_fields)
  show ?case
  proof (cases "bufLen (urx c) = 0")
    case True
    then show ?thesis using less.prems by (simp add: processBufferedFrames.simps [of ep conf c w])
  next
    case False
    show ?thesis
    proof (cases out)
      case (UpReturn rc1)
      then show ?thesis using less.prems False step k1 by (simp add: processBufferedFrames.simps [of ep conf c w])
    next
      case UpContinue
      then have "processBufferedFrames ep conf c1 w1 = (rc, c', w')" "bufLen (urx c1) < bufLen (urx c)"
        using less.prems False step k(2) by (simp_all add: processBufferedFrames.simps [of ep conf c w])
      with less.hyps [OF this(2,1)] k1 show ?thesis by simp
    next
      case UpComplete
      let ?c2 = "c2\<lparr>umsg := bufReset (umsg c2)\<rparr>"
      have "processBufferedFrames ep conf ?c2 w2 = (rc, c', w') \<or> (c' = ?c2 \<and> w' = w2)"
        using less.prems False step pub UpComplete
        by (auto simp: processBufferedFrames.simps [of ep conf c w] split: if_splits)
      moreover have "bufLen (urx ?c2) < bufLen (urx c)" using k(2) UpComplete p by simp
      ultimately show ?thesis using less.hyps [of ?c2 w2] p k1 by auto
    qed
  qed
qed

subsection \<open>Reading the socket\<close>

function upRecvLoop :: "int \<Rightarrow> ServerConfig_t \<Rightarrow> UpstreamClient_t \<Rightarrow> 'a world_scheme \<Rightarrow>
    int \<times> UpstreamClient_t \<times> 'a world_scheme" where
  "upRecvLoop ep conf c w = (case os_recv (ufd c) 8192 w of (r, w1) \<Rightarrow>
     (case r of
        RxData bs \<Rightarrow>
          if bs \<noteq> [] then
            (case bufAppend (urx c) bs w1 of (b, w2) \<Rightarrow>
               (case processBufferedFrames ep conf (c\<lparr>urx := b\<rparr>) w2 of (rc, c1, w3) \<Rightarrow>
                  if rc < 0 then (-1, c1, w3)
                  else if rc = 1 \<or> readPaused c1 \<or> ustate c1 \<noteq> UPSTREAM_OPEN then (0, c1, w3)
                  else upRecvLoop ep conf c1 w3))
          else (-1, c, w1)
      | RxEof \<Rightarrow> (-1, c, w1)
      | RxIntr \<Rightarrow> upRecvLoop ep conf c w1
      | RxAgain \<Rightarrow> (0, c, w1)
      | RxErr \<Rightarrow> (-1, c, w1)))"
  by pat_completeness auto
lemma upRecv_shrinks:
  assumes "os_recv (ufd c) 8192 w = (RxData bs, w1)" and "bs \<noteq> []" and "bufAppend (urx c) bs w1 = (b, w2)"
    and "processBufferedFrames ep conf (c\<lparr>urx := b\<rparr>) w2 = (rc, c1, w3)"
  shows "rx_weight (rxs w3 (ufd c1)) < rx_weight (rxs w (ufd c))"
  using processBufferedFrames_rx [OF assms(4)] bufAppend_frame [OF assms(3)] os_recv_weight [OF assms(1,2)] by simp

termination upRecvLoop
  by (relation "measure (\<lambda>(ep, conf, c, w). rx_weight (rxs w (ufd c)))")
    (auto dest!: os_recv_intr_weight [OF sym] intro: upRecv_shrinks [OF sym _ sym sym])

declare upRecvLoop.simps [simp del]

definition readUpstreamFrames :: "int \<Rightarrow> ServerConfig_t \<Rightarrow> UpstreamClient_t \<Rightarrow> 'a world_scheme \<Rightarrow>
    int \<times> UpstreamClient_t \<times> 'a world_scheme" where
  "readUpstreamFrames ep conf c w = (case processBufferedFrames ep conf c w of (rc, c1, w1) \<Rightarrow>
     if rc < 0 then (-1, c1, w1)
     else if rc = 1 \<or> ustate c1 \<noteq> UPSTREAM_OPEN \<or> readPaused c1 then (0, c1, w1)
     else upRecvLoop ep conf c1 w1)"

text \<open>The loop of \<open>readHandshake\<close>: 0 once everything that arrived is in the buffer.\<close>

function hsRecvLoop :: "int \<Rightarrow> Buf_t \<Rightarrow> 'a os_scheme \<Rightarrow> int \<times> Buf_t \<times> 'a os_scheme" where
  "hsRecvLoop fd b s = (case os_recv fd 4096 s of (r, s1) \<Rightarrow>
     (case r of
        RxData bs \<Rightarrow> if bs \<noteq> [] then (case bufAppend b bs s1 of (b1, s2) \<Rightarrow> hsRecvLoop fd b1 s2) else (-1, b, s1)
      | RxEof \<Rightarrow> (-1, b, s1)
      | RxIntr \<Rightarrow> hsRecvLoop fd b s1
      | RxAgain \<Rightarrow> (0, b, s1)
      | RxErr \<Rightarrow> (-1, b, s1)))"
  by pat_completeness auto

lemma hsRecv_shrinks:
  assumes "os_recv fd 4096 s = (RxData bs, s1)" and "bs \<noteq> []" and "bufAppend b bs s1 = (b1, s2)"
  shows "rx_weight (rxs s2 fd) < rx_weight (rxs s fd)"
  using bufAppend_frame [OF assms(3)] os_recv_weight [OF assms(1,2)] by simp

termination hsRecvLoop
  by (relation "measure (\<lambda>(fd, b, s). rx_weight (rxs s fd))")
    (auto dest!: os_recv_intr_weight [OF sym] split: prod.split intro: hsRecv_shrinks [OF sym])

declare hsRecvLoop.simps [simp del]

definition readHandshake :: "int \<Rightarrow> ServerConfig_t \<Rightarrow> UpstreamClient_t \<Rightarrow> 'a os_scheme \<Rightarrow>
    int \<times> UpstreamClient_t \<times> 'a os_scheme" where
  "readHandshake ep conf c s = (case hsRecvLoop (ufd c) (urx c) s of (rc, b, s1) \<Rightarrow>
     if rc \<noteq> 0 then (-1, c\<lparr>urx := b\<rparr>, s1) else processHandshakeResponse ep conf (c\<lparr>urx := b\<rparr>) s1)"

subsection \<open>Events\<close>

text \<open>The parts of \<open>handleUpstreamEvent\<close> after the socket is known to be connected: writing, then reading.\<close>

definition upWritable :: "int \<Rightarrow> ep_flag list \<Rightarrow> UpstreamClient_t \<Rightarrow> 'a os_scheme \<Rightarrow> bool \<times> UpstreamClient_t \<times> 'a os_scheme" where
  "upWritable ep events c s =
     (if EPOLLOUT \<in> set events \<and> ustate c \<noteq> UPSTREAM_CONNECTING then
        (case flushUpstreamTx ep c s of (rc, c1, s1) \<Rightarrow>
           (rc = 0 \<and> \<not> (ustate c1 = UPSTREAM_CLOSING \<and> bufLen (utx c1) = 0), c1, s1))
      else (True, c, s))"

definition upReadable :: "int \<Rightarrow> ServerConfig_t \<Rightarrow> ep_flag list \<Rightarrow> UpstreamClient_t \<Rightarrow> 'a world_scheme \<Rightarrow>
    bool \<times> UpstreamClient_t \<times> 'a world_scheme" where
  "upReadable ep conf events c w =
     (let (rc, c1, w1) = (if EPOLLIN \<in> set events \<and> ustate c = UPSTREAM_HANDSHAKE then readHandshake ep conf c w else (0, c, w))
      in if rc \<noteq> 0 then (False, c1, w1)
      else
        let (rc, c2, w2) = (if EPOLLIN \<in> set events \<and> ustate c1 = UPSTREAM_OPEN then readUpstreamFrames ep conf c1 w1 else (0, c1, w1))
        in if rc \<noteq> 0 then (False, c2, w2)
           else (\<not> (EPOLLHUP \<in> set events \<or> EPOLLRDHUP \<in> set events), c2, w2))"

text \<open>\<open>err\<close> is what \<open>getsockopt(SO_ERROR)\<close> answers; it is only logged when the event is an error.\<close>

definition handleUpstreamEvent :: "int \<Rightarrow> ServerConfig_t \<Rightarrow> int option \<Rightarrow> ep_flag list \<Rightarrow> UpstreamClient_t \<Rightarrow>
    'a world_scheme \<Rightarrow> UpstreamClient_t \<times> 'a world_scheme" where
  "handleUpstreamEvent ep conf err events c w =
     (if EPOLLERR \<in> set events then upstreamDisconnect ep c w
      else if EPOLLOUT \<in> set events \<and> ustate c = UPSTREAM_CONNECTING then
        (if upstreamConnectComplete err \<noteq> 0 then upstreamDisconnect ep c w
         else (case queueHandshake ep c w of (rc, c1, w1) \<Rightarrow>
           if rc \<noteq> 0 then upstreamDisconnect ep c1 w1 else (c1, w1)))
      else (case upWritable ep events c w of (ok, c1, w1) \<Rightarrow>
        if \<not> ok then upstreamDisconnect ep c1 w1
        else (case upReadable ep conf events c1 w1 of (ok, c2, w2) \<Rightarrow>
          if \<not> ok then upstreamDisconnect ep c2 w2 else (c2, w2))))"

subsection \<open>The thread\<close>

fun resumeLoop :: "int \<Rightarrow> ServerConfig_t \<Rightarrow> UpstreamClient_t list \<Rightarrow> 'a world_scheme \<Rightarrow> UpstreamClient_t list \<times> 'a world_scheme" where
  "resumeLoop ep conf [] w = ([], w)"
| "resumeLoop ep conf (c # cs) w =
     (if \<not> readPaused c then (case resumeLoop ep conf cs w of (cs', w') \<Rightarrow> (c # cs', w'))
      else if confHigh conf \<le> queueSize (dataQueue w) then (c # cs, w)
      else
        let w1 = (case upending c of None \<Rightarrow> w | Some m \<Rightarrow> snd (push_data m w));
            c1 = c\<lparr>upending := None, readPaused := False\<rparr>;
            (rc, w2) = updateEvents ep c1 w1;
            (c3, w3) = (if rc \<noteq> 0 then upstreamDisconnect ep c1 w2
              else (case processBufferedFrames ep conf c1 w2 of (rc, c2, w3) \<Rightarrow>
                if rc < 0 then upstreamDisconnect ep c2 w3 else (c2, w3)));
            (cs', w') = resumeLoop ep conf cs w3
        in (c3 # cs', w'))"

definition resumePausedClients :: "ServerConfig_t \<Rightarrow> UpstreamReactor_t \<Rightarrow> 'a world_scheme \<Rightarrow> UpstreamReactor_t \<times> 'a world_scheme" where
  "resumePausedClients conf r w =
     (if confLow conf < queueSize (dataQueue w) then (r, w)
      else (case resumeLoop (upEpollfd r) conf (upClients r) w of (cs, w1) \<Rightarrow> (r\<lparr>upClients := cs\<rparr>, w1)))"

text \<open>The answers to the \<open>connect\<close> attempts of one round are a list, used up in order.\<close>

fun reconnectLoop :: "int \<Rightarrow> u64 \<Rightarrow> connect_res list option list \<Rightarrow> UpstreamClient_t list \<Rightarrow> 'a os_scheme \<Rightarrow>
    UpstreamClient_t list \<times> 'a os_scheme" where
  "reconnectLoop ep now ans [] s = ([], s)"
| "reconnectLoop ep now ans (c # cs) s =
     (if ustate c \<noteq> UPSTREAM_DISCONNECTED \<or> now < reconnectAtMs c then
        (case reconnectLoop ep now ans cs s of (cs', s') \<Rightarrow> (c # cs', s'))
      else
        let (addrs, rest) = (case ans of [] \<Rightarrow> (None, []) | a # as \<Rightarrow> (a, as));
            (rc, c1, s1) = upstreamConnect ep addrs c s;
            c2 = (if rc \<noteq> 0 then c1\<lparr>reconnectAttempt := bumpAttempt (reconnectAttempt c1),
                                     reconnectAtMs := now + reconnectDelayMs (reconnectAttempt c1)\<rparr> else c1);
            (cs', s') = reconnectLoop ep now rest cs s1
        in (c2 # cs', s'))"

definition reconnectClients :: "connect_res list option list \<Rightarrow> UpstreamReactor_t \<Rightarrow> 'a os_scheme \<Rightarrow> UpstreamReactor_t \<times> 'a os_scheme" where
  "reconnectClients ans r s = (case nowMs s of (now, s1) \<Rightarrow>
     (case reconnectLoop (upEpollfd r) now ans (upClients r) s1 of (cs, s2) \<Rightarrow> (r\<lparr>upClients := cs\<rparr>, s2)))"

text \<open>One event: the client's index, the flags, and the socket's error.\<close>

definition reactorEvent :: "ServerConfig_t \<Rightarrow> nat \<times> ep_flag list \<times> int option \<Rightarrow> UpstreamReactor_t \<times> 'a world_scheme \<Rightarrow>
    UpstreamReactor_t \<times> 'a world_scheme" where
  "reactorEvent conf e rw = (case e of (i, events, err) \<Rightarrow> case rw of (r, w) \<Rightarrow>
     (case handleUpstreamEvent (upEpollfd r) conf err events (upClients r ! i) w of (c, w1) \<Rightarrow>
        (r\<lparr>upClients := (upClients r)[i := c]\<rparr>, w1)))"

datatype reactor_wait = WaitIntr | WaitErr | WaitEvents "(nat \<times> ep_flag list \<times> int option) list"

text \<open>One round of the thread; the boolean says that the loop goes on.\<close>

definition reactorRound :: "ServerConfig_t \<Rightarrow> connect_res list option list \<Rightarrow> reactor_wait \<Rightarrow>
    UpstreamReactor_t \<Rightarrow> 'a world_scheme \<Rightarrow> bool \<times> UpstreamReactor_t \<times> 'a world_scheme" where
  "reactorRound conf ans wait r w =
     (case reconnectClients ans r w of (r1, w1) \<Rightarrow>
      (case resumePausedClients conf r1 w1 of (r2, w2) \<Rightarrow>
        (case wait of
           WaitIntr \<Rightarrow> (True, r2, w2)
         | WaitErr \<Rightarrow> (False, r2, w2)
         | WaitEvents es \<Rightarrow> (case fold (reactorEvent conf) es (r2, w2) of (r3, w3) \<Rightarrow> (True, r3, w3)))))"

text \<open>The loop, over the rounds to come: the value of the shutdown flag, and what the kernel answers.\<close>

fun upstreamReactorThread :: "ServerConfig_t \<Rightarrow> (bool \<times> connect_res list option list \<times> reactor_wait) list \<Rightarrow>
    UpstreamReactor_t \<Rightarrow> 'a world_scheme \<Rightarrow> UpstreamReactor_t \<times> 'a world_scheme" where
  "upstreamReactorThread conf [] r w = (r, w)"
| "upstreamReactorThread conf ((stop, ans, wait) # rounds) r w =
     (if stop then (r, w)
      else (case reactorRound conf ans wait r w of (on, r1, w1) \<Rightarrow>
        if on then upstreamReactorThread conf rounds r1 w1 else (r1, w1)))"

end
