(* ===== verification/UpstreamHandshake.thy ===== *)
theory UpstreamHandshake
  imports Upstream
begin

section \<open>The two ends of the handshake understand each other\<close>

text \<open>
  The request \<open>queueHandshake\<close> writes is a header block the server's parser accepts, and the response the
  server builds for it is the one \<open>processHandshakeResponse\<close> expects: the client end (ws_client.c) and the
  server end (http.c, ws.c) of this repository agree for every path, host and nonce.
\<close>

subsection \<open>The key\<close>

lemma length_sha1Block: "length (sha1Block h b) = 5"
  by (simp add: sha1Block_def split: prod.split)

lemma length_sha1: "length (sha1 m) = 20"
  by (simp add: sha1_def sha1Final_def Let_def length_concat length_sha1Block be32_def comp_def sum_list_triv split: prod.split)

lemma base64Encode_chars:
  assumes "c \<in> set (base64Encode xs)"
  shows "c \<notin> {0, 13, 32, 33, 44, 58}"
proof -
  have "isEnc c \<or> c = 61" using assms base64Encode_shape [of xs]
    by (metis (no_types) UnE in_set_replicate list_all_iff set_append)
  then show ?thesis by (auto simp: isEnc_alt decodeChar_def)
qed

lemma wsComputeAccept_key:
  assumes "length nonce = 16"
  shows "wsComputeAccept (base64Encode nonce) = Some (base64Encode (sha1 (base64Encode nonce @ WS_MAGIC)))"
  using assms by (simp add: wsComputeAccept_def length_base64Encode base64EncodedLen_def base64DecodedLen_encode)

lemma length_accept: "length (base64Encode (sha1 m)) = 28"
  by (simp add: length_base64Encode base64EncodedLen_def length_sha1)

lemma dropWhile_none: "x \<notin> set v \<Longrightarrow> dropWhile (\<lambda>c. c = x) v = v"
  by (cases v) auto

lemma trim_id: "32 \<notin> set v \<Longrightarrow> trim v = v"
  by (simp add: trim_def trimLeft_def trimRight_def dropWhile_none)

subsection \<open>The request and the response as header blocks\<close>

definition hostField :: "byte list \<Rightarrow> int \<Rightarrow> byte list \<times> byte list" where
  "hostField host prt = (bytes ''Host'', 32 # host @ [58] @ dec (nat prt))"

definition requestFields :: "byte list \<Rightarrow> int \<Rightarrow> byte list \<Rightarrow> (byte list \<times> byte list) list" where
  "requestFields host prt key =
     [hostField host prt, (bytes ''Upgrade'', bytes '' websocket''), (bytes ''Connection'', bytes '' Upgrade''),
      (bytes ''Sec-WebSocket-Key'', 32 # key), (bytes ''Sec-WebSocket-Version'', bytes '' 13'')]"

lemma handshakeText_block: "handshakeText path host prt key = handshake_request path (requestFields host prt key)"
  by (simp add: handshakeText_def handshake_request_def header_block_def requestFields_def hostField_def field_line_def bytes_def)

definition responseFields :: "byte list \<Rightarrow> (byte list \<times> byte list) list" where
  "responseFields acc =
     [(bytes ''Upgrade'', bytes '' websocket''), (bytes ''Connection'', bytes '' Upgrade''),
      (bytes ''Sec-WebSocket-Accept'', 32 # acc)]"

lemma upgradeText_block:
  "0 \<notin> set acc \<Longrightarrow> upgradeText acc = bytes ''HTTP/1.1 101 Switching Protocols'' @ CRLF @ header_block (responseFields acc)"
  by (simp add: upgradeText_def cstr_id header_block_def responseFields_def field_line_def bytes_def)

lemma requestFields_ok:
  assumes "13 \<notin> set host" and "13 \<notin> set key"
  shows "list_all field_ok (requestFields host prt key)"
proof -
  have "13 \<notin> set (dec n)" for n using dec_digits [of n] by auto
  then show ?thesis using assms by (simp add: requestFields_def hostField_def field_ok_def bytes_def)
qed

lemma responseFields_ok: "13 \<notin> set acc \<Longrightarrow> list_all field_ok (responseFields acc)"
  by (simp add: responseFields_def field_ok_def bytes_def)

lemma tokens: "has_token (trim (bytes '' websocket'')) (bytes ''websocket'')" "has_token (trim (bytes '' Upgrade'')) (bytes ''Upgrade'')"
  "trim (bytes '' 13'') = bytes ''13''"
  by (simp_all add: has_token_def trim_def trimLeft_def trimRight_def bytes_def caseEq_def)

lemma request_values:
  assumes "32 \<notin> set key"
  shows "field_value (requestFields host prt key) (bytes ''Upgrade'') = Some (trim (bytes '' websocket''))"
    "field_value (requestFields host prt key) (bytes ''Connection'') = Some (trim (bytes '' Upgrade''))"
    "field_value (requestFields host prt key) (bytes ''Sec-WebSocket-Version'') = Some (bytes ''13'')"
    "field_value (requestFields host prt key) (bytes ''Sec-WebSocket-Key'') = Some key"
  using tokens(3) trim_id [OF assms]
  by (simp_all add: field_value_def requestFields_def hostField_def caseEq_def bytes_def tolower8_def)

lemma response_values:
  assumes "32 \<notin> set acc"
  shows "field_value (responseFields acc) (bytes ''Upgrade'') = Some (trim (bytes '' websocket''))"
    "field_value (responseFields acc) (bytes ''Connection'') = Some (trim (bytes '' Upgrade''))"
    "field_value (responseFields acc) (bytes ''Sec-WebSocket-Accept'') = Some acc"
  using trim_id [OF assms] by (simp_all add: field_value_def responseFields_def caseEq_def bytes_def tolower8_def)

lemma httpFindHeader_response:
  assumes "13 \<notin> set acc" and "0 \<notin> set acc" and "58 \<notin> set name"
  shows "httpFindHeader (upgradeText acc) name = field_value (responseFields acc) name"
  using httpFindHeader_block [OF _ responseFields_ok [OF assms(1)] assms(3), of "bytes ''HTTP/1.1 101 Switching Protocols''"]
    upgradeText_block [OF assms(2)] by (simp add: bytes_def)

lemma upgradeText_end:
  assumes "13 \<notin> set acc" and "0 \<notin> set acc"
  shows "httpFindHeaderEnd (upgradeText acc @ r) = Some (length (upgradeText acc) - 4)"
    and "12 \<le> length (upgradeText acc)" and "take 12 (upgradeText acc @ r) = bytes ''HTTP/1.1 101''"
    and "length acc = 28 \<Longrightarrow> hdr256 (upgradeText acc) = upgradeText acc"
proof -
  show "httpFindHeaderEnd (upgradeText acc @ r) = Some (length (upgradeText acc) - 4)"
    using httpFindHeaderEnd_block [OF _ responseFields_ok [OF assms(1)], of "bytes ''HTTP/1.1 101 Switching Protocols''" r]
      upgradeText_block [OF assms(2)] by (simp add: bytes_def)
  show "12 \<le> length (upgradeText acc)" "take 12 (upgradeText acc @ r) = bytes ''HTTP/1.1 101''"
    "length acc = 28 \<Longrightarrow> hdr256 (upgradeText acc) = upgradeText acc"
    using assms(2) by (simp_all add: upgradeText_def hdr256_def cstr_id CRLF_def bytes_def)
qed

text \<open>The client's verdict on a response of the server.\<close>

lemma processHandshakeResponse_verdict:
  assumes acc: "{0, 13, 32} \<inter> set acc = {}" "length acc = 28" and data: "bufData (urx c) = upgradeText acc @ r"
  shows "processHandshakeResponse ep conf c s =
    (if acc = take 28 (expectedAccept c) then
       (case updateEvents ep (c\<lparr>urx := bufConsume (urx c) (length (upgradeText acc)), ustate := UPSTREAM_OPEN, reconnectAttempt := 0\<rparr>) s of
          (rc, s1) \<Rightarrow> (rc, c\<lparr>urx := bufConsume (urx c) (length (upgradeText acc)), ustate := UPSTREAM_OPEN, reconnectAttempt := 0\<rparr>, s1))
     else (-1, c, s))"
proof -
  have ok: "13 \<notin> set acc" "0 \<notin> set acc" "32 \<notin> set acc" using acc(1) by auto
  note e = upgradeText_end [OF ok(1,2)]
  have h: "length (upgradeText acc) - 4 + 4 = length (upgradeText acc)" using e(2) by simp
  have tok: "httpHeaderHasToken (trim (bytes '' websocket'')) (bytes ''websocket'')"
    "httpHeaderHasToken (trim (bytes '' Upgrade'')) (bytes ''Upgrade'')"
    using tokens by (simp_all add: httpHeaderHasToken_eq)
  show ?thesis
    using e(2,3) h data tok acc(2) response_values [OF ok(3)] httpFindHeader_response [OF ok(1,2)] header_names
    by (simp add: processHandshakeResponse_def Let_def e(1) not_less)
qed

subsection \<open>Property\<close>

text \<open>A buffer that holds exactly these bytes.\<close>

definition received :: "byte list \<Rightarrow> Buf_t" where
  "received bs = \<lparr>bp = bs, cap = length bs, off = 0\<rparr>"

lemma processHandshakeResponse_opens:
  assumes "{0, 13, 32} \<inter> set acc = {}" "length acc = 28" and data: "bufData (urx c) = upgradeText acc @ r"
    and "acc = expectedAccept c" and "0 \<le> ufd c" and "ep_rets s = []"
  shows "case processHandshakeResponse ep conf c s of
    (rc, c2, s2) \<Rightarrow> rc = 0 \<and> ustate c2 = UPSTREAM_OPEN \<and> bufData (urx c2) = r \<and> reconnectAttempt c2 = 0"
proof -
  let ?c2 = "c\<lparr>urx := bufConsume (urx c) (length (upgradeText acc)), ustate := UPSTREAM_OPEN, reconnectAttempt := 0\<rparr>"
  obtain rc s2 where up: "updateEvents ep ?c2 s = (rc, s2)" by fastforce
  have "rc = 0" using updateEvents_os [OF up] assms(5,6) by simp
  moreover have "processHandshakeResponse ep conf c s = (rc, ?c2, s2)"
    unfolding processHandshakeResponse_verdict [OF assms(1,2) data] up using assms(2,4) by simp
  ultimately show ?thesis by (simp add: bufConsume_view data)
qed

lemma queueHandshake_made:
  assumes "path_ok (ucpath c)" and "13 \<notin> set (uchost c)" and "length (uchost c) < 256" and "ucport c \<le> 65535"
    and "0 \<le> ufd c" and "bufInv (utx c)" and "mallocs s = []" and "ep_rets s = []" and "randomBytes 16 s = (Some nonce, s0)"
  shows "\<exists>b s1. queueHandshake ep c s = (0, c\<lparr>expectedAccept := base64Encode (sha1 (base64Encode nonce @ WS_MAGIC)),
      utx := b, ustate := UPSTREAM_HANDSHAKE\<rparr>, s1) \<and> ep_rets s1 = [] \<and>
    bufData b = handshake_request (ucpath c) (requestFields (uchost c) (ucport c) (base64Encode nonce))"
proof -
  let ?key = "base64Encode nonce" and ?acc = "base64Encode (sha1 (base64Encode nonce @ WS_MAGIC))"
  note rnd = randomBytes_os [OF assms(9)]
  then have n: "length nonce = 16" by simp
  let ?t = "handshakeText (ucpath c) (uchost c) (ucport c) ?key"
  have "length (dec (nat (ucport c))) \<le> 5" using assms(4) by (intro length_dec) simp_all
  moreover have "length ?key = 24" using n by (simp add: length_base64Encode base64EncodedLen_def)
  ultimately have len: "length ?t < 1024"
    using assms(1,3) by (simp add: handshakeText_def path_ok_def CRLF_def)
  obtain b s1 where app: "bufAppend (bufReset (utx c)) ?t s0 = (b, s1)" by fastforce
  have mem: "mallocs s0 = []" "ep_rets s0 = []" using rnd assms(7,8) by simp_all
  have b: "bufData b = ?t" using bufAppend_view_cases [OF app] mem assms(6) by (simp add: bufInv_bufReset bufReset_view)
  let ?c = "c\<lparr>expectedAccept := ?acc, utx := b, ustate := UPSTREAM_HANDSHAKE\<rparr>"
  obtain rc s2 where up: "updateEvents ep ?c s1 = (rc, s2)" by fastforce
  have "ep_rets s1 = []" using bufAppend_ep_rets [OF app] mem by simp
  with updateEvents_os [OF up] assms(5) have "rc = 0" "ep_rets s2 = []" by simp_all
  with assms(9) len app up wsComputeAccept_key [OF n]
  have "queueHandshake ep c s = (0, ?c, s2)" by (simp add: queueHandshake_def Let_def)
  with b handshakeText_block \<open>ep_rets s2 = []\<close> show ?thesis by (metis (no_types))
qed

text \<open>C7: The two ends of the handshake agree, for every path of 1 to 255 bytes without a space or a carriage
  return, every host below 256 bytes without a carriage return, every port and every random nonce, when the
  calls succeed: the request the upstream client writes is accepted by the server's parser with that path,
  and the answer the server builds for it, followed by any frames, moves the client to the open state with
  exactly these frames left and the reconnect counter reset; an answer with any other accept value of
  28 bytes (without a NUL, space or carriage return) is refused.\<close>

theorem handshake_agreement:
  assumes "path_ok (ucpath c)" and "13 \<notin> set (uchost c)" and "length (uchost c) < 256" and "ucport c \<le> 65535"
    and "0 \<le> ufd c" and "bufInv (utx c)" and "mallocs s = []" and "ep_rets s = []" and "randomBytes 16 s = (Some nonce, s0)"
    and "{0, 13, 32} \<inter> set other = {}" and "length other = 28" and "other \<noteq> base64Encode (sha1 (base64Encode nonce @ WS_MAGIC))"
  shows "case queueHandshake ep c s of (rc, c1, s1) \<Rightarrow>
    rc = 0 \<and> ustate c1 = UPSTREAM_HANDSHAKE \<and>
    (case httpParseHandshake (bufData (utx c1)) of hr \<Rightarrow> hsStatus hr = HS_OK \<and> hsPath hr = ucpath c \<and>
      (case processHandshakeResponse ep conf (c1\<lparr>urx := received (hdr256 (upgradeText (hsAcceptKey hr)) @ frames)\<rparr>) s1 of
        (rc, c2, s2) \<Rightarrow> rc = 0 \<and> ustate c2 = UPSTREAM_OPEN \<and> bufData (urx c2) = frames \<and> reconnectAttempt c2 = 0) \<and>
      fst (processHandshakeResponse ep conf (c1\<lparr>urx := received (hdr256 (upgradeText other) @ frames)\<rparr>) s1) = -1)"
proof -
  let ?key = "base64Encode nonce" and ?acc = "base64Encode (sha1 (base64Encode nonce @ WS_MAGIC))"
  have n: "length nonce = 16" using randomBytes_os [OF assms(9)] by simp
  obtain b s1 where q: "queueHandshake ep c s = (0, c\<lparr>expectedAccept := ?acc, utx := b, ustate := UPSTREAM_HANDSHAKE\<rparr>, s1)"
    "ep_rets s1 = []" "bufData b = handshake_request (ucpath c) (requestFields (uchost c) (ucport c) ?key)"
    using queueHandshake_made [OF assms(1-9)] by blast
  let ?c1 = "c\<lparr>expectedAccept := ?acc, utx := b, ustate := UPSTREAM_HANDSHAKE\<rparr>"
  have key: "13 \<notin> set ?key" "32 \<notin> set ?key" using base64Encode_chars [of _ nonce] by blast+
  have hr: "httpParseHandshake (bufData b) = \<lparr>hsStatus = HS_OK, hsPath = ucpath c, hsAcceptKey = ?acc\<rparr>"
    using tokens request_values [OF key(2)] wsComputeAccept_key [OF n]
      httpParseHandshake_request [of "ucpath c", OF _ requestFields_ok [OF assms(2) key(1)]] path_okD [OF assms(1)]
    by (simp add: q(3) handshake_spec_accepts [OF assms(1)] field_has_def)
  have acc: "{0, 13, 32} \<inter> set ?acc = {}" "length ?acc = 28"
    using base64Encode_chars [of _ "sha1 (?key @ WS_MAGIC)"] length_accept by auto
  have cut: "hdr256 (upgradeText a) = upgradeText a" if "{0, 13, 32} \<inter> set a = {}" "length a = 28" for a
    using upgradeText_end(4) [of a] that by auto
  have data: "bufData (urx (?c1\<lparr>urx := received bs\<rparr>)) = bs" for bs by (simp add: received_def bufData_def)
  have "case processHandshakeResponse ep conf (?c1\<lparr>urx := received (upgradeText ?acc @ frames)\<rparr>) s1 of
      (rc, c2, s2) \<Rightarrow> rc = 0 \<and> ustate c2 = UPSTREAM_OPEN \<and> bufData (urx c2) = frames \<and> reconnectAttempt c2 = 0"
    by (rule processHandshakeResponse_opens [OF acc data]) (use q(2) assms(5) acc(2) in simp_all)
  moreover have "fst (processHandshakeResponse ep conf (?c1\<lparr>urx := received (upgradeText other @ frames)\<rparr>) s1) = -1"
    using acc(2) assms(12) by (simp add: processHandshakeResponse_verdict [OF assms(10,11) data])
  ultimately show ?thesis using q(1) hr cut [OF acc] cut [OF assms(10,11)] by simp
qed

text \<open>A client for \<open>ws://h:80/feed\<close> and a random source that returns zero bytes.\<close>

definition sampleClient :: UpstreamClient_t where
  "sampleClient = client_zero\<lparr>ufd := 5, ucpath := bytes ''/feed'', uchost := bytes ''h'', ucport := 80\<rparr>"

theorem handshake_agreement_witness:
  "case queueHandshake 3 sampleClient os_idle of (rc, c1, s1) \<Rightarrow>
    rc = 0 \<and> ustate c1 = UPSTREAM_HANDSHAKE \<and>
    (case httpParseHandshake (bufData (utx c1)) of hr \<Rightarrow> hsStatus hr = HS_OK \<and> hsPath hr = bytes ''/feed'' \<and>
      (case processHandshakeResponse 3 server_defaults (c1\<lparr>urx := received (hdr256 (upgradeText (hsAcceptKey hr)) @ [129, 0])\<rparr>) s1 of
        (rc, c2, s2) \<Rightarrow> rc = 0 \<and> ustate c2 = UPSTREAM_OPEN \<and> bufData (urx c2) = [129, 0] \<and> reconnectAttempt c2 = 0) \<and>
      fst (processHandshakeResponse 3 server_defaults (c1\<lparr>urx := received (hdr256 (upgradeText (replicate 28 33)) @ [129, 0])\<rparr>) s1) = -1)"
proof -
  obtain nonce s0 where r: "randomBytes 16 os_idle = (Some nonce, s0)" by (simp add: randomBytes.simps os_getrandom_def os_idle_def)
  have "33 \<notin> set (base64Encode (sha1 (base64Encode nonce @ WS_MAGIC)))"
    using base64Encode_chars [of 33 "sha1 (base64Encode nonce @ WS_MAGIC)"] by blast
  then have no33: "replicate 28 33 \<noteq> base64Encode (sha1 (base64Encode nonce @ WS_MAGIC))"
    by (metis in_set_replicate zero_neq_numeral)
  have "bytes ''/feed'' = ucpath sampleClient" by (simp add: sampleClient_def)
  then show ?thesis
    using handshake_agreement [where c = sampleClient and s = os_idle and nonce = nonce and s0 = s0 and other = "replicate 28 33"
        and ep = 3 and conf = server_defaults and frames = "[129, 0]", OF _ _ _ _ _ _ _ _ r] no33
    by (simp add: sampleClient_def client_zero_def path_ok_def bytes_def bufInv_def buf_empty_def os_idle_def)
qed

end
