(* ===== verification/Worker.thy ===== *)
theory Worker
  imports Config Http Sink
begin

section \<open>The worker threads (src/src/worker.c)\<close>

text \<open>
  A worker owns a connection while it handles it: the handlers below work on the connection's record
  \<open>x\<close> and write it back to the store where the C code hands the connection over or returns. The frame
  loop of \<open>handleWsOpen\<close> is \<open>wsLoop\<close>; its body up to the point where a message is complete is
  \<open>wsFrameStep\<close>, split into the control frames (\<open>wsControl\<close>) and the data frames (\<open>wsData\<close>, and
  \<open>wsDataOpen\<close> once the frame belongs to an open message).
\<close>

datatype Disposition_t = DISP_REARM_IN | DISP_REARM_OUT | DISP_REARM_INOUT | DISP_CLOSE | DISP_PARKED | DISP_HANDOFF

definition rearmEpoll :: "Conn_t \<Rightarrow> ep_flag list \<Rightarrow> 'a os_scheme \<Rightarrow> 'a os_scheme" where
  "rearmEpoll x events s = snd (os_epoll_ctl (cepollfd x) EPOLL_CTL_MOD (cfd x)
     (events @ [EPOLLET, EPOLLRDHUP, EPOLLONESHOT]) s)"

definition applyDisposition :: "nat \<Rightarrow> Disposition_t \<Rightarrow> 'a world_scheme \<Rightarrow> 'a world_scheme" where
  "applyDisposition c disp w = (case conns w c of None \<Rightarrow> w
     | Some x \<Rightarrow>
         (case disp of
            DISP_REARM_IN \<Rightarrow> rearmEpoll x [EPOLLIN] w
          | DISP_REARM_OUT \<Rightarrow> rearmEpoll x [EPOLLOUT] w
          | DISP_REARM_INOUT \<Rightarrow> rearmEpoll x [EPOLLIN, EPOLLOUT] w
          | DISP_CLOSE \<Rightarrow> connClose c w
          | DISP_PARKED \<Rightarrow> w
          | DISP_HANDOFF \<Rightarrow> w))"

definition sendCloseAndMark :: "Conn_t \<Rightarrow> u16 \<Rightarrow> 'a os_scheme \<Rightarrow> Conn_t \<times> 'a os_scheme" where
  "sendCloseAndMark x code s =
     (if closeAfterSend x then (x, s)
      else case frameNew WS_OP_CLOSE [ucast (drop_bit 8 code), ucast code] s of
          (None, s1) \<Rightarrow> (x\<lparr>closeAfterSend := True\<rparr>, s1)
        | (Some f, s1) \<Rightarrow> (case bufAppend (tx x) f s1 of (b, s2) \<Rightarrow> (x\<lparr>tx := b, closeAfterSend := True\<rparr>, s2)))"

definition flushTx :: "Conn_t \<Rightarrow> 'a os_scheme \<Rightarrow> Disposition_t \<times> Conn_t \<times> 'a os_scheme" where
  "flushTx x s = (case bufSend (cfd x) (tx x) s of (rc, b, s1) \<Rightarrow>
     (if rc = -1 then DISP_CLOSE
      else if rc = 0 then DISP_REARM_INOUT
      else if closeAfterSend x then DISP_CLOSE
      else DISP_REARM_IN, x\<lparr>tx := b\<rparr>, s1))"

subsection \<open>The WebSocket phase\<close>

text \<open>
  What one round of the frame loop does: leave the loop, go on, or hand over a complete message.
\<close>

datatype ws_out = WsStop | WsMore | WsMsg Msg_t

text \<open>The code of the answer to a close frame.\<close>

definition closeReply :: "byte list \<Rightarrow> u16" where
  "closeReply payload =
     (if 2 \<le> length payload then
        let code = or (push_bit 8 (ucast (payload ! 0))) (ucast (payload ! 1));
            (rc, rst) = wsUtf8Feed wsUtf8Reset (drop 2 payload)
        in if \<not> wsIsValidCloseCode code then 1002
           else if rc \<noteq> 0 \<or> \<not> wsUtf8Done rst then 1007
           else code
      else 1000)"

definition wsControl ::
  "WsFrameHdr_t \<Rightarrow> byte list \<Rightarrow> nat \<Rightarrow> Conn_t \<Rightarrow> 'a os_scheme \<Rightarrow> ws_out \<times> Conn_t \<times> 'a os_scheme" where
  "wsControl h payload tot x s =
     (if hOpcode h = WS_OP_PING then
        (case frameNew WS_OP_PONG payload s of
           (None, s1) \<Rightarrow> (WsMore, x\<lparr>rx := bufConsume (rx x) tot\<rparr>, s1)
         | (Some f, s1) \<Rightarrow> (case bufAppend (tx x) f s1 of (b, s2) \<Rightarrow>
             (WsMore, x\<lparr>tx := b, rx := bufConsume (rx x) tot\<rparr>, s2)))
      else if hOpcode h = WS_OP_CLOSE then
        (case sendCloseAndMark x (if length payload = 1 then 1002 else closeReply payload) s of (x1, s1) \<Rightarrow>
           (WsStop, x1\<lparr>rx := bufConsume (rx x1) tot\<rparr>, s1))
      else (WsMore, x\<lparr>rx := bufConsume (rx x) tot\<rparr>, s))"

definition wsFail :: "Conn_t \<Rightarrow> u16 \<Rightarrow> 'a os_scheme \<Rightarrow> ws_out \<times> Conn_t \<times> 'a os_scheme" where
  "wsFail x code s = (case sendCloseAndMark x code s of (x1, s1) \<Rightarrow> (WsStop, x1, s1))"

definition wsDataOpen :: "ServerConfig_t \<Rightarrow>
  bool \<Rightarrow> byte list \<Rightarrow> nat \<Rightarrow> Conn_t \<Rightarrow> 'a os_scheme \<Rightarrow> ws_out \<times> Conn_t \<times> 'a os_scheme" where
  "wsDataOpen conf fin payload tot x1 s =
     (if maxMessage conf < bufLen (msg x1) + length payload then wsFail x1 1009 s
      else
        let (rc, st) = (if msgOpcode x1 = WS_OP_TEXT \<and> 0 < length payload
                        then wsUtf8Feed (msgUtf8 x1) payload else (0, msgUtf8 x1));
            x2 = x1\<lparr>msgUtf8 := st\<rparr>
        in if rc \<noteq> 0 then wsFail x2 1007 s
        else
          let (b, s1) = bufAppend (msg x2) payload s;
              x3 = x2\<lparr>msg := b, rx := bufConsume (rx x2) tot\<rparr>
          in if \<not> fin then (WsMore, x3, s1)
          else
            let x4 = x3\<lparr>fragmenting := False\<rparr>
            in if msgOpcode x4 = WS_OP_TEXT \<and> \<not> wsUtf8Done (msgUtf8 x4) then wsFail x4 1007 s1
            else
              let (m, s2) = msgNewData (cid x4) (msgOpcode x4) (bufData (msg x4)) s1;
                  x5 = x4\<lparr>msg := bufReset (msg x4)\<rparr>
              in (case m of None \<Rightarrow> WsMore | Some m \<Rightarrow> WsMsg m, x5, s2))"

definition wsData :: "ServerConfig_t \<Rightarrow>
  WsFrameHdr_t \<Rightarrow> byte list \<Rightarrow> nat \<Rightarrow> Conn_t \<Rightarrow> 'a os_scheme \<Rightarrow> ws_out \<times> Conn_t \<times> 'a os_scheme" where
  "wsData conf h payload tot x s =
     (if hOpcode h = WS_OP_CONT \<and> \<not> fragmenting x then wsFail x 1002 s
      else if hOpcode h \<noteq> WS_OP_CONT \<and> fragmenting x then wsFail x 1002 s
      else
        let x1 = (if hOpcode h = WS_OP_CONT then x
                  else x\<lparr>msgOpcode := hOpcode h, fragmenting := True, msg := bufReset (msg x),
                         msgUtf8 := wsUtf8Reset\<rparr>)
        in wsDataOpen conf (hFin h) payload tot x1 s)"

definition wsFrameStep ::
  "ServerConfig_t \<Rightarrow> Conn_t \<Rightarrow> 'a os_scheme \<Rightarrow> ws_out \<times> Conn_t \<times> 'a os_scheme" where
  "wsFrameStep conf x s = (case wsParseHeader (bufData (rx x)) of
       WS_NEED_MORE \<Rightarrow> (WsStop, x, s)
     | WS_ERR_PROTO \<Rightarrow> wsFail x 1002 s
     | WS_OK h \<Rightarrow>
         let n = unat (hPayloadLen h); tot = hHeaderLen h + n in
         if \<not> hMasked h then wsFail x 1002 s
         else if maxFrame conf < n then wsFail x 1009 s
         else if bufLen (rx x) < tot then (WsStop, x, s)
         else
           let payload = wsUnmask (take n (drop (hHeaderLen h) (bufData (rx x)))) (hMaskKey h);
               x1 = x\<lparr>rx := bufPatch (rx x) (hHeaderLen h) payload\<rparr>
           in if and (hOpcode h) 0x8 \<noteq> 0 then wsControl h payload tot x1 s
              else wsData conf h payload tot x1 s)"

text \<open>Every round that goes on consumes a frame.\<close>

lemma wsHeader_ge: "wsParseHeader b = WS_OK h \<Longrightarrow> 2 \<le> hHeaderLen h"
  using wsParseHeader_sound(1) [of b h] by (simp add: hdr_valid_def hdr_encode_def)

lemma wsFail_rx: "wsFail x code s = (out, x', s') \<Longrightarrow> out = WsStop \<and> rx x' = rx x"
  by (auto simp: wsFail_def sendCloseAndMark_def split: prod.splits if_splits option.splits)

lemma wsControl_rx:
  "wsControl h payload tot x s = (out, x', s') \<Longrightarrow> rx x' = bufConsume (rx x) tot"
  by (auto simp: wsControl_def sendCloseAndMark_def split: prod.splits if_splits option.splits)

lemma wsData_rx:
  "wsData conf h payload tot x s = (out, x', s') \<Longrightarrow> out \<noteq> WsStop \<Longrightarrow> rx x' = bufConsume (rx x) tot"
  by (auto simp: wsData_def wsDataOpen_def Let_def split: prod.splits if_splits option.splits dest!: wsFail_rx)

lemma wsFrameStep_shorter:
  assumes "wsFrameStep conf x s = (out, x', s')" and "out \<noteq> WsStop"
  shows "bufLen (rx x') < bufLen (rx x)"
proof (cases "wsParseHeader (bufData (rx x))")
  case (WS_OK h)
  let ?tot = "hHeaderLen h + unat (hPayloadLen h)"
  let ?p = "wsUnmask (take (unat (hPayloadLen h)) (drop (hHeaderLen h) (bufData (rx x)))) (hMaskKey h)"
  have "rx x' = bufConsume (bufPatch (rx x) (hHeaderLen h) ?p) ?tot" and "?tot \<le> bufLen (rx x)"
    using assms WS_OK
    by (auto simp: wsFrameStep_def Let_def split: if_splits dest!: wsFail_rx wsControl_rx wsData_rx)
  moreover have "length ?p \<le> unat (hPayloadLen h)" by (simp add: length_wsUnmask)
  ultimately show ?thesis using wsHeader_ge [OF WS_OK] by (auto intro!: consume_shorter)
qed (use assms in \<open>auto simp: wsFrameStep_def dest!: wsFail_rx\<close>)

text \<open>
  The frame loop, on the connection at address \<open>c\<close>. The first component of the result says that the
  connection was parked inside.
\<close>

definition parkConn :: "nat \<Rightarrow> Conn_t \<Rightarrow> Msg_t \<Rightarrow> 'a world_scheme \<Rightarrow> 'a world_scheme" where
  "parkConn c x m w =
     (let w1 = upd_conn c (\<lambda>_. x\<lparr>pendingMsg := Some m\<rparr>) w;
          w2 = parkListPush c w1
      in snd (os_epoll_ctl (cepollfd x) EPOLL_CTL_DEL (cfd x) [] w2))"

function wsLoop :: "ServerConfig_t \<Rightarrow> nat \<Rightarrow> Conn_t \<Rightarrow> 'a world_scheme \<Rightarrow> bool \<times> Conn_t \<times> 'a world_scheme" where
  "wsLoop conf c x w =
     (if closeAfterSend x then (False, x, w)
      else case wsFrameStep conf x w of (out, x1, w1) \<Rightarrow>
        (case out of
           WsStop \<Rightarrow> (False, x1, w1)
         | WsMore \<Rightarrow> wsLoop conf c x1 w1
         | WsMsg m \<Rightarrow>
             if confHigh conf \<le> queueSize (dataQueue w1) then (True, x1, parkConn c x1 m w1)
             else wsLoop conf c x1 (snd (push_data m w1))))"
  by pat_completeness auto
termination
  by (relation "measure (\<lambda>(conf, c, x, w). bufLen (rx x))") (auto dest!: wsFrameStep_shorter [OF sym])

declare wsLoop.simps [simp del]

definition handleWsOpen :: "ServerConfig_t \<Rightarrow> nat \<Rightarrow> Conn_t \<Rightarrow> 'a world_scheme \<Rightarrow> Disposition_t \<times> 'a world_scheme" where
  "handleWsOpen conf c x w =
     (let (rc, b, w1) = bufRecv (cfd x) (rx x) 4096 (maxMessage conf + maxFrame conf) w;
          x1 = x\<lparr>rx := b\<rparr>;
          (x2, w2) = (if rc = -2 then sendCloseAndMark x1 1009 w1 else (x1, w1));
          eof = (rc = -1 \<or> rc = 2);
          (parked, x3, w3) = wsLoop conf c x2 w2
      in if parked then (DISP_PARKED, w3)
         else
           let (disp, x4, w4) = flushTx x3 w3
           in (if eof \<and> disp \<noteq> DISP_CLOSE then DISP_CLOSE else disp, upd_conn c (\<lambda>_. x4) w4))"

subsection \<open>The handshake\<close>

definition push_ctrl :: "Msg_t \<Rightarrow> 'a world_scheme \<Rightarrow> int \<times> 'a world_scheme" where
  "push_ctrl m w = (case push m (ctrlQueue w) w of (rc, q, w1) \<Rightarrow> (rc, w1\<lparr>ctrlQueue := q\<rparr>))"

text \<open>Handing the sink over to the aggregator.\<close>

definition handOff :: "nat \<Rightarrow> Conn_t \<Rightarrow> 'a world_scheme \<Rightarrow> Disposition_t \<times> 'a world_scheme" where
  "handOff c x w =
     (let w1 = snd (os_epoll_ctl (cepollfd x) EPOLL_CTL_DEL (cfd x) [] w);
          w2 = upd_conn c (\<lambda>_. x\<lparr>cepollfd := -1\<rparr>) w1
      in case msgNewSinkAdd c w2 of
           (None, w3) \<Rightarrow> (DISP_CLOSE, w3)
         | (Some m, w3) \<Rightarrow> (case push_ctrl m w3 of (rc, w4) \<Rightarrow>
             if rc \<noteq> 0 then (DISP_CLOSE, w4) else (DISP_HANDOFF, w4)))"

definition handleHandshakeSend ::
  "ServerConfig_t \<Rightarrow> nat \<Rightarrow> Conn_t \<Rightarrow> 'a world_scheme \<Rightarrow> Disposition_t \<times> 'a world_scheme" where
  "handleHandshakeSend conf c x w =
     (let (disp, x1, w1) = flushTx x w
      in if disp \<noteq> DISP_REARM_IN then (disp, upd_conn c (\<lambda>_. x1) w1)
         else if role x1 = ROLE_SINK then handOff c x1 w1
         else handleWsOpen conf c (x1\<lparr>cstate := ST_WS_OPEN, msgUtf8 := wsUtf8Reset\<rparr>) w1)"

text \<open>The answer to a request: the \<open>switch\<close> over the status.\<close>

definition handshakeReply ::
  "ServerConfig_t \<Rightarrow> HandshakeResult_t \<Rightarrow> Conn_t \<Rightarrow> 'a os_scheme \<Rightarrow> Conn_t \<times> 'a os_scheme" where
  "handshakeReply conf hr x s = (case hsStatus hr of
       HS_OK \<Rightarrow> (case httpBuildUpgradeResponse (tx x) (hsAcceptKey hr) s of (b, s1) \<Rightarrow>
         (x\<lparr>tx := b, role := (if cstr (hsPath hr) = sinkPath conf then ROLE_SINK else ROLE_SOURCE),
            closeAfterSend := False\<rparr>, s1))
     | HS_BAD_VERSION \<Rightarrow> (case httpBuildError (tx x) 426 (bytes ''Upgrade Required'')
           (Some (bytes ''Sec-WebSocket-Version: 13'' @ CRLF)) s of (b, s1) \<Rightarrow>
         (x\<lparr>tx := b, closeAfterSend := True\<rparr>, s1))
     | _ \<Rightarrow> (case httpBuildError (tx x) 400 (bytes ''Bad Request'') None s of (b, s1) \<Rightarrow>
         (x\<lparr>tx := b, closeAfterSend := True\<rparr>, s1)))"

definition handleHandshakeRead ::
  "ServerConfig_t \<Rightarrow> nat \<Rightarrow> Conn_t \<Rightarrow> 'a world_scheme \<Rightarrow> Disposition_t \<times> 'a world_scheme" where
  "handleHandshakeRead conf c x w =
     (let (rc, b, w1) = bufRecv (cfd x) (rx x) 4096 (handshakeMax conf) w;
          x1 = x\<lparr>rx := b\<rparr>
      in if rc = -1 then (DISP_CLOSE, upd_conn c (\<lambda>_. x1) w1)
         else if rc = -2 then
           (case httpBuildError (tx x1) 431 (bytes ''Request Header Fields Too Large'') None w1 of (b, w2) \<Rightarrow>
              handleHandshakeSend conf c (x1\<lparr>tx := b, closeAfterSend := True, cstate := ST_HANDSHAKE_SEND\<rparr>) w2)
         else if rc = 0 then (DISP_REARM_IN, upd_conn c (\<lambda>_. x1) w1)
         else
           let eof = (rc = 2)
           in case httpFindHeaderEnd (bufData (rx x1)) of
                None \<Rightarrow> (if eof then DISP_CLOSE else DISP_REARM_IN, upd_conn c (\<lambda>_. x1) w1)
              | Some e \<Rightarrow>
                  let headerLen = e + 4;
                      hr = httpParseHandshake (take headerLen (bufData (rx x1)));
                      x2 = x1\<lparr>rx := bufConsume (rx x1) headerLen\<rparr>;
                      (x3, w2) = handshakeReply conf hr x2 w1;
                      x4 = (if eof then x3\<lparr>closeAfterSend := True\<rparr> else x3)
                  in handleHandshakeSend conf c (x4\<lparr>cstate := ST_HANDSHAKE_SEND\<rparr>) w2)"

subsection \<open>The thread\<close>

definition handleConn :: "ServerConfig_t \<Rightarrow> nat \<Rightarrow> 'a world_scheme \<Rightarrow> 'a world_scheme" where
  "handleConn conf c w = (case conns w c of None \<Rightarrow> w
     | Some x \<Rightarrow>
         let (disp, w1) = (case cstate x of
                ST_HANDSHAKE_READ \<Rightarrow> handleHandshakeRead conf c x w
              | ST_HANDSHAKE_SEND \<Rightarrow> handleHandshakeSend conf c x w
              | ST_WS_OPEN \<Rightarrow> handleWsOpen conf c x w)
         in applyDisposition c disp w1)"

record server_world = world +
  totalRequests :: u64

text \<open>One turn of the thread's loop: \<open>pop\<close> waits, ends the loop or hands out a connection.\<close>

datatype worker_next = WkWait | WkExit | WkNext

definition workerStep :: "ServerConfig_t \<Rightarrow> 'a server_world_scheme \<Rightarrow> worker_next \<times> 'a server_world_scheme" where
  "workerStep conf w = (case pop (ingest w) of
       (PopWait, q) \<Rightarrow> (WkWait, w\<lparr>ingest := q\<rparr>)
     | (PopNone, q) \<Rightarrow> (WkExit, w\<lparr>ingest := q\<rparr>)
     | (PopItem c, q) \<Rightarrow>
         let w1 = w\<lparr>ingest := q, totalRequests := totalRequests w + 1\<rparr>
         in (WkNext, handleConn conf c w1))"

end
