(* ===== verification/WorkerProofs.thy ===== *)
theory WorkerProofs
  imports Worker
begin

section \<open>The workers implement the WebSocket receiver\<close>

text \<open>
  The abstract receiver \<open>receive\<close> works on whole frames and says which messages are delivered, which
  control frames are answered and with which code a connection is closed; it knows nothing of buffers,
  masks, incremental validation or queues. The frame loop of the worker implements it.
\<close>

subsection \<open>The abstract receiver\<close>

datatype ws_event = EvMsg byte "byte list" | EvPong "byte list" | EvClose u16

datatype recv_res = RNext "(byte \<times> byte list) option" "ws_event option" | RClose u16

text \<open>RFC 6455, section 5.5.1 and 7.4: the code that answers a close frame.\<close>

definition closeAnswer :: "byte list \<Rightarrow> u16" where
  "closeAnswer p =
     (if p = [] then 1000
      else if length p = 1 \<or> \<not> wsIsValidCloseCode (word_cat (p ! 0) (p ! 1)) then 1002
      else if \<not> utf8_valid (drop 2 p) then 1007
      else word_cat (p ! 0) (p ! 1))"

text \<open>
  One frame. The state is the message in progress: the opcode of its first frame and its bytes so far.
\<close>

definition recvStep :: "ServerConfig_t \<Rightarrow> (byte \<times> byte list) option \<Rightarrow> WsFrameHdr_t \<times> byte list \<Rightarrow> recv_res" where
  "recvStep conf st f = (case f of (h, p) \<Rightarrow>
     if \<not> hMasked h then RClose 1002
     else if maxFrame conf < length p then RClose 1009
     else if hOpcode h = WS_OP_PING then RNext st (Some (EvPong p))
     else if hOpcode h = WS_OP_CLOSE then RClose (closeAnswer p)
     else if hOpcode h = WS_OP_PONG then RNext st None
     else if (hOpcode h = WS_OP_CONT) = (st = None) then RClose 1002
     else
       let (op, acc) = (case st of None \<Rightarrow> (hOpcode h, []) | Some s \<Rightarrow> s)
       in if maxMessage conf < length acc + length p then RClose 1009
          else if op = WS_OP_TEXT \<and> \<not> utf8_prefix (acc @ p) then RClose 1007
          else if \<not> hFin h then RNext (Some (op, acc @ p)) None
          else if op = WS_OP_TEXT \<and> \<not> utf8_valid (acc @ p) then RClose 1007
          else RNext None (Some (EvMsg op (acc @ p))))"

text \<open>A sequence of frames: the events, and the state unless the connection is closed.\<close>

fun receive :: "ServerConfig_t \<Rightarrow> (byte \<times> byte list) option \<Rightarrow> (WsFrameHdr_t \<times> byte list) list \<Rightarrow>
    ws_event list \<times> (byte \<times> byte list) option option" where
  "receive conf st [] = ([], Some st)"
| "receive conf st (f # fs) = (case recvStep conf st f of
       RClose code \<Rightarrow> ([EvClose code], None)
     | RNext st' ev \<Rightarrow> (case receive conf st' fs of (evs, fin) \<Rightarrow>
         (case ev of None \<Rightarrow> evs | Some e \<Rightarrow> e # evs, fin)))"

definition serverFrame :: "byte \<Rightarrow> byte list \<Rightarrow> byte list" where
  "serverFrame op p = frame_encode (server_hdr op (of_nat (length p)), p)"

definition closeFrame :: "u16 \<Rightarrow> byte list" where
  "closeFrame code = serverFrame WS_OP_CLOSE [ucast (drop_bit 8 code), ucast code]"

fun evReply :: "ws_event \<Rightarrow> byte list" where
  "evReply (EvMsg op p) = []"
| "evReply (EvPong p) = serverFrame WS_OP_PONG p"
| "evReply (EvClose code) = closeFrame code"

subsection \<open>Calls that only touch the allocator and the clock\<close>

definition os_quiet :: "'a os_scheme \<Rightarrow> 'a os_scheme \<Rightarrow> bool" where
  "os_quiet s s' \<longleftrightarrow> os.more s' = os.more s \<and> rxs s' = rxs s \<and> txs s' = txs s \<and> wire s' = wire s \<and>
     ep_log s' = ep_log s \<and> closed s' = closed s \<and> (mallocs s = [] \<longrightarrow> mallocs s' = [])"

lemma os_quiet_refl [simp]: "os_quiet s s"
  by (simp add: os_quiet_def)

lemma os_quiet_trans [trans]: "os_quiet a b \<Longrightarrow> os_quiet b c \<Longrightarrow> os_quiet a c"
  by (auto simp: os_quiet_def)

lemma os_quiet_mallocs: "os_quiet s s' \<Longrightarrow> mallocs s = [] \<Longrightarrow> mallocs s' = []"
  by (simp add: os_quiet_def)

lemma frameNew_quiet: "frameNew op p s = (f, s') \<Longrightarrow> os_quiet s s'"
  by (auto simp: frameNew_def os_alloc_def os_quiet_def split: list.splits if_splits)

lemma bufAppend_quiet: "bufAppend b xs s = (b', s') \<Longrightarrow> os_quiet s s'"
  using bufAppend_frame [of b xs s b' s'] bufAppend_mallocs [of b xs s b' s'] by (simp add: os_quiet_def)

lemma msgNewData_quiet: "msgNewData i op p s = (m, s') \<Longrightarrow> os_quiet s s'"
  by (auto simp: msgNewData_def os_alloc_def os_realtime_def os_quiet_def split: list.splits if_splits)

text \<open>Making a reply and queueing it, when memory is available.\<close>

lemma reply_queued:
  assumes "frameNew op p s = (f, s1)" and "mallocs s = []" and "bufInv b"
    and "op = WS_OP_PONG \<or> op = WS_OP_CLOSE" and "length p \<le> 125"
  obtains g b' s2 where "f = Some g" and "bufAppend b g s1 = (b', s2)" and "bufInv b'"
    and "bufData b' = bufData b @ serverFrame op p" and "os_quiet s s2"
proof -
  from assms(1,2) obtain g where g: "f = Some g" by (auto simp: frameNew_def os_alloc_def)
  obtain b' s2 where app: "bufAppend b g s1 = (b', s2)" by fastforce
  have "mallocs s1 = []" using frameNew_quiet [OF assms(1)] assms(2) by (rule os_quiet_mallocs)
  with bufAppend_view_cases [OF app assms(3)] have "bufData b' = bufData b @ g" by simp
  moreover have "g = serverFrame op p"
    using frameNew_frame [of op p s g s1] assms g by (auto simp: serverFrame_def)
  moreover have "os_quiet s s2"
    using frameNew_quiet [OF assms(1)] bufAppend_quiet [OF app] by (rule os_quiet_trans)
  ultimately show thesis using that g app bufInv_bufAppend [OF app assms(3)] by simp
qed

lemma sendCloseAndMark_effect:
  assumes "sendCloseAndMark x code s = (x', s')" and "\<not> closeAfterSend x" and "mallocs s = []" and "bufInv (tx x)"
  shows "\<exists>b. x' = x\<lparr>tx := b, closeAfterSend := True\<rparr> \<and> bufInv b \<and> bufData b = bufData (tx x) @ closeFrame code \<and>
    os_quiet s s'"
proof -
  let ?p = "[ucast (drop_bit 8 code), ucast code] :: byte list"
  obtain f s1 where new: "frameNew WS_OP_CLOSE ?p s = (f, s1)" by fastforce
  obtain g b' s2 where "f = Some g" "bufAppend (tx x) g s1 = (b', s2)" "bufInv b'"
    "bufData b' = bufData (tx x) @ serverFrame WS_OP_CLOSE ?p" "os_quiet s s2"
    by (rule reply_queued [OF new assms(3,4)]) simp_all
  then show ?thesis using assms(1,2) new by (auto simp: sendCloseAndMark_def closeFrame_def)
qed

subsection \<open>One round of the loop is one step of the receiver\<close>

lemma code_word_cat: "or (push_bit 8 (ucast (a :: byte))) (ucast (b :: byte)) = (word_cat a b :: u16)"
  by (rule bit_word_eqI) (auto simp: bit_simps bit_word_cat_iff not_less dest: bit_imp_le_length)

lemma closeReply_answer:
  "(if length p = 1 then 1002 else closeReply p) = closeAnswer p"
proof -
  have "length p = 1 \<or> p = [] \<or> 2 \<le> length p" by (cases p rule: list.exhaust) (auto simp: Suc_le_eq)
  then show ?thesis
    by (auto simp: closeReply_def closeAnswer_def code_word_cat utf8_valid_def Let_def split: prod.splits)
qed

definition assembled :: "(byte \<times> byte list) option \<Rightarrow> Conn_t \<Rightarrow> bool" where
  "assembled st x \<longleftrightarrow> bufInv (msg x) \<and> (case st of None \<Rightarrow> \<not> fragmenting x
     | Some (op, acc) \<Rightarrow> fragmenting x \<and> msgOpcode x = op \<and> bufData (msg x) = acc \<and>
         (op = WS_OP_TEXT \<longrightarrow> wsUtf8Feed wsUtf8Reset acc = (0, msgUtf8 x)))"

lemma assembled_simps [simp]:
  "assembled st (x\<lparr>rx := b\<rparr>) = assembled st x" "assembled st (x\<lparr>tx := b\<rparr>) = assembled st x"
  "assembled st (x\<lparr>closeAfterSend := cl\<rparr>) = assembled st x"
  "assembled None x = (bufInv (msg x) \<and> \<not> fragmenting x)"
  "assembled (Some (op, acc)) x = (bufInv (msg x) \<and> fragmenting x \<and> msgOpcode x = op \<and> bufData (msg x) = acc \<and>
     (op = WS_OP_TEXT \<longrightarrow> wsUtf8Feed wsUtf8Reset acc = (0, msgUtf8 x)))"
  by (simp_all add: assembled_def split: option.split)

definition recvRel :: "(byte \<times> byte list) option \<Rightarrow> Conn_t \<Rightarrow> bool" where
  "recvRel st x \<longleftrightarrow> bufInv (rx x) \<and> bufInv (tx x) \<and> \<not> closeAfterSend x \<and> assembled st x"

text \<open>What the receiver leaves of a connection: everything but its buffers and the assembly state.\<close>

definition sameConn :: "Conn_t \<Rightarrow> Conn_t \<Rightarrow> bool" where
  "sameConn x x' \<longleftrightarrow> x'\<lparr>rx := rx x, tx := tx x, msg := msg x, msgOpcode := msgOpcode x,
     fragmenting := fragmenting x, msgUtf8 := msgUtf8 x, closeAfterSend := closeAfterSend x\<rparr> = x"

lemma sameConn_refl [simp]: "sameConn x x"
  by (simp add: sameConn_def)

lemma sameConn_trans [trans]: "sameConn x y \<Longrightarrow> sameConn y z \<Longrightarrow> sameConn x z"
  unfolding sameConn_def by (cases x, cases y, cases z) simp

lemma sameConn_fields:
  assumes "sameConn x x'"
  shows "cfd x' = cfd x" "cepollfd x' = cepollfd x" "cid x' = cid x" "role x' = role x" "cstate x' = cstate x"
    "parkNext x' = parkNext x" "regPrev x' = regPrev x" "regNext x' = regNext x" "pendingMsg x' = pendingMsg x"
  using assms unfolding sameConn_def by (cases x, cases x', simp)+

lemma sameConn_upd [simp]:
  "sameConn x (x'\<lparr>rx := b\<rparr>) = sameConn x x'" "sameConn x (x'\<lparr>tx := b\<rparr>) = sameConn x x'"
  "sameConn x (x'\<lparr>msg := b\<rparr>) = sameConn x x'" "sameConn x (x'\<lparr>msgOpcode := op\<rparr>) = sameConn x x'"
  "sameConn x (x'\<lparr>fragmenting := fr\<rparr>) = sameConn x x'" "sameConn x (x'\<lparr>msgUtf8 := st\<rparr>) = sameConn x x'"
  "sameConn x (x'\<lparr>closeAfterSend := cl\<rparr>) = sameConn x x'"
  unfolding sameConn_def by (cases x, cases x', simp)+

text \<open>The step of the receiver that a round of the loop stands for.\<close>

definition stepRefines ::
  "recv_res \<Rightarrow> byte list \<Rightarrow> Conn_t \<Rightarrow> 'a os_scheme \<Rightarrow> ws_out \<times> Conn_t \<times> 'a os_scheme \<Rightarrow> bool" where
  "stepRefines res r x s q \<longleftrightarrow> (case q of (out, x', s') \<Rightarrow> os_quiet s s' \<and> sameConn x x' \<and>
     (case res of
        RClose code \<Rightarrow> out = WsStop \<and> closeAfterSend x' \<and> bufInv (tx x') \<and> bufInv (rx x') \<and>
          bufData (tx x') = bufData (tx x) @ closeFrame code
      | RNext st' ev \<Rightarrow> recvRel st' x' \<and> bufData (rx x') = r \<and>
          bufData (tx x') = bufData (tx x) @ (case ev of None \<Rightarrow> [] | Some e \<Rightarrow> evReply e) \<and>
          (case ev of Some (EvMsg op d) \<Rightarrow>
              \<exists>ts. out = WsMsg \<lparr>mkind = MSG_DATA, srcId = cid x, mopcode = op, mts = ts, mconn = None, mdata = d\<rparr>
            | _ \<Rightarrow> out = WsMore)))"

lemma stepRefines_base:
  "stepRefines res r x1 s q \<Longrightarrow> tx x1 = tx x \<Longrightarrow> sameConn x x1 \<Longrightarrow> stepRefines res r x s q"
  by (cases q; cases res) (auto simp: stepRefines_def sameConn_fields intro: sameConn_trans split: option.splits ws_event.splits)

lemma wsFail_refines:
  assumes "\<not> closeAfterSend x" and "mallocs s = []" and "bufInv (tx x)" and "tx x = tx x0" and "sameConn x0 x"
    and "os_quiet s0 s" and "bufInv (rx x)"
  shows "stepRefines (RClose code) r x0 s0 (wsFail x code s)"
proof -
  obtain x' s' where mark: "sendCloseAndMark x code s = (x', s')" by fastforce
  from sendCloseAndMark_effect [OF mark assms(1-3)] show ?thesis
    using assms(4-7) mark by (auto simp: stepRefines_def wsFail_def intro: os_quiet_trans)
qed

lemma wsControl_refines:
  assumes rel: "recvRel st x" and mem: "mallocs s = []" and len: "length p \<le> 125"
    and rx: "drop tot (bufData (rx x)) = r"
  shows "stepRefines (if hOpcode h = WS_OP_PING then RNext st (Some (EvPong p))
      else if hOpcode h = WS_OP_CLOSE then RClose (closeAnswer p) else RNext st None) r x s
      (wsControl h p tot x s)"
proof -
  have inv: "bufInv (tx x)" "bufInv (rx x)" "\<not> closeAfterSend x" using rel by (simp_all add: recvRel_def)
  consider (ping) "hOpcode h = WS_OP_PING" | (close) "hOpcode h \<noteq> WS_OP_PING" "hOpcode h = WS_OP_CLOSE"
    | (pong) "hOpcode h \<noteq> WS_OP_PING" "hOpcode h \<noteq> WS_OP_CLOSE" by blast
  then show ?thesis
  proof cases
    case ping
    obtain f s1 where new: "frameNew WS_OP_PONG p s = (f, s1)" by fastforce
    obtain g b' s2 where "f = Some g" "bufAppend (tx x) g s1 = (b', s2)" "bufInv b'"
      "bufData b' = bufData (tx x) @ serverFrame WS_OP_PONG p" "os_quiet s s2"
      by (rule reply_queued [OF new mem inv(1) _ len]) simp_all
    then show ?thesis
      using ping new rel rx by (simp add: stepRefines_def wsControl_def recvRel_def bufConsume_view bufInv_bufConsume)
  next
    case close
    obtain x' s' where mark: "sendCloseAndMark x (closeAnswer p) s = (x', s')" by fastforce
    from sendCloseAndMark_effect [OF mark inv(3) mem inv(1)] show ?thesis
      using close mark inv unfolding wsControl_def closeReply_answer by (auto simp: stepRefines_def bufInv_bufConsume)
  next
    case pong
    then show ?thesis
      using rel rx by (simp add: stepRefines_def wsControl_def recvRel_def bufConsume_view bufInv_bufConsume)
  qed
qed

lemma append_msg:
  assumes "bufAppend b p s = (b', s')" and "bufInv b" and "mallocs s = []"
  shows "bufInv b'" "bufData b' = bufData b @ p" "os_quiet s s'" "mallocs s' = []"
  using bufInv_bufAppend [OF assms(1,2)] bufAppend_view_cases [OF assms(1,2)] bufAppend_quiet [OF assms(1)]
    assms(3) os_quiet_mallocs by auto

lemma msgNewData_made:
  assumes "msgNewData i op p s = (m, s')" and "mallocs s = []"
  shows "\<exists>ts. m = Some \<lparr>mkind = MSG_DATA, srcId = i, mopcode = op, mts = ts, mconn = None, mdata = p\<rparr>"
  using assms by (auto simp: msgNewData_def os_alloc_def split: prod.splits)

text \<open>A data frame, once the connection knows which message it belongs to.\<close>

definition dataStep :: "ServerConfig_t \<Rightarrow> bool \<Rightarrow> byte \<Rightarrow> byte list \<Rightarrow> byte list \<Rightarrow> recv_res" where
  "dataStep conf fin op acc p =
     (if maxMessage conf < length acc + length p then RClose 1009
      else if op = WS_OP_TEXT \<and> \<not> utf8_prefix (acc @ p) then RClose 1007
      else if \<not> fin then RNext (Some (op, acc @ p)) None
      else if op = WS_OP_TEXT \<and> \<not> utf8_valid (acc @ p) then RClose 1007
      else RNext None (Some (EvMsg op (acc @ p))))"

lemma wsDataOpen_refines:
  assumes rel: "recvRel (Some (op, acc)) x1" and mem: "mallocs s = []" and rx: "drop tot (bufData (rx x1)) = r"
    and same: "tx x1 = tx x" "sameConn x x1"
  shows "stepRefines (dataStep conf fin op acc p) r x s (wsDataOpen conf fin p tot x1 s)"
proof -
  from rel have inv: "bufInv (tx x1)" "bufInv (rx x1)" "bufInv (msg x1)" "\<not> closeAfterSend x1"
    and op: "msgOpcode x1 = op" and acc: "bufData (msg x1) = acc" "fragmenting x1"
    and u8: "op = WS_OP_TEXT \<longrightarrow> wsUtf8Feed wsUtf8Reset acc = (0, msgUtf8 x1)"
    by (simp_all add: recvRel_def)
  have len: "bufLen (msg x1) = length acc" using acc by (simp flip: length_bufData)
  obtain rc u where feed: "(if msgOpcode x1 = WS_OP_TEXT \<and> 0 < length p then wsUtf8Feed (msgUtf8 x1) p
    else (0, msgUtf8 x1)) = (rc, u)" by fastforce
  have whole: "wsUtf8Feed wsUtf8Reset (acc @ p) = (rc, u)" if "op = WS_OP_TEXT"
    using that u8 feed op by (auto simp: wsUtf8Feed_append split: if_splits)
  have rc: "rc = 0 \<longleftrightarrow> \<not> (op = WS_OP_TEXT \<and> \<not> utf8_prefix (acc @ p))"
    using whole feed op wsUtf8Feed_prefix [of "acc @ p"] by (auto split: if_splits)
  have fin8: "op = WS_OP_TEXT \<and> \<not> wsUtf8Done u \<longleftrightarrow> op = WS_OP_TEXT \<and> \<not> utf8_valid (acc @ p)" if "rc = 0"
    using that whole by (auto simp: utf8_valid_def)
  obtain b s1 where app: "bufAppend (msg x1) p s = (b, s1)" by fastforce
  note a = append_msg [OF app inv(3) mem]
  obtain m s2 where new: "msgNewData (cid x1) op (bufData b) s1 = (m, s2)" by fastforce
  from msgNewData_made [OF new a(4)] obtain ts where
    m: "m = Some \<lparr>mkind = MSG_DATA, srcId = cid x1, mopcode = op, mts = ts, mconn = None, mdata = bufData b\<rparr>" by blast
  show ?thesis
  proof (cases "maxMessage conf < length acc + length p \<or> rc \<noteq> 0")
    case True
    then show ?thesis
      using wsFail_refines [of x1 s x s 1009 r] wsFail_refines [of "x1\<lparr>msgUtf8 := u\<rparr>" s x s 1007 r] inv mem same rc len feed
      by (auto simp: dataStep_def wsDataOpen_def Let_def)
  next
    case False
    then have step: "wsDataOpen conf fin p tot x1 s =
        (if \<not> fin then (WsMore, x1\<lparr>msgUtf8 := u, msg := b, rx := bufConsume (rx x1) tot\<rparr>, s1)
         else if op = WS_OP_TEXT \<and> \<not> wsUtf8Done u then
           wsFail (x1\<lparr>msgUtf8 := u, msg := b, rx := bufConsume (rx x1) tot, fragmenting := False\<rparr>) 1007 s1
         else (WsMsg (the m), x1\<lparr>msgUtf8 := u, msg := bufReset b, rx := bufConsume (rx x1) tot,
           fragmenting := False\<rparr>, s2))"
      using feed app op len m new by (simp add: wsDataOpen_def Let_def)
    have "os_quiet s s2" using a(3) msgNewData_quiet [OF new] by (rule os_quiet_trans)
    show ?thesis
    proof (cases "fin \<and> op = WS_OP_TEXT \<and> \<not> wsUtf8Done u")
      case True
      then show ?thesis
        using False rc fin8 step inv same a wsFail_refines [of _ s1 x s 1007 r]
        by (auto simp: dataStep_def bufInv_bufConsume)
    next
      case last: False
      then show ?thesis
        using False rc fin8 step inv same a acc op rx m whole \<open>os_quiet s s2\<close> sameConn_fields [OF same(2)]
        by (auto simp: dataStep_def stepRefines_def recvRel_def bufConsume_view bufInv_bufConsume bufInv_bufReset)
    qed
  qed
qed

lemma recvStep_data:
  assumes "hMasked h" "\<not> maxFrame conf < length p" "hOpcode h \<notin> {WS_OP_PING, WS_OP_CLOSE, WS_OP_PONG}"
  shows "recvStep conf st (h, p) =
    (if (hOpcode h = WS_OP_CONT) = (st = None) then RClose 1002
     else dataStep conf (hFin h) (case st of None \<Rightarrow> hOpcode h | Some (op, acc) \<Rightarrow> op)
       (case st of None \<Rightarrow> [] | Some (op, acc) \<Rightarrow> acc) p)"
  using assms by (cases st) (auto simp: recvStep_def dataStep_def Let_def)

lemma wsData_refines:
  assumes rel: "recvRel st x" and mem: "mallocs s = []" and rx: "drop tot (bufData (rx x)) = r"
    and same: "tx x = tx x0" "sameConn x0 x"
    and data: "hMasked h" "\<not> maxFrame conf < length p" "hOpcode h \<notin> {WS_OP_PING, WS_OP_CLOSE, WS_OP_PONG}"
  shows "stepRefines (recvStep conf st (h, p)) r x0 s (wsData conf h p tot x s)"
proof -
  have inv: "bufInv (tx x)" "bufInv (rx x)" "\<not> closeAfterSend x" using rel by (simp_all add: recvRel_def)
  have open_iff: "fragmenting x \<longleftrightarrow> st \<noteq> None" using rel by (auto simp: recvRel_def assembled_def split: option.splits)
  show ?thesis
  proof (cases "(hOpcode h = WS_OP_CONT) = (st = None)")
    case True
    then have "wsData conf h p tot x s = wsFail x 1002 s" using open_iff by (auto simp: wsData_def)
    moreover have "recvStep conf st (h, p) = RClose 1002" using True by (simp add: recvStep_data [OF data])
    ultimately show ?thesis using wsFail_refines [of x s x0 s 1002 r] inv mem same by simp
  next
    case False
    define x1 where "x1 = (if hOpcode h = WS_OP_CONT then x
      else x\<lparr>msgOpcode := hOpcode h, fragmenting := True, msg := bufReset (msg x), msgUtf8 := wsUtf8Reset\<rparr>)"
    have "wsData conf h p tot x s = wsDataOpen conf (hFin h) p tot x1 s"
      using False open_iff by (auto simp: wsData_def x1_def Let_def)
    moreover have rel1: "recvRel (Some (case st of None \<Rightarrow> hOpcode h | Some (op, acc) \<Rightarrow> op,
        case st of None \<Rightarrow> [] | Some (op, acc) \<Rightarrow> acc)) x1"
      using False rel by (cases st) (auto simp: recvRel_def x1_def bufInv_bufReset bufReset_view)
    moreover have eq: "tx x1 = tx x0" "sameConn x0 x1" "drop tot (bufData (rx x1)) = r"
      using same rx by (simp_all add: x1_def)
    moreover note wsDataOpen_refines [OF rel1 mem eq(3,1,2), of conf "hFin h" p]
    ultimately show ?thesis by (simp only: recvStep_data [OF data] False if_False)
  qed
qed

lemma frame_on_buffer:
  assumes "frame_valid (h, p)" and "bufData b = frame_encode (h, p) @ r" and "hMasked h"
  shows "wsParseHeader (bufData b) = WS_OK h" and "unat (hPayloadLen h) = length p"
    and "wsUnmask (take (length p) (drop (hHeaderLen h) (bufData b))) (hMaskKey h) = p"
    and "bufLen b = hHeaderLen h + length p + length r" and "drop (hHeaderLen h + length p) (bufData b) = r"
proof -
  have v: "hdr_valid h" "length p = unat (hPayloadLen h)" using assms(1) by (simp_all add: frame_valid_def)
  have d: "bufData b = hdr_encode h @ wsUnmask p (hMaskKey h) @ r"
    using assms(2,3) by (simp add: frame_encode_def frame_clear_unmask)
  note len = hdr_encode_length [OF v(1)]
  show "wsParseHeader (bufData b) = WS_OK h" unfolding d using wsParseHeader_encode [OF v(1)] by simp
  show "unat (hPayloadLen h) = length p" using v(2) by simp
  show "wsUnmask (take (length p) (drop (hHeaderLen h) (bufData b))) (hMaskKey h) = p"
    unfolding d by (simp add: wsUnmask_twice flip: len)
  have "bufLen b = length (bufData b)" by simp
  then show "bufLen b = hHeaderLen h + length p + length r" unfolding d by (simp flip: len)
  show "drop (hHeaderLen h + length p) (bufData b) = r" unfolding d by (simp flip: len)
qed

lemma wsFrameStep_refines:
  assumes rel: "recvRel st x" and mem: "mallocs s = []" and valid: "frame_valid (h, p)"
    and rx: "bufData (rx x) = frame_encode (h, p) @ r"
  shows "stepRefines (recvStep conf st (h, p)) r x s (wsFrameStep conf x s)"
proof -
  have inv: "bufInv (tx x)" "bufInv (rx x)" "\<not> closeAfterSend x" using rel by (simp_all add: recvRel_def)
  have v: "hdr_valid h" "unat (hPayloadLen h) = length p" using valid by (simp_all add: frame_valid_def)
  have hdr: "wsParseHeader (bufData (rx x)) = WS_OK h"
    unfolding rx frame_encode_def using wsParseHeader_encode [OF v(1)] by simp
  show ?thesis
  proof (cases "\<not> hMasked h \<or> maxFrame conf < length p")
    case True
    then show ?thesis
      using wsFail_refines [of x s x s 1002 r] wsFail_refines [of x s x s 1009 r] inv mem hdr v
      by (auto simp: wsFrameStep_def recvStep_def Let_def)
  next
    case False
    note fr = frame_on_buffer [OF valid rx]
    define x1 where "x1 = x\<lparr>rx := bufPatch (rx x) (hHeaderLen h) p\<rparr>"
    let ?tot = "hHeaderLen h + length p"
    have "\<not> bufLen (rx x) < ?tot" using fr(4) False by simp
    then have step: "wsFrameStep conf x s = (if and (hOpcode h) 0x8 \<noteq> 0 then wsControl h p ?tot x1 s
        else wsData conf h p ?tot x1 s)"
      using False hdr v fr by (simp add: wsFrameStep_def Let_def x1_def)
    have fits: "hHeaderLen h + length p \<le> bufLen (rx x)" using fr(4) False by simp
    then have rel1: "recvRel st x1" using rel by (simp add: recvRel_def x1_def bufInv_bufPatch)
    have "hHeaderLen h \<le> bufLen (rx x)" using fits by simp
    then have rx1: "drop ?tot (bufData (rx x1)) = r"
      using fr(5) False fits inv by (simp add: x1_def bufPatch_view)
    have x1: "tx x1 = tx x" "sameConn x x1" by (simp_all add: x1_def)
    have ops: "hOpcode h \<in> {WS_OP_CONT, WS_OP_TEXT, WS_OP_BIN, WS_OP_CLOSE, WS_OP_PING, WS_OP_PONG}"
      using v(1) by (simp add: hdr_valid_def)
    show ?thesis
    proof (cases "hOpcode h \<in> {WS_OP_CLOSE, WS_OP_PING, WS_OP_PONG}")
      case True
      then have "hPayloadLen h \<le> 125" using v(1) by (simp add: hdr_valid_def)
      then have "length p \<le> 125" using v(2) by (simp add: word_le_nat_alt)
      from wsControl_refines [OF rel1 mem this rx1, of h]
      have "stepRefines (recvStep conf st (h, p)) r x1 s (wsControl h p ?tot x1 s)"
        using True False by (auto simp: recvStep_def)
      from stepRefines_base [OF this x1] show ?thesis
        using True step control_opcode(1) [OF ops] by simp
    next
      case data: False
      then show ?thesis
        using False step control_opcode(1) [OF ops] wsData_refines [OF rel1 mem rx1 x1, of h conf p] by auto
    qed
  qed
qed

subsection \<open>The loop\<close>

text \<open>The bytes after the last complete frame, on which the loop waits for more.\<close>

definition incomplete :: "ServerConfig_t \<Rightarrow> byte list \<Rightarrow> bool" where
  "incomplete conf r \<longleftrightarrow> (case wsParseHeader r of WS_NEED_MORE \<Rightarrow> True | WS_ERR_PROTO \<Rightarrow> False
     | WS_OK h \<Rightarrow> hMasked h \<and> unat (hPayloadLen h) \<le> maxFrame conf \<and>
         length r < hHeaderLen h + unat (hPayloadLen h))"

lemma wsFrameStep_incomplete:
  "incomplete conf (bufData (rx x)) \<Longrightarrow> wsFrameStep conf x s = (WsStop, x, s)"
  by (auto simp: incomplete_def wsFrameStep_def Let_def split: WsRc_t.splits)

fun evMsg :: "u64 \<Rightarrow> ws_event \<Rightarrow> (u64 \<times> byte \<times> byte list) list" where
  "evMsg i (EvMsg op d) = [(i, op, d)]"
| "evMsg i _ = []"

definition delivered :: "u64 \<Rightarrow> ws_event list \<Rightarrow> (u64 \<times> byte \<times> byte list) list" where
  "delivered i evs = concat (map (evMsg i) evs)"

definition msgView :: "Msg_t \<Rightarrow> u64 \<times> byte \<times> byte list" where
  "msgView m = (srcId m, mopcode m, mdata m)"

lemma push_room:
  assumes "mallocs w = []" and "queueInv (dataQueue w)"
  shows "\<exists>w'. snd (push_data m w) = w' \<and> queueInv (dataQueue w') \<and>
    qcontents (dataQueue w') = qcontents (dataQueue w) @ [m] \<and> mallocs w' = [] \<and>
    conns w' = conns w \<and> regHead w' = regHead w \<and> nextId w' = nextId w \<and> ingest w' = ingest w \<and>
    ctrlQueue w' = ctrlQueue w \<and> agg w' = agg w \<and> rxs w' = rxs w \<and> txs w' = txs w \<and> wire w' = wire w \<and>
    closed w' = closed w \<and> ep_log w' = ep_log w \<and> world.more w' = world.more w"
  using assms by (simp add: push_data_def push_def os_alloc_def pushLocked_contents)

text \<open>What the loop leaves alone besides the queue of messages.\<close>

definition loopQuiet :: "'a world_scheme \<Rightarrow> 'a world_scheme \<Rightarrow> bool" where
  "loopQuiet w w' \<longleftrightarrow> conns w' = conns w \<and> regHead w' = regHead w \<and> nextId w' = nextId w \<and>
     ingest w' = ingest w \<and> ctrlQueue w' = ctrlQueue w \<and> agg w' = agg w \<and> rxs w' = rxs w \<and> txs w' = txs w \<and>
     wire w' = wire w \<and> closed w' = closed w \<and> ep_log w' = ep_log w \<and> mallocs w' = [] \<and>
     world.more w' = world.more w"

lemma os_quiet_loop: "os_quiet (w :: 'a world_scheme) w' \<Longrightarrow> mallocs w = [] \<Longrightarrow> loopQuiet w w' \<and> dataQueue w' = dataQueue w"
  unfolding os_quiet_def loopQuiet_def by (cases w, cases w') simp

lemma loopQuiet_trans: "loopQuiet a b \<Longrightarrow> loopQuiet b c \<Longrightarrow> loopQuiet a c"
  by (simp add: loopQuiet_def)

lemma wsLoop_receives:
  assumes "recvRel st x" and "mallocs w = []" and "queueInv (dataQueue w)" and "list_all frame_valid fs"
    and "bufData (rx x) = concat (map frame_encode fs) @ rest" and "incomplete conf rest"
    and "qsize (dataQueue w) + length fs \<le> confHigh conf" and "receive conf st fs = (evs, fin)"
  shows "\<exists>x' w' ms. wsLoop conf c x w = (False, x', w') \<and> loopQuiet w w' \<and> sameConn x x' \<and>
    queueInv (dataQueue w') \<and> qcontents (dataQueue w') = qcontents (dataQueue w) @ ms \<and>
    map msgView ms = delivered (cid x) evs \<and> bufInv (tx x') \<and>
    bufData (tx x') = bufData (tx x) @ concat (map evReply evs) \<and>
    (case fin of None \<Rightarrow> closeAfterSend x' | Some st' \<Rightarrow> recvRel st' x' \<and> bufData (rx x') = rest)"
  using assms
proof (induction fs arbitrary: st x w evs)
  case Nil
  then have "wsFrameStep conf x w = (WsStop, x, w)" by (intro wsFrameStep_incomplete) simp
  then show ?case
    using Nil by (auto simp: wsLoop.simps [of conf c x w] delivered_def recvRel_def loopQuiet_def intro!: exI [of _ "[]"])
next
  case (Cons f fs)
  obtain h p where f: "f = (h, p)" by (cases f)
  let ?r = "concat (map frame_encode fs) @ rest"
  obtain out x1 w1 where step: "wsFrameStep conf x w = (out, x1, w1)" by (metis prod_cases3)
  have ref: "stepRefines (recvStep conf st f) ?r x w (out, x1, w1)"
    using wsFrameStep_refines [OF Cons.prems(1,2), of h p ?r conf] Cons.prems(4,5) step by (simp add: f)
  then have quiet: "loopQuiet w w1" "dataQueue w1 = dataQueue w" and same: "sameConn x x1"
    using os_quiet_loop Cons.prems(2) by (auto simp: stepRefines_def)
  have open0: "\<not> closeAfterSend x" using Cons.prems(1) by (simp add: recvRel_def)
  show ?case
  proof (cases "recvStep conf st f")
    case (RClose code)
    then have "wsLoop conf c x w = (False, x1, w1)"
      using ref step open0 by (simp add: stepRefines_def wsLoop.simps [of conf c x w])
    then show ?thesis
      using RClose ref Cons.prems(3,8) quiet same by (auto simp: stepRefines_def delivered_def)
  next
    case (RNext st' ev)
    obtain evs' where rec: "receive conf st' fs = (evs', fin)" and evs: "evs = (case ev of None \<Rightarrow> evs' | Some e \<Rightarrow> e # evs')"
      using Cons.prems(8) RNext by (auto split: prod.splits)
    have next1: "recvRel st' x1" "bufData (rx x1) = ?r"
      "bufData (tx x1) = bufData (tx x) @ (case ev of None \<Rightarrow> [] | Some e \<Rightarrow> evReply e)"
      using RNext ref by (simp_all add: stepRefines_def)
    define w2 where "w2 = (case out of WsMsg m \<Rightarrow> snd (push_data m w1) | _ \<Rightarrow> w1)"
    define new where "new = (case out of WsMsg m \<Rightarrow> [m] | _ \<Rightarrow> [])"
    have out: "out \<noteq> WsStop" and new: "map msgView new = (case ev of None \<Rightarrow> [] | Some e \<Rightarrow> evMsg (cid x) e)"
      using RNext ref by (auto simp: stepRefines_def new_def msgView_def split: option.splits ws_event.splits)
    have mem1: "mallocs w1 = []" "queueInv (dataQueue w1)" using quiet Cons.prems(3) by (simp_all add: loopQuiet_def)
    have w2: "queueInv (dataQueue w2)" "qcontents (dataQueue w2) = qcontents (dataQueue w) @ new" "loopQuiet w w2"
      "mallocs w2 = []"
      using push_room [OF mem1] quiet mem1 Cons.prems(3)
      by (auto simp: w2_def new_def loopQuiet_def split: ws_out.split)
    then have size: "qsize (dataQueue w2) \<le> Suc (qsize (dataQueue w))"
      using length_qcontents [OF Cons.prems(3)] length_qcontents [OF w2(1)] by (simp add: new_def split: ws_out.splits)
    have loop: "wsLoop conf c x w = wsLoop conf c x1 w2"
      using out step open0 quiet Cons.prems(7)
      by (simp add: wsLoop.simps [of conf c x w] w2_def queueSize_def split: ws_out.split)
    from Cons.IH [OF next1(1) w2(4,1) _ next1(2) Cons.prems(6) _ rec] Cons.prems(4,7) size
    obtain x' w' ms where IH: "wsLoop conf c x1 w2 = (False, x', w')" "loopQuiet w2 w'" "sameConn x1 x'"
      "queueInv (dataQueue w')" "qcontents (dataQueue w') = qcontents (dataQueue w2) @ ms"
      "map msgView ms = delivered (cid x1) evs'" "bufInv (tx x')"
      "bufData (tx x') = bufData (tx x1) @ concat (map evReply evs')"
      "case fin of None \<Rightarrow> closeAfterSend x' | Some st' \<Rightarrow> recvRel st' x' \<and> bufData (rx x') = rest" by auto
    have "map msgView (new @ ms) = delivered (cid x) evs"
      using new IH(6) evs sameConn_fields(3) [OF same] by (auto simp: delivered_def split: option.splits)
    moreover have "bufData (tx x') = bufData (tx x) @ concat (map evReply evs)"
      using IH(8) next1(3) evs by (simp split: option.splits)
    moreover have "loopQuiet w w'" "sameConn x x'"
      using loopQuiet_trans [OF w2(3) IH(2)] sameConn_trans [OF same IH(3)] .
    moreover have "qcontents (dataQueue w') = qcontents (dataQueue w) @ new @ ms" using IH(5) w2(2) by simp
    ultimately show ?thesis using loop IH by (auto intro!: exI [of _ "new @ ms"])
  qed
qed

subsection \<open>From the socket to the queue\<close>

text \<open>Data that arrived in any segmentation is read completely if it fits under the limit.\<close>

definition data_only :: "rx_res list \<Rightarrow> bool" where
  "data_only rs \<longleftrightarrow> list_all (\<lambda>r. case r of RxData bs \<Rightarrow> bs \<noteq> [] | _ \<Rightarrow> False) rs"

lemma os_recv_data_only:
  assumes "os_recv fd k s = (r, s')" and "data_only (rxs s fd)" and "0 < k"
  shows "(rxs s fd = [] \<and> r = RxAgain \<and> s' = s) \<or> (\<exists>bs. r = RxData bs \<and> bs \<noteq> [] \<and> data_only (rxs s' fd))"
  using assms by (cases "rxs s fd") (auto simp: os_recv_def data_only_def split: rx_res.splits if_splits)

lemma bufRecvLoop_all:
  "bufRecvLoop got fd chunk hardCap b s = (rc, b', s') \<Longrightarrow> bufInv b \<Longrightarrow> mallocs s = [] \<Longrightarrow> data_only (rxs s fd) \<Longrightarrow>
     0 < chunk \<Longrightarrow> bufLen b + length (rx_bytes (rxs s fd)) + chunk \<le> hardCap \<Longrightarrow>
     rc = (if got \<or> rx_bytes (rxs s fd) \<noteq> [] then 1 else 0) \<and> rxs s' fd = [] \<and>
       bufData b' = bufData b @ rx_bytes (rxs s fd)"
proof (induction rule: bufRecvLoop_induct)
  case (reserve_fails got b s b1 s1 rc1)
  then show ?case using bufReserve_rc [OF reserve_fails(1)] bufReserve_fail [of b chunk hardCap s b1 s1] by auto
next
  case (received got b s b1 s1 bs s2 rc b' s')
  note fr = bufReserve_frame [OF received(1)] and ok = bufReserve_ok [OF received(1)]
    and app = bufReserve_append_inv [OF received(1,2) received.prems(1)]
  have rx: "rx_bytes (rxs s fd) = bs @ rx_bytes (rxs s2 fd)" using os_recv_bytes [OF received(2)] fr by simp
  have "data_only (rxs s1 fd)" "0 < cap b1 - blen b1" using fr received.prems(3,4) ok by simp_all
  from os_recv_data_only [OF received(2) this] have "data_only (rxs s2 fd)" by auto
  moreover have "mallocs s2 = []"
    using bufReserve_mallocs [OF received(1) received.prems(2)] os_recv_frame [OF received(2)] by simp
  moreover have "bufLen (b1\<lparr>bp := bp b1 @ bs\<rparr>) = bufLen b + length bs"
    using arg_cong [OF app(2), of length] by simp
  ultimately show ?case
    using received.IH app received.prems(4,5) rx received(3) by simp
next
  case (stops got b s b1 s1 r s2 rc)
  note fr = bufReserve_frame [OF stops(1)] and ok = bufReserve_ok [OF stops(1)]
  have "data_only (rxs s1 fd)" "0 < cap b1 - blen b1" using fr stops.prems(3,4) ok by simp_all
  from os_recv_data_only [OF stops(2) this] stops(3) have "rxs s1 fd = []" "r = RxAgain" "s2 = s1" by auto
  then show ?case using stops fr bufReserve_view [OF stops(1)] by simp
qed

lemmas bufRecv_all = bufRecvLoop_all [of False, folded bufRecv_def, simplified]

lemma recvRel_rx: "recvRel st x \<Longrightarrow> bufInv b \<Longrightarrow> recvRel st (x\<lparr>rx := b\<rparr>)"
  by (simp add: recvRel_def)

lemma flushTx_accepting:
  assumes "bufInv (tx x)" and "txs s (cfd x) = []"
  shows "\<exists>b s'. flushTx x s = (if closeAfterSend x then DISP_CLOSE else DISP_REARM_IN, x\<lparr>tx := b\<rparr>, s') \<and>
    bufInv b \<and> bufData b = [] \<and> wire s' (cfd x) = wire s (cfd x) @ bufData (tx x) \<and>
    (\<forall>g. g \<noteq> cfd x \<longrightarrow> wire s' g = wire s g) \<and> os.more s' = os.more s \<and> mallocs s' = mallocs s \<and>
    rxs s' = rxs s \<and> ep_log s' = ep_log s \<and> closed s' = closed s"
proof -
  obtain rc b s' where snd: "bufSend (cfd x) (tx x) s = (rc, b, s')" by (metis prod_cases3)
  have "rc = 1" using bufSend_all [OF assms(2), of "tx x"] snd by simp
  then show ?thesis
    using bufSend_stream [OF snd assms(1)] bufSend_frame [OF snd] snd by (auto simp: flushTx_def)
qed

lemma os_more_world:
  assumes "os.more w' = os.more (w :: 'a world_scheme)"
  shows "conns w' = conns w" "regHead w' = regHead w" "nextId w' = nextId w" "ingest w' = ingest w"
    "dataQueue w' = dataQueue w" "ctrlQueue w' = ctrlQueue w" "agg w' = agg w" "world.more w' = world.more w"
  using assms by (cases w, cases w', simp)+

lemma handleWsOpen_main:
  assumes rel: "recvRel st x" and mem: "mallocs w = []" and q: "queueInv (dataQueue w)" and c: "c \<in> dom (conns w)"
    and valid: "list_all frame_valid fs" and rest: "incomplete conf rest"
    and input: "bufData (rx x) @ rx_bytes (rxs w (cfd x)) = concat (map frame_encode fs) @ rest"
    and arrived: "data_only (rxs w (cfd x))" and tx: "txs w (cfd x) = []"
    and fits: "length (concat (map frame_encode fs) @ rest) + 4096 \<le> maxMessage conf + maxFrame conf"
    and room: "qsize (dataQueue w) + length fs \<le> confHigh conf"
    and rec: "receive conf st fs = (evs, fin)"
  shows "\<exists>w' x'. handleWsOpen conf c x w = (if fin = None then DISP_CLOSE else DISP_REARM_IN, w') \<and>
    map msgView (qcontents (dataQueue w')) = map msgView (qcontents (dataQueue w)) @ delivered (cid x) evs \<and>
    wire w' (cfd x) = wire w (cfd x) @ bufData (tx x) @ concat (map evReply evs) \<and>
    conns w' = (conns w)(c \<mapsto> x') \<and> sameConn x x' \<and>
    (case fin of None \<Rightarrow> True | Some st' \<Rightarrow> recvRel st' x' \<and> bufData (rx x') = rest \<and> bufData (tx x') = [])"
proof -
  obtain rc b w1 where rcv: "bufRecv (cfd x) (rx x) 4096 (maxMessage conf + maxFrame conf) w = (rc, b, w1)"
    by (metis prod_cases3)
  have inv: "bufInv (rx x)" using rel by (simp add: recvRel_def)
  have "bufLen (rx x) + length (rx_bytes (rxs w (cfd x))) + 4096 \<le> maxMessage conf + maxFrame conf"
    using fits arg_cong [OF input, of length] by simp
  from bufRecv_all [OF rcv inv mem arrived _ this] have rc: "rc = 0 \<or> rc = 1"
    and b: "bufData b = concat (map frame_encode fs) @ rest" using input by (auto split: if_splits)
  have binv: "bufInv b" using bufRecv_stream [OF rcv inv] by simp
  note fr = bufRecv_frame [OF rcv] and w1 = os_more_world [of w1 w]
  have mem1: "mallocs w1 = []" using bufRecv_mallocs [OF rcv mem] .
  let ?x1 = "x\<lparr>rx := b\<rparr>"
  obtain x2 w2 ms where loop: "wsLoop conf c ?x1 w1 = (False, x2, w2)" "loopQuiet w1 w2" "sameConn ?x1 x2"
    "queueInv (dataQueue w2)" "qcontents (dataQueue w2) = qcontents (dataQueue w1) @ ms"
    "map msgView ms = delivered (cid x) evs" "bufInv (tx x2)"
    "bufData (tx x2) = bufData (tx x) @ concat (map evReply evs)"
    "case fin of None \<Rightarrow> closeAfterSend x2 | Some st' \<Rightarrow> recvRel st' x2 \<and> bufData (rx x2) = rest"
    using wsLoop_receives [OF recvRel_rx [OF rel binv] mem1 _ valid _ rest _ rec, of c] b q room fr w1 by auto
  have same: "sameConn x x2" using loop(3) by (auto intro: sameConn_trans [of _ ?x1])
  have fd2: "cfd x2 = cfd x" using sameConn_fields(1) [OF same] .
  have "txs w2 (cfd x2) = []" using loop(2) fr tx fd2 by (simp add: loopQuiet_def)
  from flushTx_accepting [OF loop(7) this] obtain b3 w3 where
    fl: "flushTx x2 w2 = (if closeAfterSend x2 then DISP_CLOSE else DISP_REARM_IN, x2\<lparr>tx := b3\<rparr>, w3)"
    "bufInv b3" "bufData b3 = []" "wire w3 (cfd x2) = wire w2 (cfd x2) @ bufData (tx x2)" "os.more w3 = os.more w2"
    by blast
  let ?w' = "upd_conn c (\<lambda>_. x2\<lparr>tx := b3\<rparr>) w3"
  have close: "closeAfterSend x2 = (fin = None)" using loop(9) by (auto simp: recvRel_def split: option.splits)
  have "handleWsOpen conf c x w = (if fin = None then DISP_CLOSE else DISP_REARM_IN, ?w')"
    using rcv rc loop(1) fl(1) close by (auto simp: handleWsOpen_def)
  moreover note w3 = os_more_world [OF fl(5)]
  have "map msgView (qcontents (dataQueue ?w')) = map msgView (qcontents (dataQueue w)) @ delivered (cid x) evs"
    using loop(5,6) w3 w1 fr by (simp add: upd_conn_def)
  moreover have "wire ?w' (cfd x) = wire w (cfd x) @ bufData (tx x) @ concat (map evReply evs)"
    using fl(4) fd2 loop(2,8) fr by (simp add: upd_conn_def loopQuiet_def)
  moreover have "conns ?w' = (conns w)(c \<mapsto> x2\<lparr>tx := b3\<rparr>)"
    using w3 loop(2) w1 fr c by (auto simp: upd_conn_def loopQuiet_def)
  moreover have "case fin of None \<Rightarrow> True | Some st' \<Rightarrow> recvRel st' (x2\<lparr>tx := b3\<rparr>) \<and> bufData (rx (x2\<lparr>tx := b3\<rparr>)) = rest \<and>
      bufData (tx (x2\<lparr>tx := b3\<rparr>)) = []"
    using loop(9) fl(2,3) by (auto simp: recvRel_def split: option.splits)
  ultimately show ?thesis using same by (intro exI conjI) simp_all
qed

subsection \<open>Properties\<close>

text \<open>C1: The worker is a correct WebSocket receiver. Let the bytes held back from earlier reads and those that
  arrived, in any segmentation, be a sequence of well-formed frames followed by an incomplete one, fitting
  under the limits, with room in the queue. Then \<open>handleWsOpen\<close> does what the abstract receiver does
  with these frames: it appends exactly the delivered messages (reassembled, unmasked, in order) to the
  data queue, writes exactly the pongs and the close frame to the socket, closes the connection if and only
  if the receiver does, and otherwise rearms it in the receiver's state with the incomplete bytes kept.\<close>

theorem handleWsOpen_receives:
  assumes "recvRel st x" and "mallocs w = []" and "queueInv (dataQueue w)" and "c \<in> dom (conns w)"
    and "list_all frame_valid fs" and "incomplete conf rest"
    and "bufData (rx x) @ rx_bytes (rxs w (cfd x)) = concat (map frame_encode fs) @ rest"
    and "data_only (rxs w (cfd x))" and "txs w (cfd x) = []"
    and "length (concat (map frame_encode fs) @ rest) + 4096 \<le> maxMessage conf + maxFrame conf"
    and "qsize (dataQueue w) + length fs \<le> confHigh conf"
  shows "case receive conf st fs of (evs, fin) \<Rightarrow> case handleWsOpen conf c x w of (disp, w') \<Rightarrow>
    disp = (if fin = None then DISP_CLOSE else DISP_REARM_IN) \<and>
    map msgView (qcontents (dataQueue w')) = map msgView (qcontents (dataQueue w)) @ delivered (cid x) evs \<and>
    wire w' (cfd x) = wire w (cfd x) @ bufData (tx x) @ concat (map evReply evs) \<and>
    (case fin of None \<Rightarrow> True
     | Some st' \<Rightarrow> \<exists>x'. conns w' c = Some x' \<and> recvRel st' x' \<and> bufData (rx x') = rest)"
proof -
  obtain evs fin where rec: "receive conf st fs = (evs, fin)" by fastforce
  show ?thesis using handleWsOpen_main [OF assms rec] rec by (auto split: option.split)
qed

text \<open>A masked text frame ``hi'' and a ping, arriving in two pieces on descriptor 6.\<close>

definition hi_frame :: "WsFrameHdr_t \<times> byte list" where
  "hi_frame = (\<lparr>hFin = True, hOpcode = WS_OP_TEXT, hMasked = True, hPayloadLen = 2, hMaskKey = [1, 2, 3, 4],
     hHeaderLen = 6\<rparr>, [104, 105])"

definition ping_frame :: "WsFrameHdr_t \<times> byte list" where
  "ping_frame = (\<lparr>hFin = True, hOpcode = WS_OP_PING, hMasked = True, hPayloadLen = 1, hMaskKey = [9, 9, 9, 9],
     hHeaderLen = 6\<rparr>, [120])"

lemma hi_ping_encode:
  "frame_valid hi_frame" "frame_valid ping_frame"
  "frame_encode hi_frame = [129, 130, 1, 2, 3, 4, 105, 107]" "frame_encode ping_frame = [137, 129, 9, 9, 9, 9, 113]"
  by code_simp+

definition source_conn :: Conn_t where
  "source_conn = conn_zero\<lparr>cfd := 6, cid := 1, role := ROLE_SOURCE, cstate := ST_WS_OPEN\<rparr>"

definition recv_world :: world where
  "recv_world = conn_world.extend (os.extend (os_idle\<lparr>rxs := (\<lambda>_. [])(6 :=
       [RxData [129, 130, 1], RxData [2, 3, 4, 105, 107, 137, 129, 9, 9, 9, 9, 113]])\<rparr>)
     (conn_world.fields [0 \<mapsto> source_conn] (Some 0) 2))
     (world.fields createQueue createQueue createQueue (aggInit 8 4))"

lemma recv_world_fields:
  "mallocs recv_world = []" "dataQueue recv_world = createQueue" "conns recv_world = [0 \<mapsto> source_conn]"
  "rxs recv_world 6 = [RxData [129, 130, 1], RxData [2, 3, 4, 105, 107, 137, 129, 9, 9, 9, 9, 113]]"
  "txs recv_world = (\<lambda>_. [])" "wire recv_world = (\<lambda>_. [])"
  by (simp_all add: recv_world_def os.defs conn_world.defs world.defs os_idle_def)

lemma source_conn_fields:
  "recvRel None source_conn" "cfd source_conn = 6" "cid source_conn = 1" "bufData (rx source_conn) = []"
  "bufData (tx source_conn) = []"
  by (simp_all add: source_conn_def conn_zero_def recvRel_def)

lemma qsize_create: "qsize createQueue = 0"
  by (simp add: createQueue_def)

lemma hi_ping_receive:
  "receive server_defaults None [hi_frame, ping_frame] = ([EvMsg WS_OP_TEXT [104, 105], EvPong [120]], Some None)"
proof -
  have v: "utf8_valid [104, 105]" by code_simp
  then show ?thesis using utf8_valid_prefix [OF v]
    by (simp add: recvStep_def hi_frame_def ping_frame_def ws_op_defs Let_def)
qed

theorem handleWsOpen_receives_witness:
  "case handleWsOpen server_defaults 0 source_conn recv_world of (disp, w') \<Rightarrow>
    disp = DISP_REARM_IN \<and> map msgView (qcontents (dataQueue w')) = [(1, WS_OP_TEXT, [104, 105])] \<and>
    wire w' 6 = serverFrame WS_OP_PONG [120] \<and>
    (\<exists>x'. conns w' 0 = Some x' \<and> recvRel None x' \<and> bufData (rx x') = [])"
proof -
  have "incomplete server_defaults []" by (simp add: incomplete_def wsParseHeader_def)
  then show ?thesis
    using handleWsOpen_receives [of None source_conn recv_world 0 "[hi_frame, ping_frame]" server_defaults "[]"]
      source_conn_fields hi_ping_encode
    by (simp add: recv_world_fields queueInv_create hi_ping_receive data_only_def delivered_def qsize_create
        del: receive.simps split: prod.splits)
qed

end
