(* ===== verification/WorkerSafety.thy ===== *)
theory WorkerSafety
  imports WorkerProofs
begin

section \<open>What the workers guarantee for every input\<close>

text \<open>
  For arbitrary bytes from the network: a round of the frame loop hands out only bounded messages whose
  text is valid, keeps the connection's buffers and assembly state consistent, and the loop stops adding
  to the queue at the high watermark (\<open>loopEnd\<close>). Theory Handlers lifts this to the handlers.
\<close>

subsection \<open>Connections and messages\<close>

definition msgOk :: "ServerConfig_t \<Rightarrow> u64 \<Rightarrow> Msg_t \<Rightarrow> bool" where
  "msgOk conf i m \<longleftrightarrow> mkind m = MSG_DATA \<and> srcId m = i \<and> mopcode m \<in> {WS_OP_TEXT, WS_OP_BIN} \<and>
     length (mdata m) \<le> maxMessage conf \<and> (mopcode m = WS_OP_TEXT \<longrightarrow> utf8_valid (mdata m))"

definition dataOp :: "(byte \<times> byte list) option \<Rightarrow> bool" where
  "dataOp st = (case st of None \<Rightarrow> True | Some (op, acc) \<Rightarrow> op \<in> {WS_OP_TEXT, WS_OP_BIN})"

definition connOk :: "Conn_t \<Rightarrow> bool" where
  "connOk x \<longleftrightarrow> bufInv (rx x) \<and> bufInv (tx x) \<and> (closeAfterSend x \<or> (\<exists>st. assembled st x \<and> dataOp st))"

lemma connOk_rel: "connOk x \<Longrightarrow> \<not> closeAfterSend x \<Longrightarrow> \<exists>st. recvRel st x \<and> dataOp st"
  by (auto simp: connOk_def recvRel_def)

lemma connOk_recvRel: "recvRel st x \<Longrightarrow> dataOp st \<Longrightarrow> connOk x"
  by (auto simp: connOk_def recvRel_def)

lemma recvStep_sound:
  assumes "recvStep conf st (h, p) = RNext st' ev" and "dataOp st" and "hdr_valid h"
  shows "dataOp st'" and "ev = Some (EvMsg op d) \<Longrightarrow> op \<in> {WS_OP_TEXT, WS_OP_BIN} \<and> length d \<le> maxMessage conf \<and>
    (op = WS_OP_TEXT \<longrightarrow> utf8_valid d)"
proof -
  have "hOpcode h \<in> {WS_OP_CONT, WS_OP_TEXT, WS_OP_BIN, WS_OP_CLOSE, WS_OP_PING, WS_OP_PONG}"
    using assms(3) by (simp add: hdr_valid_def)
  then have "dataOp st' \<and> (ev = Some (EvMsg op d) \<longrightarrow> op \<in> {WS_OP_TEXT, WS_OP_BIN} \<and> length d \<le> maxMessage conf \<and>
      (op = WS_OP_TEXT \<longrightarrow> utf8_valid d))"
    using assms(1,2) by (auto simp: recvStep_def dataOp_def Let_def split: if_splits option.splits)
  then show "dataOp st'" "ev = Some (EvMsg op d) \<Longrightarrow> op \<in> {WS_OP_TEXT, WS_OP_BIN} \<and> length d \<le> maxMessage conf \<and>
      (op = WS_OP_TEXT \<longrightarrow> utf8_valid d)" by blast+
qed

text \<open>A round without a complete frame in the buffer leaves the loop.\<close>

lemma wsFrameStep_none:
  assumes "frame_next (bufData (rx x)) = None" and "connOk x" and "\<not> closeAfterSend x" and "mallocs s = []"
    and "wsFrameStep conf x s = (out, x', s')"
  shows "out = WsStop \<and> connOk x' \<and> sameConn x x' \<and> os_quiet s s'"
proof -
  obtain st where rel: "recvRel st x" using connOk_rel assms(2,3) by blast
  then have inv: "bufInv (tx x)" "bufInv (rx x)" by (simp_all add: recvRel_def)
  have fail: "q = WsStop \<and> connOk y \<and> sameConn x y \<and> os_quiet s z" if "wsFail x code s = (q, y, z)" for q y z code
    using wsFail_refines [OF assms(3,4) inv(1) refl sameConn_refl os_quiet_refl inv(2), of code "[]"] that
    by (auto simp: stepRefines_def connOk_def)
  show ?thesis
    using assms(1,2,5) by (auto simp: frame_next_def wsFrameStep_def Let_def split: WsRc_t.splits if_splits dest: fail)
qed

lemma wsFrameStep_safe:
  assumes "connOk x" and "\<not> closeAfterSend x" and "mallocs s = []" and "wsFrameStep conf x s = (out, x', s')"
  shows "connOk x' \<and> sameConn x x' \<and> os_quiet s s' \<and> (\<forall>m. out = WsMsg m \<longrightarrow> msgOk conf (cid x) m)"
proof (cases "frame_next (bufData (rx x))")
  case None
  then show ?thesis using wsFrameStep_none [OF None assms] by simp
next
  case (Some f)
  then obtain h p r where fr: "frame_valid (h, p)" "bufData (rx x) = frame_encode (h, p) @ r"
    using frame_next_sound by (cases f) fastforce
  obtain st where rel: "recvRel st x" "dataOp st" using connOk_rel assms(1,2) by blast
  have ref: "stepRefines (recvStep conf st (h, p)) r x s (out, x', s')"
    using wsFrameStep_refines [OF rel(1) assms(3) fr, of conf] assms(4) by simp
  show ?thesis
  proof (cases "recvStep conf st (h, p)")
    case (RClose code)
    then show ?thesis using ref by (auto simp: stepRefines_def connOk_def)
  next
    case (RNext st' ev)
    have "hdr_valid h" using fr(1) by (simp add: frame_valid_def)
    note sound = recvStep_sound [OF RNext rel(2) this]
    have "\<forall>m. out = WsMsg m \<longrightarrow> msgOk conf (cid x) m"
      using ref RNext sound(2) by (auto simp: stepRefines_def msgOk_def split: option.splits ws_event.splits)
    moreover have "connOk x'" using ref RNext sound(1) connOk_recvRel by (auto simp: stepRefines_def)
    ultimately show ?thesis using ref by (simp add: stepRefines_def)
  qed
qed

subsection \<open>The loop\<close>

text \<open>How the loop may end: normally, or with the connection parked.\<close>

definition loopEnd :: "ServerConfig_t \<Rightarrow> nat \<Rightarrow> Conn_t \<Rightarrow> 'a world_scheme \<Rightarrow> bool \<times> Conn_t \<times> 'a world_scheme \<Rightarrow> bool" where
  "loopEnd conf c x w r \<longleftrightarrow> (case r of (park, x', w') \<Rightarrow> \<exists>w0 ms. loopQuiet w w0 \<and> queueInv (dataQueue w0) \<and>
     qcontents (dataQueue w0) = qcontents (dataQueue w) @ ms \<and> list_all (msgOk conf (cid x)) ms \<and>
     qsize (dataQueue w0) \<le> max (qsize (dataQueue w)) (confHigh conf) \<and> connOk x' \<and> sameConn x x' \<and>
     (if park then confHigh conf \<le> qsize (dataQueue w0) \<and>
        (\<exists>m. msgOk conf (cid x) m \<and> w' = parkConn c x' m w0)
      else w' = w0))"

lemma loopEnd_step:
  assumes "loopEnd conf c x1 w1 r" and "loopQuiet w w1" and "sameConn x x1"
    and "qcontents (dataQueue w1) = qcontents (dataQueue w) @ new" and "list_all (msgOk conf (cid x)) new"
    and "qsize (dataQueue w1) \<le> max (qsize (dataQueue w)) (confHigh conf)"
  shows "loopEnd conf c x w r"
proof -
  obtain park x' w' where r: "r = (park, x', w')" by (cases r)
  from assms(1) obtain w0 ms where e: "loopQuiet w1 w0" "queueInv (dataQueue w0)"
    "qcontents (dataQueue w0) = qcontents (dataQueue w1) @ ms" "list_all (msgOk conf (cid x1)) ms"
    "qsize (dataQueue w0) \<le> max (qsize (dataQueue w1)) (confHigh conf)" "connOk x'" "sameConn x1 x'"
    "if park then confHigh conf \<le> qsize (dataQueue w0) \<and> (\<exists>m. msgOk conf (cid x1) m \<and> w' = parkConn c x' m w0)
     else w' = w0"
    unfolding loopEnd_def r prod.case by (elim exE conjE) (rule that)
  have "loopQuiet w w0" using loopQuiet_trans assms(2) e(1) .
  moreover have "sameConn x x'" using sameConn_trans assms(3) e(7) .
  moreover have "qcontents (dataQueue w0) = qcontents (dataQueue w) @ new @ ms" using e(3) assms(4) by simp
  moreover have "list_all (msgOk conf (cid x)) (new @ ms)"
    using e(4) assms(5) sameConn_fields(3) [OF assms(3)] by simp
  moreover have "qsize (dataQueue w0) \<le> max (qsize (dataQueue w)) (confHigh conf)" using e(5) assms(6) by simp
  moreover note e(2,6) e(8) [unfolded sameConn_fields(3) [OF assms(3)]]
  ultimately show ?thesis unfolding loopEnd_def r prod.case by (intro exI [of _ w0] exI [of _ "new @ ms"] conjI)
qed

lemma loopEnd_here:
  assumes "loopQuiet w w1" "dataQueue w1 = dataQueue w" "queueInv (dataQueue w)" "connOk x'" "sameConn x x'"
  shows "loopEnd conf c x w (False, x', w1)"
    and "msgOk conf (cid x) m \<Longrightarrow> confHigh conf \<le> qsize (dataQueue w1) \<Longrightarrow>
      loopEnd conf c x w (True, x', parkConn c x' m w1)"
  unfolding loopEnd_def prod.case
  by (rule exI [of _ w1], rule exI [of _ "[]"], use assms in force)+

lemma wsLoop_safe:
  "connOk x \<Longrightarrow> mallocs w = [] \<Longrightarrow> queueInv (dataQueue w) \<Longrightarrow> loopEnd conf c x w (wsLoop conf c x w)"
proof (induction conf c x w rule: wsLoop.induct)
  case (1 conf c x w)
  note stop = loopEnd_here(1) [OF _ _ "1.prems"(3)] and park = loopEnd_here(2) [OF _ _ "1.prems"(3)]
  show ?case
  proof (cases "closeAfterSend x")
    case True
    moreover have "loopQuiet w w" using "1.prems"(2) by (simp add: loopQuiet_def)
    ultimately show ?thesis using stop "1.prems"(1) by (simp add: wsLoop.simps [of conf c x w])
  next
    case False
    obtain out x1 w1 where step: "wsFrameStep conf x w = (out, x1, w1)" by (metis prod_cases3)
    note safe = wsFrameStep_safe [OF "1.prems"(1) False "1.prems"(2) step]
    then have quiet: "loopQuiet w w1" "dataQueue w1 = dataQueue w" using os_quiet_loop "1.prems"(2) by blast+
    have mem1: "mallocs w1 = []" "queueInv (dataQueue w1)" using quiet "1.prems"(3) by (simp_all add: loopQuiet_def)
    show ?thesis
    proof (cases out)
      case WsStop
      then show ?thesis using False step stop safe quiet by (simp add: wsLoop.simps [of conf c x w])
    next
      case WsMore
      have "loopEnd conf c x1 w1 (wsLoop conf c x1 w1)"
        using "1.IH"(1) [OF False step [symmetric] refl WsMore] safe mem1 by simp
      then have "loopEnd conf c x w (wsLoop conf c x1 w1)"
        by (rule loopEnd_step [where new = "[]"]) (use quiet safe in simp_all)
      then show ?thesis using False step WsMore by (simp add: wsLoop.simps [of conf c x w])
    next
      case (WsMsg m)
      then have ok: "msgOk conf (cid x) m" using safe by simp
      show ?thesis
      proof (cases "confHigh conf \<le> queueSize (dataQueue w1)")
        case True
        then have "wsLoop conf c x w = (True, x1, parkConn c x1 m w1)"
          using False step WsMsg by (simp add: wsLoop.simps [of conf c x w])
        then show ?thesis
          using True ok quiet safe park by (simp add: queueSize_def)
      next
        case room: False
        let ?w2 = "snd (push_data m w1)"
        from push_room [OF mem1] have p: "queueInv (dataQueue ?w2)" "mallocs ?w2 = []" "loopQuiet w1 ?w2"
          "qcontents (dataQueue ?w2) = qcontents (dataQueue w1) @ [m]"
          by (auto simp: loopQuiet_def)
        have "loopEnd conf c x1 ?w2 (wsLoop conf c x1 ?w2)"
          using "1.IH"(2) [OF False step [symmetric] refl WsMsg room] safe p by simp
        moreover have "qsize (dataQueue ?w2) = Suc (qsize (dataQueue w))"
          using length_qcontents [OF p(1)] length_qcontents [OF mem1(2)] p(4) quiet by simp
        moreover have "qsize (dataQueue ?w2) \<le> max (qsize (dataQueue w)) (confHigh conf)"
          using calculation(2) room quiet(2) by (simp add: queueSize_def)
        ultimately have "loopEnd conf c x w (wsLoop conf c x1 ?w2)"
          using loopQuiet_trans [OF quiet(1) p(3)] safe p(4) quiet(2) ok
          by (intro loopEnd_step [of conf c x1 ?w2 _ w x "[m]"]) simp_all
        then show ?thesis using False step WsMsg room by (simp add: wsLoop.simps [of conf c x w])
      qed
    qed
  qed
qed

end
