(* ===== verification/SinkProofs.thy ===== *)
theory SinkProofs
  imports Sink
begin

section \<open>The aggregator delivers\<close>

text \<open>
  What the functions of theory Sink leave alone, the invariant of the pump, and the two facts about it:
  it always returns, and with a sink that takes everything it delivers every queued message and the
  message of every parked source, in order.
\<close>

subsection \<open>Frames\<close>

text \<open>An operating-system call changes only the operating system's part of the world.\<close>

lemma world_more:
  assumes "os.more w' = os.more (w :: 'a world_scheme)"
  shows "conns w' = conns w" "regHead w' = regHead w" "nextId w' = nextId w" "ingest w' = ingest w"
    "dataQueue w' = dataQueue w" "ctrlQueue w' = ctrlQueue w" "agg w' = agg w" "world.more w' = world.more w"
  using assms by (cases w, cases w', simp)+

lemma frameNew_os:
  "frameNew op p s = (f, s') \<Longrightarrow> os.more s' = os.more s \<and> wire s' = wire s \<and> txs s' = txs s \<and>
     closed s' = closed s \<and> (mallocs s = [] \<longrightarrow> mallocs s' = [] \<and> f \<noteq> None)"
  by (auto simp: frameNew_def os_alloc_def split: list.splits if_splits)

lemma sinkFlushLoop_frame:
  "sinkFlushLoop fd f pos s = (rc, pos', s') \<Longrightarrow> os.more s' = os.more s \<and> mallocs s' = mallocs s \<and>
     closed s' = closed s"
proof (induction fd f pos s rule: sinkFlushLoop.induct)
  case (1 fd f pos s)
  obtain r s1 where snd: "os_send fd (drop pos f) s = (r, s1)" by fastforce
  with 1 show ?case
    by (auto simp: sinkFlushLoop.simps [of fd f pos s] dest!: os_send_frame split: io_res.splits if_splits)
qed

lemma sinkFlushLoop_accepting:
  "txs s fd = [] \<Longrightarrow> sinkFlushLoop fd f pos s =
     (1, max pos (length f), s\<lparr>wire := (wire s)(fd := wire s fd @ drop pos f)\<rparr>)"
proof (induction fd f pos s rule: sinkFlushLoop.induct)
  case (1 fd f pos s)
  show ?case
  proof (cases "pos < length f")
    case True
    with 1(2) show ?thesis
      by (simp add: sinkFlushLoop.simps [of fd f pos s] os_send_def)
        (simp add: sinkFlushLoop.simps max_def fun_upd_def)
  next
    case False
    then show ?thesis by (simp add: sinkFlushLoop.simps [of fd f pos s] max_def)
  qed
qed

lemma sinkFlushOne_frame:
  "sinkFlushOne fd slot pos s = (rc, slot', pos', s') \<Longrightarrow> os.more s' = os.more s \<and> mallocs s' = mallocs s \<and>
     closed s' = closed s"
  by (auto simp: sinkFlushOne_def split: option.splits prod.splits if_splits dest!: sinkFlushLoop_frame)

text \<open>What is still to be sent of a slot.\<close>

definition slotRest :: "Frame_t option \<Rightarrow> nat \<Rightarrow> byte list" where
  "slotRest slot pos = (case slot of None \<Rightarrow> [] | Some f \<Rightarrow> drop pos f)"

lemma sinkFlushOne_accepting:
  "txs s fd = [] \<Longrightarrow> \<exists>pos'. sinkFlushOne fd slot pos s =
     (1, None, pos', s\<lparr>wire := (wire s)(fd := wire s fd @ slotRest slot pos)\<rparr>)"
  by (auto simp: sinkFlushOne_def sinkFlushLoop_accepting slotRest_def split: option.splits)

text \<open>Flushing changes the slots and the operating system only.\<close>

definition slots_only :: "Agg_t \<Rightarrow> Agg_t \<Rightarrow> bool" where
  "slots_only a a' \<longleftrightarrow>
     a'\<lparr>pending := pending a, pendingOff := pendingOff a, pendingCtrl := pendingCtrl a,
        pendingCtrlOff := pendingCtrlOff a\<rparr> = a"

lemma slots_only_fields:
  assumes "slots_only a a'"
  shows "sink a' = sink a" "asrcs a' = asrcs a" "parkHead a' = parkHead a" "parkTail a' = parkTail a"
    "lowWatermark a' = lowWatermark a"
  using assms unfolding slots_only_def by (cases a, cases a', simp)+

lemma upd_agg_os [simp]:
  "wire (upd_agg f w) = wire w" "txs (upd_agg f w) = txs w" "mallocs (upd_agg f w) = mallocs w"
  "closed (upd_agg f w) = closed w" "ingest (upd_agg f w) = ingest w" "regHead (upd_agg f w) = regHead w"
  by (simp_all add: upd_agg_def)

lemma upd_conn_os [simp]:
  "ingest (upd_conn c f w) = ingest w" "wire (upd_conn c f w) = wire w" "txs (upd_conn c f w) = txs w" "mallocs (upd_conn c f w) = mallocs w"
  "closed (upd_conn c f w) = closed w"
  by (simp_all add: upd_conn_def)

lemma sinkFlush_frame:
  assumes "sinkFlush w = (rc, w')"
  shows "slots_only (agg w) (agg w')" "conns w' = conns w" "dataQueue w' = dataQueue w"
    "ctrlQueue w' = ctrlQueue w" "mallocs w' = mallocs w" "regHead w' = regHead w" "ingest w' = ingest w"
proof -
  have "slots_only (agg w) (agg w') \<and> conns w' = conns w \<and> dataQueue w' = dataQueue w \<and>
    ctrlQueue w' = ctrlQueue w \<and> mallocs w' = mallocs w \<and> regHead w' = regHead w \<and> ingest w' = ingest w"
  proof (cases "sink (agg w)")
    case None
    with assms show ?thesis by (simp add: sinkFlush_def slots_only_def)
  next
    case (Some c)
    obtain rc1 slot1 p1 w1 where 1: "sinkFlushOne (sinkFd c w) (pendingCtrl (agg w)) (pendingCtrlOff (agg w)) w =
        (rc1, slot1, p1, w1)" by (metis prod_cases4)
    define w2 where "w2 = upd_agg (\<lambda>a. a\<lparr>pendingCtrl := slot1, pendingCtrlOff := p1\<rparr>) w1"
    obtain rc3 slot3 p3 w3 where 3: "sinkFlushOne (sinkFd c w) (pending (agg w2)) (pendingOff (agg w2)) w2 =
        (rc3, slot3, p3, w3)" by (metis prod_cases4)
    note f1 = sinkFlushOne_frame [OF 1] and f3 = sinkFlushOne_frame [OF 3]
    note e1 = world_more [OF f1 [THEN conjunct1]] and e3 = world_more [OF f3 [THEN conjunct1]]
    have "w' = (if rc1 \<le> 0 then w2 else upd_agg (\<lambda>a. a\<lparr>pending := slot3, pendingOff := p3\<rparr>) w3)"
      using assms Some 1 3 by (simp add: sinkFlush_def Let_def w2_def split: if_splits)
    then show ?thesis using e1 e3 f1 f3 by (simp add: w2_def slots_only_def upd_agg_def)
  qed
  then show "slots_only (agg w) (agg w')" "conns w' = conns w" "dataQueue w' = dataQueue w"
    "ctrlQueue w' = ctrlQueue w" "mallocs w' = mallocs w" "regHead w' = regHead w" "ingest w' = ingest w" by blast+
qed

text \<open>With a sink that takes everything, flushing sends the control slot first, then the data slot.\<close>

lemma sinkFlush_accepting:
  assumes "sink (agg w) = Some c" and "txs w (sinkFd c w) = []"
  shows "\<exists>w'. sinkFlush w = (1, w') \<and> pending (agg w') = None \<and> pendingCtrl (agg w') = None \<and>
    txs w' = txs w \<and> wire w' = (wire w)(sinkFd c w := wire w (sinkFd c w) @
      slotRest (pendingCtrl (agg w)) (pendingCtrlOff (agg w)) @ slotRest (pending (agg w)) (pendingOff (agg w)))"
proof -
  let ?fd = "sinkFd c w"
  obtain p1 where 1: "sinkFlushOne ?fd (pendingCtrl (agg w)) (pendingCtrlOff (agg w)) w = (1, None, p1,
      w\<lparr>wire := (wire w)(?fd := wire w ?fd @ slotRest (pendingCtrl (agg w)) (pendingCtrlOff (agg w)))\<rparr>)"
    using sinkFlushOne_accepting [OF assms(2)] by blast
  define w2 where "w2 = upd_agg (\<lambda>a. a\<lparr>pendingCtrl := None, pendingCtrlOff := p1\<rparr>)
    (w\<lparr>wire := (wire w)(?fd := wire w ?fd @ slotRest (pendingCtrl (agg w)) (pendingCtrlOff (agg w)))\<rparr>)"
  have "txs w2 ?fd = []" using assms(2) by (simp add: w2_def)
  then obtain p3 where 3: "sinkFlushOne ?fd (pending (agg w2)) (pendingOff (agg w2)) w2 = (1, None, p3,
      w2\<lparr>wire := (wire w2)(?fd := wire w2 ?fd @ slotRest (pending (agg w2)) (pendingOff (agg w2)))\<rparr>)"
    using sinkFlushOne_accepting by blast
  show ?thesis
    using assms(1) 1 3 by (simp add: sinkFlush_def Let_def flip: w2_def) (simp add: w2_def)
qed

subsection \<open>Resuming a parked source\<close>

definition pumpInv :: "'a world_scheme \<Rightarrow> bool" where
  "pumpInv w \<longleftrightarrow> queueInv (dataQueue w) \<and> parkInv w \<and>
     list_all (\<lambda>c. \<exists>x m. conns w c = Some x \<and> pendingMsg x = Some m) (parked w)"

definition parkedMsgs :: "'a world_scheme \<Rightarrow> Msg_t list" where
  "parkedMsgs w = map (\<lambda>c. the (pendingMsg (the (conns w c)))) (parked w)"

definition fds :: "'a conn_world_scheme \<Rightarrow> nat \<Rightarrow> int option" where
  "fds w c = map_option cfd (conns w c)"

lemma sinkFd_fds: "fds w' = fds w \<Longrightarrow> sinkFd c w' = sinkFd c w"
  by (drule fun_cong [of _ _ c]) (auto simp: fds_def sinkFd_def split: option.splits)

lemma os_epoll_ctl_world:
  "os.more (snd (os_epoll_ctl ep op fd evs s)) = os.more s"
  "wire (snd (os_epoll_ctl ep op fd evs s)) = wire s" "txs (snd (os_epoll_ctl ep op fd evs s)) = txs s"
  "mallocs (snd (os_epoll_ctl ep op fd evs s)) = mallocs s" "closed (snd (os_epoll_ctl ep op fd evs s)) = closed s"
  by (simp_all add: os_epoll_ctl_def Let_def split: list.splits)

lemma push_data_effect:
  fixes w :: "'a world_scheme"
  shows "conns (snd (push_data m w)) = conns w" "agg (snd (push_data m w)) = agg w"
  "ctrlQueue (snd (push_data m w)) = ctrlQueue w" "wire (snd (push_data m w)) = wire w"
  "txs (snd (push_data m w)) = txs w" "ingest (snd (push_data m w)) = ingest w"
  "regHead (snd (push_data m w)) = regHead w"
  "dataQueue (snd (push_data m w)) = (if fst (os_alloc w) then notify (pushLocked m (dataQueue w)) else dataQueue w)"
  "mallocs w = [] \<Longrightarrow> mallocs (snd (push_data m w)) = [] \<and> fst (os_alloc w)"
  by (auto simp: push_data_def push_def os_alloc_def split: list.splits if_splits)

lemma resumeParked_effect:
  assumes "conns w c = Some x" and "pendingMsg x = Some m"
  shows "\<exists>w'. resumeParked c w = Some w' \<and> conns w' = (conns w)(c \<mapsto> x\<lparr>pendingMsg := None\<rparr>) \<and> agg w' = agg w \<and>
    dataQueue w' = (if fst (os_alloc w) then notify (pushLocked m (dataQueue w)) else dataQueue w) \<and>
    wire w' = wire w \<and> txs w' = txs w \<and> (mallocs w = [] \<longrightarrow> mallocs w' = [] \<and> fst (os_alloc w)) \<and>
    ctrlQueue w' = ctrlQueue w \<and> ingest w' = ingest w \<and> regHead w' = regHead w"
proof -
  define w2 where "w2 = upd_conn c (\<lambda>x. x\<lparr>pendingMsg := None\<rparr>) (snd (push_data m w))"
  let ?evs = "[EPOLLIN, EPOLLET, EPOLLRDHUP, EPOLLONESHOT] @ (if 0 < bufLen (tx x) then [EPOLLOUT] else [])"
  let ?w' = "snd (os_epoll_ctl (cepollfd x) EPOLL_CTL_ADD (cfd x) ?evs w2)"
  have "resumeParked c w = Some ?w'" using assms by (simp add: resumeParked_def w2_def Let_def)
  moreover have "conns w2 = (conns w)(c \<mapsto> x\<lparr>pendingMsg := None\<rparr>)"
    using assms by (auto simp: w2_def upd_conn_def push_data_effect)
  moreover have "agg w2 = agg w" "wire w2 = wire w" "txs w2 = txs w" "mallocs w = [] \<Longrightarrow> mallocs w2 = [] \<and> fst (os_alloc w)"
    "dataQueue w2 = (if fst (os_alloc w) then notify (pushLocked m (dataQueue w)) else dataQueue w)"
    "ctrlQueue w2 = ctrlQueue w" "ingest w2 = ingest w" "regHead w2 = regHead w"
    by (simp_all add: w2_def push_data_effect)
  moreover note world_more [OF os_epoll_ctl_world(1), of "cepollfd x" EPOLL_CTL_ADD "cfd x" ?evs w2]
  ultimately show ?thesis by (simp add: os_epoll_ctl_world)
qed

definition agg_core :: "Agg_t \<Rightarrow> Agg_t" where
  "agg_core a = a\<lparr>parkHead := None, parkTail := None\<rparr>"

lemma agg_core_fields:
  assumes "agg_core a' = agg_core a"
  shows "sink a' = sink a" "asrcs a' = asrcs a" "pending a' = pending a" "pendingOff a' = pendingOff a"
    "pendingCtrl a' = pendingCtrl a" "pendingCtrlOff a' = pendingCtrlOff a" "lowWatermark a' = lowWatermark a"
  using assms unfolding agg_core_def by (cases a, cases a', simp)+

lemma parkListPop_effect:
  assumes "parkListPop w = Some (c, w')"
  shows "conns w' = (conns w)(c := map_option (\<lambda>x. x\<lparr>parkNext := None\<rparr>) (conns w c))"
    and "agg_core (agg w') = agg_core (agg w)" and "dataQueue w' = dataQueue w"
    and "wire w' = wire w" and "txs w' = txs w" and "mallocs w' = mallocs w"
    and "ctrlQueue w' = ctrlQueue w" and "ingest w' = ingest w" and "regHead w' = regHead w"
proof -
  from assms obtain f where w': "w' = upd_conn c (\<lambda>x. x\<lparr>parkNext := None\<rparr>) (upd_agg f w)"
    and f: "agg_core (f (agg w)) = agg_core (agg w)"
    by (auto simp: parkListPop_def Let_def upd_agg_def agg_core_def split: option.splits if_splits)
  show "conns w' = (conns w)(c := map_option (\<lambda>x. x\<lparr>parkNext := None\<rparr>) (conns w c))"
    by (simp add: w' upd_conn_def upd_agg_def)
  show "agg_core (agg w') = agg_core (agg w)" "dataQueue w' = dataQueue w"
    "wire w' = wire w" "txs w' = txs w" "mallocs w' = mallocs w" "ctrlQueue w' = ctrlQueue w"
    "ingest w' = ingest w" "regHead w' = regHead w" by (simp_all add: w' f)
qed

lemma parked_distinct: "parkInv w \<Longrightarrow> distinct (parked w) \<and> set (parked w) \<subseteq> dom (conns w)"
  using parked_shape by (fastforce simp: parkInv_def parkShape_def dest: lpath_distinct)

lemma parked_cong:
  assumes "link parkNext w' = link parkNext w" and "parkHead (agg w') = parkHead (agg w)"
    and "parkTail (agg w') = parkTail (agg w)" and "dom (conns w') = dom (conns w)"
  shows "parked w' = parked w" and "parkInv w' = parkInv w"
  using assms by (simp_all add: parked_def parkInv_def parkShape_def)

lemma pumpResume_ok:
  assumes inv: "pumpInv w"
  shows "\<exists>w'. pumpResume w = Some w' \<and> pumpInv w' \<and> agg_core (agg w') = agg_core (agg w) \<and> fds w' = fds w \<and>
    wire w' = wire w \<and> txs w' = txs w \<and>
    2 * length (parked w') + qsize (dataQueue w') \<le> 2 * length (parked w) + qsize (dataQueue w) \<and>
    (mallocs w = [] \<longrightarrow> mallocs w' = [] \<and>
       qcontents (dataQueue w') @ parkedMsgs w' = qcontents (dataQueue w) @ parkedMsgs w \<and>
       (qcontents (dataQueue w') = [] \<longrightarrow> parked w' = []))"
proof -
  from inv have q: "queueInv (dataQueue w)" and pk: "parkInv w"
    and pend: "list_all (\<lambda>c. \<exists>x m. conns w c = Some x \<and> pendingMsg x = Some m) (parked w)"
    by (simp_all add: pumpInv_def)
  show ?thesis
  proof (cases "queueSize (dataQueue w) \<le> lowWatermark (agg w) \<and> parkListPop w \<noteq> None")
    case False
    then have "pumpResume w = Some w" by (auto simp: pumpResume_def split: option.split)
    moreover have "parked w = []" if "qcontents (dataQueue w) = []"
      using False that park.deq_None [OF pk] length_qcontents [OF q] by (simp add: queueSize_def)
    ultimately show ?thesis using inv by simp
  next
    case True
    then obtain c w1 where pop: "parkListPop w = Some (c, w1)" and low: "queueSize (dataQueue w) \<le> lowWatermark (agg w)"
      by auto
    note eff = parkListPop_effect [OF pop]
    from park.deq_Some [OF pk pop] have p: "parked w = c # parked w1" and pk1: "parkInv w1" by simp_all
    from pend p obtain x m where x: "conns w c = Some x" "pendingMsg x = Some m" by auto
    let ?x = "x\<lparr>parkNext := None\<rparr>"
    have x1: "conns w1 c = Some ?x" "pendingMsg ?x = Some m" using x eff by simp_all
    from resumeParked_effect [OF x1] obtain w2 where r: "resumeParked c w1 = Some w2"
      and cn: "conns w2 = (conns w1)(c \<mapsto> ?x\<lparr>pendingMsg := None\<rparr>)" and ag: "agg w2 = agg w1"
      and dq: "dataQueue w2 = (if fst (os_alloc w1) then notify (pushLocked m (dataQueue w1)) else dataQueue w1)"
      and os: "wire w2 = wire w1" "txs w2 = txs w1" "mallocs w1 = [] \<longrightarrow> mallocs w2 = [] \<and> fst (os_alloc w1)"
      by blast
    have "link parkNext w2 = link parkNext w1" using x1 by (auto simp: link_def cn fun_eq_iff)
    moreover have "dom (conns w2) = dom (conns w1)" using x1 by (auto simp: cn)
    ultimately have pk2: "parked w2 = parked w1" "parkInv w2" using parked_cong [of w2 w1] ag pk1 by simp_all
    have c: "c \<notin> set (parked w1)" using parked_distinct [OF pk] p by simp
    have same: "conns w2 d = conns w d" if "d \<in> set (parked w1)" for d
      using that c eff by (auto simp: cn)
    have msgs: "parkedMsgs w = m # parkedMsgs w2"
      using p x same by (simp add: parkedMsgs_def pk2)
    have "pumpInv w2"
      using pend p same q eff dq pk2 by (auto simp: pumpInv_def list_all_iff pushLocked_contents)
    moreover have "fds w2 = fds w" using x eff by (auto simp: fds_def cn fun_eq_iff)
    moreover have "pumpResume w = Some w2" using low pop r by (simp add: pumpResume_def)
    moreover have "2 * length (parked w2) + qsize (dataQueue w2) \<le> 2 * length (parked w) + qsize (dataQueue w)"
      using p pk2 dq eff by (simp add: qsize_pushLocked)
    moreover have "mallocs w = [] \<longrightarrow> mallocs w2 = [] \<and>
       qcontents (dataQueue w2) @ parkedMsgs w2 = qcontents (dataQueue w) @ parkedMsgs w \<and>
       (qcontents (dataQueue w2) = [] \<longrightarrow> parked w2 = [])"
      using os eff dq msgs q by (auto simp: pushLocked_contents)
    ultimately show ?thesis using eff ag os by auto
  qed
qed

subsection \<open>The pump\<close>

lemma aggCount_cong:
  "asrcs a = asrcs b \<Longrightarrow> fst (aggCount m a) = fst (aggCount m b) \<and>
     asrcs (snd (aggCount m a)) = asrcs (snd (aggCount m b))"
  by (simp add: aggCount_def findOrCreateSrc_def Let_def split: option.split)

lemma aggCount_frame:
  "(snd (aggCount m a))\<lparr>asrcs := asrcs a, statMsgsIn := statMsgsIn a, statBytesIn := statBytesIn a\<rparr> = a"
  by (simp add: aggCount_def findOrCreateSrc_def Let_def split: option.split)

lemma aggOnMessage_os:
  assumes "aggOnMessage m a s = (f, a', s')"
  shows "os.more s' = os.more s \<and> wire s' = wire s \<and> txs s' = txs s \<and> closed s' = closed s \<and>
    (mallocs s = [] \<longrightarrow> mallocs s' = [] \<and> f \<noteq> None)"
proof -
  have alloc: "os.more s1 = os.more s \<and> wire s1 = wire s \<and> txs s1 = txs s \<and> closed s1 = closed s \<and>
    (mallocs s = [] \<longrightarrow> mallocs s1 = [] \<and> ok)" if "os_alloc s = (ok, s1)" for ok s1
    using that by (auto simp: os_alloc_def split: list.splits)
  show ?thesis
    using assms by (auto simp: aggOnMessage_def Let_def split: prod.splits if_splits
        dest!: frameNew_os alloc)
qed

lemma aggOnMessage_agg:
  assumes "aggOnMessage m a s = (f, a', s')"
  shows "asrcs a' = asrcs (snd (aggCount m a))" "sink a' = sink a" "parkHead a' = parkHead a"
    "parkTail a' = parkTail a" "lowWatermark a' = lowWatermark a" "pendingCtrl a' = pendingCtrl a"
    "pendingCtrlOff a' = pendingCtrlOff a" "pending a' = pending a" "pendingOff a' = pendingOff a"
proof -
  have a': "a' = (if f \<noteq> None then (snd (aggCount m a))\<lparr>statMsgsOut := statMsgsOut (snd (aggCount m a)) + 1\<rparr>
      else snd (aggCount m a))"
    using assms by (auto simp: aggOnMessage_def Let_def split: prod.splits)
  have "sink (snd (aggCount m a)) = sink a" "parkHead (snd (aggCount m a)) = parkHead a"
    "parkTail (snd (aggCount m a)) = parkTail a" "lowWatermark (snd (aggCount m a)) = lowWatermark a"
    "pendingCtrl (snd (aggCount m a)) = pendingCtrl a" "pendingCtrlOff (snd (aggCount m a)) = pendingCtrlOff a"
    "pending (snd (aggCount m a)) = pending a" "pendingOff (snd (aggCount m a)) = pendingOff a"
    by (simp_all add: aggCount_def findOrCreateSrc_def Let_def split: option.split)
  with a' show "asrcs a' = asrcs (snd (aggCount m a))" "sink a' = sink a" "parkHead a' = parkHead a"
    "parkTail a' = parkTail a" "lowWatermark a' = lowWatermark a" "pendingCtrl a' = pendingCtrl a"
    "pendingCtrlOff a' = pendingCtrlOff a" "pending a' = pending a" "pendingOff a' = pendingOff a"
    by simp_all
qed

lemma aggOnMessage_cong:
  assumes "asrcs a = asrcs b" and "mallocs s = []" and "mallocs s' = []"
  shows "fst (aggOnMessage m a s) = fst (aggOnMessage m b s')"
  using aggCount_cong [OF assms(1), of m] assms(2,3)
  by (auto simp: aggOnMessage_def Let_def frameNew_def os_alloc_def split: prod.splits)

text \<open>The bytes of the frames of a list of messages, the table of sources going along.\<close>

fun aggFramesOf :: "Msg_t list \<Rightarrow> Agg_t \<Rightarrow> byte list" where
  "aggFramesOf [] a = []"
| "aggFramesOf (m # ms) a = (case aggOnMessage m a os_idle of (f, a', s) \<Rightarrow>
     (case f of None \<Rightarrow> [] | Some f \<Rightarrow> f) @ aggFramesOf ms a')"

lemma aggFramesOf_cong: "asrcs a = asrcs b \<Longrightarrow> aggFramesOf ms a = aggFramesOf ms b"
proof (induction ms arbitrary: a b)
  case Nil
  then show ?case by simp
next
  case (Cons m ms)
  obtain f a' s where 1: "aggOnMessage m a os_idle = (f, a', s)" by (metis prod_cases3)
  obtain g b' z where 2: "aggOnMessage m b os_idle = (g, b', z)" by (metis prod_cases3)
  have "f = g" using aggOnMessage_cong [OF Cons.prems, of os_idle os_idle m] 1 2 by (simp add: os_idle_def)
  moreover have "asrcs a' = asrcs b'"
    using aggOnMessage_agg(1) [OF 1] aggOnMessage_agg(1) [OF 2] aggCount_cong [OF Cons.prems] by simp
  ultimately show ?case using 1 2 Cons.IH [of a' b'] by simp
qed

lemma pumpEncode_frame:
  "conns (pumpEncode m w) = conns w" "dataQueue (pumpEncode m w) = dataQueue w"
  "wire (pumpEncode m w) = wire w" "txs (pumpEncode m w) = txs w" "sink (agg (pumpEncode m w)) = sink (agg w)"
  "parkHead (agg (pumpEncode m w)) = parkHead (agg w)" "parkTail (agg (pumpEncode m w)) = parkTail (agg w)"
  "pendingCtrl (agg (pumpEncode m w)) = pendingCtrl (agg w)"
  "asrcs (agg (pumpEncode m w)) = asrcs (snd (aggCount m (agg w)))"
  "mallocs w = [] \<Longrightarrow> mallocs (pumpEncode m w) = []"
  "ctrlQueue (pumpEncode m w) = ctrlQueue w" "ingest (pumpEncode m w) = ingest w"
  "regHead (pumpEncode m w) = regHead w"
  "mallocs w = [] \<Longrightarrow> \<exists>f. fst (aggOnMessage m (agg w) os_idle) = Some f \<and>
     pending (agg (pumpEncode m w)) = Some f \<and> pendingOff (agg (pumpEncode m w)) = 0"
proof -
  obtain f a' w1 where 1: "aggOnMessage m (agg w) w = (f, a', w1)" by (metis prod_cases3)
  note os = aggOnMessage_os [OF 1] and ag = aggOnMessage_agg [OF 1]
  note more = world_more [OF os [THEN conjunct1]]
  show "conns (pumpEncode m w) = conns w" "dataQueue (pumpEncode m w) = dataQueue w"
    "wire (pumpEncode m w) = wire w" "txs (pumpEncode m w) = txs w" "sink (agg (pumpEncode m w)) = sink (agg w)"
    "parkHead (agg (pumpEncode m w)) = parkHead (agg w)" "parkTail (agg (pumpEncode m w)) = parkTail (agg w)"
    "pendingCtrl (agg (pumpEncode m w)) = pendingCtrl (agg w)"
    "asrcs (agg (pumpEncode m w)) = asrcs (snd (aggCount m (agg w)))"
    "mallocs w = [] \<Longrightarrow> mallocs (pumpEncode m w) = []"
    "ctrlQueue (pumpEncode m w) = ctrlQueue w" "ingest (pumpEncode m w) = ingest w"
    "regHead (pumpEncode m w) = regHead w"
    using os ag more by (simp_all add: pumpEncode_def 1)
  show "mallocs w = [] \<Longrightarrow> \<exists>f. fst (aggOnMessage m (agg w) os_idle) = Some f \<and>
     pending (agg (pumpEncode m w)) = Some f \<and> pendingOff (agg (pumpEncode m w)) = 0"
    using os aggOnMessage_cong [of "agg w" "agg w" w os_idle m] 1
    by (auto simp: pumpEncode_def 1 os_idle_def)
qed

lemma pumpInv_encode:
  assumes "pumpInv w" and "trypop (dataQueue w) = Some (m, q)"
  shows "pumpInv (pumpEncode m (w\<lparr>dataQueue := q\<rparr>))"
    and "parked (pumpEncode m (w\<lparr>dataQueue := q\<rparr>)) = parked w"
    and "parkedMsgs (pumpEncode m (w\<lparr>dataQueue := q\<rparr>)) = parkedMsgs w"
proof -
  let ?w = "pumpEncode m (w\<lparr>dataQueue := q\<rparr>)"
  have "queueInv q" using assms queue.deq_Some [of "dataQueue w" m q] by (simp add: pumpInv_def)
  moreover have p: "parked ?w = parked w" "parkInv ?w = parkInv w"
    by (intro parked_cong; simp add: link_def pumpEncode_frame fun_eq_iff)+
  ultimately show "pumpInv ?w" "parked ?w = parked w" "parkedMsgs ?w = parkedMsgs w"
    using assms(1) by (simp_all add: pumpInv_def parkedMsgs_def pumpEncode_frame)
qed

lemma pumpInv_flush:
  assumes "sinkFlush w = (rc, w')"
  shows "pumpInv w' = pumpInv w" "parked w' = parked w" "parkedMsgs w' = parkedMsgs w"
proof -
  note fr = sinkFlush_frame [OF assms] and ag = slots_only_fields [OF sinkFlush_frame(1) [OF assms]]
  have p: "parked w' = parked w" "parkInv w' = parkInv w"
    by (intro parked_cong; simp add: link_def fr ag fun_eq_iff)+
  then show "pumpInv w' = pumpInv w" "parked w' = parked w" "parkedMsgs w' = parkedMsgs w"
    by (simp_all add: pumpInv_def parkedMsgs_def fr)
qed

lemma pumpMeasure_trypop:
  "queueInv q \<Longrightarrow> trypop q = Some (m, q') \<Longrightarrow> qsize q = Suc (qsize q')"
  using queue.deq_Some [of q m q'] length_qcontents [of q] length_qcontents [of q'] by simp

text \<open>
  What the sink has received together with what it is still owed: the bytes on the wire, the rest of
  the control slot, the rest of the data slot, and the frames of the messages that wait in the queue and
  with parked sources. Whatever the socket does, a step of the pump moves bytes inside this stream.
\<close>

definition sinkStream :: "nat \<Rightarrow> 'a world_scheme \<Rightarrow> byte list" where
  "sinkStream c w = wire w (sinkFd c w) @ slotRest (pendingCtrl (agg w)) (pendingCtrlOff (agg w)) @
     slotRest (pending (agg w)) (pendingOff (agg w)) @
     aggFramesOf (qcontents (dataQueue w) @ parkedMsgs w) (agg w)"

lemma sinkFlushLoop_conserves:
  "sinkFlushLoop fd f pos s = (rc, pos', s') \<Longrightarrow>
     wire s' fd @ drop pos' f = wire s fd @ drop pos f \<and> rc \<le> 1 \<and> (rc = 1 \<longrightarrow> length f \<le> pos')"
proof (induction fd f pos s arbitrary: rc pos' s' rule: sinkFlushLoop.induct)
  case (1 fd f pos s)
  obtain r s1 where snd: "os_send fd (drop pos f) s = (r, s1)" by fastforce
  show ?case
  proof (cases "pos < length f \<and> (\<exists>n. r = IoN n \<and> 0 < n)")
    case True
    then obtain n where n: "r = IoN n" "0 < n" by blast
    with True snd have "wire s1 fd = wire s fd @ take n (drop pos f)"
      by (auto dest: os_send_wire)
    moreover have "take n (drop pos f) @ drop (pos + n) f = drop pos f"
      by (metis add.commute append_take_drop_id drop_drop)
    ultimately show ?thesis
      using 1 True snd n by (simp add: sinkFlushLoop.simps [of fd f pos s])
  next
    case False
    moreover have "wire s1 fd = wire s fd" if "\<nexists>n. r = IoN n \<and> 0 < n"
      using snd that by (auto simp: os_send_def Let_def split: list.splits io_res.splits if_splits)
    ultimately show ?thesis
      using 1(2) snd by (auto simp: sinkFlushLoop.simps [of fd f pos s] split: io_res.splits if_splits)
  qed
qed

lemma sinkFlushOne_conserves:
  "sinkFlushOne fd slot pos s = (rc, slot', pos', s') \<Longrightarrow>
     wire s' fd @ slotRest slot' pos' = wire s fd @ slotRest slot pos \<and> (rc = 1 \<longrightarrow> slot' = None) \<and>
     (rc \<le> 0 \<longrightarrow> slot' \<noteq> None) \<and> rc \<le> 1"
  by (auto simp: sinkFlushOne_def slotRest_def split: option.splits prod.splits if_splits
      dest!: sinkFlushLoop_conserves)

lemma sinkFlush_conserves:
  assumes "sinkFlush w = (rc, w')" and "sink (agg w) = Some c"
  shows "sinkStream c w' = sinkStream c w" and "rc = 1 \<Longrightarrow> pending (agg w') = None \<and> pendingCtrl (agg w') = None"
    and "rc \<le> 0 \<Longrightarrow> pending (agg w') \<noteq> None \<or> pendingCtrl (agg w') \<noteq> None" and "rc \<le> 1"
proof -
  let ?fd = "sinkFd c w"
  obtain rc1 slot1 p1 w1 where 1: "sinkFlushOne ?fd (pendingCtrl (agg w)) (pendingCtrlOff (agg w)) w =
      (rc1, slot1, p1, w1)" by (metis prod_cases4)
  define w2 where "w2 = upd_agg (\<lambda>a. a\<lparr>pendingCtrl := slot1, pendingCtrlOff := p1\<rparr>) w1"
  obtain rc3 slot3 p3 w3 where 3: "sinkFlushOne ?fd (pending (agg w2)) (pendingOff (agg w2)) w2 =
      (rc3, slot3, p3, w3)" by (metis prod_cases4)
  note e1 = world_more [OF sinkFlushOne_frame [OF 1, THEN conjunct1]]
    and e3 = world_more [OF sinkFlushOne_frame [OF 3, THEN conjunct1]]
  note c1 = sinkFlushOne_conserves [OF 1] and c3 = sinkFlushOne_conserves [OF 3]
  have w': "rc = (if rc1 \<le> 0 then rc1 else rc3)"
    "w' = (if rc1 \<le> 0 then w2 else upd_agg (\<lambda>a. a\<lparr>pending := slot3, pendingOff := p3\<rparr>) w3)"
    using assms 1 3 by (simp_all add: sinkFlush_def Let_def w2_def split: if_splits)
  have "wire w' ?fd @ slotRest (pendingCtrl (agg w')) (pendingCtrlOff (agg w')) @
      slotRest (pending (agg w')) (pendingOff (agg w')) = wire w ?fd @
      slotRest (pendingCtrl (agg w)) (pendingCtrlOff (agg w)) @ slotRest (pending (agg w)) (pendingOff (agg w))"
  proof (cases "rc1 \<le> 0")
    case True
    then show ?thesis using c1 e1 by (simp add: w' w2_def upd_agg_def)
  next
    case False
    then have "rc1 = 1" using c1 by simp
    then have "slot1 = None" and "wire w1 ?fd = wire w ?fd @ slotRest (pendingCtrl (agg w)) (pendingCtrlOff (agg w))"
      using c1 by (auto simp: slotRest_def)
    then show ?thesis using False c3 e1 e3 by (simp add: w' w2_def upd_agg_def slotRest_def)
  qed
  moreover note fr = sinkFlush_frame [OF assms(1)] and ag = slots_only_fields [OF sinkFlush_frame(1) [OF assms(1)]]
  have "sinkFd c w' = ?fd" using fr by (intro sinkFd_fds) (simp add: fds_def [abs_def])
  moreover have "aggFramesOf ms (agg w') = aggFramesOf ms (agg w)" for ms by (rule aggFramesOf_cong) (simp add: ag)
  ultimately show "sinkStream c w' = sinkStream c w"
    using fr by (simp add: sinkStream_def pumpInv_flush(3) [OF assms(1)])
  show "pending (agg w') = None \<and> pendingCtrl (agg w') = None" if "rc = 1"
    using that c1 c3 e1 e3 by (auto simp: w' w2_def upd_agg_def split: if_splits)
  show "pending (agg w') \<noteq> None \<or> pendingCtrl (agg w') \<noteq> None" if "rc \<le> 0"
    using that c1 c3 e1 e3 by (auto simp: w' w2_def upd_agg_def split: if_splits)
  show "rc \<le> 1" using c1 c3 by (simp add: w')
qed

lemma pumpResume_conserves:
  assumes "pumpInv w" and "mallocs w = []" and "pumpResume w = Some w'"
  shows "sinkStream c w' = sinkStream c w"
proof -
  from pumpResume_ok [OF assms(1)] assms(2,3) have core: "agg_core (agg w') = agg_core (agg w)"
    and fds: "fds w' = fds w" and "wire w' = wire w"
    and "qcontents (dataQueue w') @ parkedMsgs w' = qcontents (dataQueue w) @ parkedMsgs w" by auto
  moreover have "aggFramesOf ms (agg w') = aggFramesOf ms (agg w)" for ms
    by (rule aggFramesOf_cong) (simp add: agg_core_fields [OF core])
  ultimately show ?thesis by (simp add: sinkStream_def sinkFd_fds [OF fds] agg_core_fields [OF core])
qed

lemma pumpEncode_conserves:
  assumes inv: "pumpInv w" and "mallocs w = []" and pop: "trypop (dataQueue w) = Some (m, q)"
    and slots: "pending (agg w) = None" "pendingCtrl (agg w) = None"
  shows "sinkStream c (pumpEncode m (w\<lparr>dataQueue := q\<rparr>)) = sinkStream c w"
proof -
  let ?w = "pumpEncode m (w\<lparr>dataQueue := q\<rparr>)"
  note e = pumpInv_encode [OF inv pop]
  obtain f where f: "fst (aggOnMessage m (agg w) os_idle) = Some f" "pending (agg ?w) = Some f"
    "pendingOff (agg ?w) = 0"
    using pumpEncode_frame(14) [of "w\<lparr>dataQueue := q\<rparr>" m] assms(2) by auto
  have "fds ?w = fds w" by (simp add: fds_def pumpEncode_frame fun_eq_iff)
  then have "sinkFd c ?w = sinkFd c w" by (rule sinkFd_fds)
  moreover have "qcontents (dataQueue w) = m # qcontents q"
    using queue.deq_Some [OF _ pop] inv by (simp add: pumpInv_def)
  moreover obtain a' s where on: "aggOnMessage m (agg w) os_idle = (Some f, a', s)"
    using f(1) by (metis prod.collapse)
  moreover have "aggFramesOf ms (agg ?w) = aggFramesOf ms a'" for ms
    using aggOnMessage_agg(1) [OF on] by (intro aggFramesOf_cong) (simp add: pumpEncode_frame)
  ultimately show ?thesis using slots e f by (simp add: sinkStream_def pumpEncode_frame slotRest_def)
qed

lemma sinkArm_os:
  "wire (sinkArm w) = wire w" "dataQueue (sinkArm w) = dataQueue w" "parked (sinkArm w) = parked w"
  "agg (sinkArm w) = agg w" "conns (sinkArm w) = conns w" "pumpInv (sinkArm w) = pumpInv w"
  "sinkFd c (sinkArm w) = sinkFd c w" "sinkStream c (sinkArm w) = sinkStream c w"
proof -
  have os: "wire (sinkArm w) = wire w \<and> os.more (sinkArm w) = os.more w"
    by (simp add: sinkArm_def Let_def os_epoll_ctl_world split: option.split)
  then have eq: "conns (sinkArm w) = conns w" "agg (sinkArm w) = agg w" "dataQueue (sinkArm w) = dataQueue w"
    using world_more [of "sinkArm w" w] by simp_all
  have "parked (sinkArm w) = parked w" "parkInv (sinkArm w) = parkInv w"
    by (intro parked_cong; simp add: eq link_def fun_eq_iff)+
  with os eq show "wire (sinkArm w) = wire w" "dataQueue (sinkArm w) = dataQueue w" "parked (sinkArm w) = parked w"
    "agg (sinkArm w) = agg w" "conns (sinkArm w) = conns w" "pumpInv (sinkArm w) = pumpInv w"
    "sinkFd c (sinkArm w) = sinkFd c w" "sinkStream c (sinkArm w) = sinkStream c w"
    by (simp_all add: pumpInv_def sinkStream_def parkedMsgs_def sinkFd_def)
qed

lemma sinkArm_log:
  assumes "sink (agg w) = Some c" and "pending (agg w) \<noteq> None \<or> pendingCtrl (agg w) \<noteq> None"
  shows "last (ep_log (sinkArm w)) = (EPOLL_CTL_MOD, aepollfd (agg w), sinkFd c w, [EPOLLIN, EPOLLOUT])"
  using assms by (auto simp: sinkArm_def Let_def os_epoll_ctl_def split: list.splits)

text \<open>How a pump may end: the sink failed, everything went out, or the loop waits for room in the socket.\<close>

definition pumpDone :: "nat \<Rightarrow> 'a world_scheme \<Rightarrow> bool" where
  "pumpDone c w \<longleftrightarrow> sink (agg w) = Some c \<and> pending (agg w) = None \<and> pendingCtrl (agg w) = None \<and>
     qcontents (dataQueue w) = [] \<and> parked w = []"

definition pumpBlocked :: "nat \<Rightarrow> 'a world_scheme \<Rightarrow> bool" where
  "pumpBlocked c w \<longleftrightarrow> sink (agg w) = Some c \<and> (pending (agg w) \<noteq> None \<or> pendingCtrl (agg w) \<noteq> None) \<and>
     last (ep_log w) = (EPOLL_CTL_MOD, aepollfd (agg w), sinkFd c w, [EPOLLIN, EPOLLOUT])"

lemma aggPump_main:
  assumes "pumpInv w" and "sink (agg w) = Some c" and "mallocs w = []"
  shows "\<exists>w'. aggPump w = Some w' \<and> (sink (agg w') = None \<or>
    pumpInv w' \<and> sinkFd c w' = sinkFd c w \<and> sinkStream c w' = sinkStream c w \<and>
      (pumpDone c w' \<or> pumpBlocked c w')) \<and>
    (txs w (sinkFd c w) = [] \<longrightarrow> pumpDone c w')"
  using assms
proof (induction "2 * length (parked w) + qsize (dataQueue w)" arbitrary: w rule: less_induct)
  case less
  obtain rc w1 where fl: "sinkFlush w = (rc, w1)" by fastforce
  note inv1 = pumpInv_flush [OF fl] and fr = sinkFlush_frame [OF fl]
    and ag1 = slots_only_fields [OF sinkFlush_frame(1) [OF fl]]
    and cons1 = sinkFlush_conserves [OF fl less.prems(2)]
  have acc: "rc = 1 \<and> txs w1 = txs w" if "txs w (sinkFd c w) = []"
    using sinkFlush_accepting [OF less.prems(2) that] fl by auto
  have fd1: "sinkFd c w1 = sinkFd c w" using fr by (intro sinkFd_fds) (simp add: fds_def [abs_def])
  consider "rc < 0" | "rc = 0" | "rc = 1" using cons1(4) by linarith
  then show ?case
  proof cases
    case 1
    then have "aggPump w = Some (closeSink w1)" using less.prems(2) fl by (subst aggPump.simps) simp
    moreover have "sink (agg (closeSink w1)) = None" by (simp add: closeSink_def upd_agg_def split: option.split)
    ultimately show ?thesis using 1 acc by auto
  next
    case 2
    have "aggPump w = Some (sinkArm w1)" using 2 less.prems(2) fl by (subst aggPump.simps) simp
    moreover have "pumpBlocked c (sinkArm w1)"
      using sinkArm_log [of w1 c] cons1(3) 2 less.prems(2) ag1
      by (auto simp: pumpBlocked_def sinkArm_os sinkFd_def)
    ultimately show ?thesis using 2 acc less.prems(1) inv1 cons1(1) fd1 by (auto simp: sinkArm_os)
  next
    case 3
    have mall1: "mallocs w1 = []" using fr less.prems(3) by simp
    from pumpResume_ok [of w1] less.prems(1) inv1 mall1 obtain w2 where res: "pumpResume w1 = Some w2" "pumpInv w2"
      and core: "agg_core (agg w2) = agg_core (agg w1)" and fds: "fds w2 = fds w1" and tx2: "txs w2 = txs w1"
      and le: "2 * length (parked w2) + qsize (dataQueue w2) \<le> 2 * length (parked w1) + qsize (dataQueue w1)"
      and mall2: "mallocs w2 = []" and last: "qcontents (dataQueue w2) = [] \<longrightarrow> parked w2 = []" by auto
    note ag2 = agg_core_fields [OF core]
    have str2: "sinkStream c w2 = sinkStream c w"
      using pumpResume_conserves [OF _ mall1 res(1), of c] less.prems(1) inv1 cons1(1) by simp
    have q2: "queueInv (dataQueue w2)" using res by (simp add: pumpInv_def)
    have sl2: "pending (agg w2) = None" "pendingCtrl (agg w2) = None" using 3 cons1(2) ag2 by simp_all
    have sk2: "sink (agg w2) = Some c" using less.prems(2) ag1 ag2 by simp
    have fd2: "sinkFd c w2 = sinkFd c w" using sinkFd_fds [OF fds] fd1 by simp
    show ?thesis
    proof (cases "trypop (dataQueue w2)")
      case None
      then have "pumpDone c (sinkArm w2)"
        using queue.deq_None [OF q2] last sk2 sl2 by (simp add: pumpDone_def sinkArm_os)
      moreover have "aggPump w = Some (sinkArm w2)"
        using 3 less.prems(2) fl res None by (subst aggPump.simps) simp
      ultimately show ?thesis using res(2) str2 fd2 by (auto simp: sinkArm_os)
    next
      case (Some p)
      obtain m q where pop: "trypop (dataQueue w2) = Some (m, q)" using Some by (cases p) auto
      let ?w = "pumpEncode m (w2\<lparr>dataQueue := q\<rparr>)"
      note e = pumpInv_encode [OF res(2) pop] and c2 = pumpEncode_conserves [OF res(2) mall2 pop sl2, of c]
      have "qsize (dataQueue w2) = Suc (qsize q)" using pumpMeasure_trypop [OF q2 pop] .
      then have less: "2 * length (parked ?w) + qsize (dataQueue ?w) < 2 * length (parked w) + qsize (dataQueue w)"
        using le e inv1 fr by (simp add: pumpEncode_frame)
      have "fds ?w = fds w2" by (simp add: fds_def pumpEncode_frame fun_eq_iff)
      then have fdw: "sinkFd c ?w = sinkFd c w" using sinkFd_fds [of ?w w2 c] fd2 by simp
      have "sink (agg ?w) = Some c" "mallocs ?w = []" using sk2 mall2 by (simp_all add: pumpEncode_frame)
      from less.hyps [OF less e(1) this] obtain w' where "aggPump ?w = Some w'"
        and fin: "sink (agg w') = None \<or> pumpInv w' \<and> sinkFd c w' = sinkFd c ?w \<and>
          sinkStream c w' = sinkStream c ?w \<and> (pumpDone c w' \<or> pumpBlocked c w')"
        and acc': "txs ?w (sinkFd c ?w) = [] \<longrightarrow> pumpDone c w'" by blast
      moreover have "aggPump w = aggPump ?w" using 3 less.prems(2) fl res pop by (subst aggPump.simps) simp
      moreover have "txs ?w (sinkFd c ?w) = []" if "txs w (sinkFd c w) = []"
        using that acc tx2 by (simp add: fdw pumpEncode_frame)
      ultimately show ?thesis using c2 str2 fdw by auto
    qed
  qed
qed

subsection \<open>Properties\<close>

text \<open>A world with an adopted sink, one queued message and one parked source, for the witnesses.\<close>

definition a_msg :: "u64 \<Rightarrow> byte list \<Rightarrow> Msg_t" where
  "a_msg i bs = \<lparr>mkind = MSG_DATA, srcId = i, mopcode = WS_OP_TEXT, mts = \<lparr>tv_sec = 7, tv_nsec = 0\<rparr>,
     mconn = None, mdata = bs\<rparr>"

definition pump_base :: world where
  "pump_base = conn_world.extend (os.extend os_idle (conn_world.fields
     [0 \<mapsto> conn_zero\<lparr>cfd := 5\<rparr>, 1 \<mapsto> conn_zero\<lparr>cfd := 6, pendingMsg := Some (a_msg 2 (bytes ''b''))\<rparr>] None 1))
     (world.fields createQueue (pushLocked (a_msg 1 (bytes ''a'')) createQueue) createQueue
       ((aggInit 8 4)\<lparr>sink := Some 0, aepollfd := 3\<rparr>))"

definition pump_world :: world where
  "pump_world = parkListPush 1 pump_base"

lemma pump_base_fields:
  "conns pump_base = [0 \<mapsto> conn_zero\<lparr>cfd := 5\<rparr>, 1 \<mapsto> conn_zero\<lparr>cfd := 6, pendingMsg := Some (a_msg 2 (bytes ''b''))\<rparr>]"
  "dataQueue pump_base = pushLocked (a_msg 1 (bytes ''a'')) createQueue"
  "agg pump_base = (aggInit 8 4)\<lparr>sink := Some 0, aepollfd := 3\<rparr>" "mallocs pump_base = []" "txs pump_base = (\<lambda>_. [])"
  by (simp_all add: pump_base_def os.defs conn_world.defs world.defs os_idle_def)

lemma pump_world_fields:
  "mallocs pump_world = []" "txs pump_world = (\<lambda>_. [])" "sink (agg pump_world) = Some 0"
  "dataQueue pump_world = dataQueue pump_base" "fds pump_world = fds pump_base"
  by (simp_all add: pump_world_def parkListPush_def upd_agg_def upd_conn_def pump_base_fields aggInit_def
      Let_def fds_def fun_eq_iff split: option.split)

lemma pumpInv_pump_world: "pumpInv pump_world"
proof -
  have base: "parkInv pump_base" "parked pump_base = []"
    by (auto simp: parkInv_def parkShape_def parked_def pump_base_fields aggInit_def intro!: exI [of _ "[]"])
  then have "parkInv pump_world" "parked pump_world = [1]"
    using park.contents_enq [of pump_base 1] park.inv_enq [of pump_base 1] by (simp_all add: pump_world_def pump_base_fields)
  moreover have "\<exists>x m. conns pump_world 1 = Some x \<and> pendingMsg x = Some m"
    by (simp add: pump_world_def parkListPush_def upd_agg_def upd_conn_def pump_base_fields aggInit_def Let_def)
  moreover have "queueInv (dataQueue pump_world)"
    by (simp add: pump_world_fields pump_base_fields pushLocked_contents queueInv_create)
  ultimately show ?thesis by (simp add: pumpInv_def)
qed

text \<open>C21: The pump of the aggregator always returns: whatever the sockets and the allocator do, the loop that
  flushes the sink, resumes a parked source, takes a message and encodes it ends, because every round
  takes a message off the queue and a parked source puts back at most one.\<close>

theorem aggPump_returns:
  assumes "pumpInv w"
  shows "\<exists>w'. aggPump w = Some w'"
  using assms
proof (induction "2 * length (parked w) + qsize (dataQueue w)" arbitrary: w rule: less_induct)
  case less
  obtain rc w1 where fl: "sinkFlush w = (rc, w1)" by fastforce
  note inv1 = pumpInv_flush [OF fl] and fr = sinkFlush_frame [OF fl]
  from pumpResume_ok [of w1] less.prems inv1 obtain w2 where res: "pumpResume w1 = Some w2" "pumpInv w2"
    and le: "2 * length (parked w2) + qsize (dataQueue w2) \<le> 2 * length (parked w1) + qsize (dataQueue w1)"
    by auto
  show ?case
  proof (cases "sink (agg w) = None \<or> rc \<le> 0 \<or> trypop (dataQueue w2) = None")
    case True
    then show ?thesis using fl res by (subst aggPump.simps) auto
  next
    case False
    then obtain m q where pop: "trypop (dataQueue w2) = Some (m, q)" by auto
    let ?w = "pumpEncode m (w2\<lparr>dataQueue := q\<rparr>)"
    note e = pumpInv_encode [OF res(2) pop]
    have "qsize (dataQueue w2) = Suc (qsize q)"
      using pumpMeasure_trypop [OF _ pop] res(2) by (simp add: pumpInv_def)
    then have "2 * length (parked ?w) + qsize (dataQueue ?w) < 2 * length (parked w) + qsize (dataQueue w)"
      using le e inv1 fr by (simp add: pumpEncode_frame)
    then obtain w' where "aggPump ?w = Some w'" using less.hyps e(1) by blast
    then show ?thesis using False fl res pop by (subst aggPump.simps) auto
  qed
qed

theorem aggPump_returns_witness: "\<exists>w'. aggPump pump_world = Some w'"
  using aggPump_returns [OF pumpInv_pump_world] .

text \<open>C10: Whatever the sink's socket does (short writes, a full send buffer at any point), the pump neither
  loses, duplicates nor reorders a byte: unless the sink failed and was closed, the bytes on the wire
  followed by what is still owed (the rest of the control frame, the rest of the data frame, the frames
  of the queued messages and of the parked sources' messages) are the same stream as before, and the
  pump stopped either with everything delivered, the queue and the list of parked sources empty, or
  with a slot in use and \<open>EPOLLOUT\<close> armed.\<close>

theorem aggPump_conserves:
  assumes "pumpInv w" and "sink (agg w) = Some c" and "mallocs w = []"
  shows "case aggPump w of None \<Rightarrow> False | Some w' \<Rightarrow>
    sink (agg w') = None \<or>
    pumpInv w' \<and> sinkStream c w' = sinkStream c w \<and> (pumpDone c w' \<or> pumpBlocked c w')"
  using aggPump_main [OF assms] by auto

theorem aggPump_conserves_witness:
  "case aggPump pump_world of None \<Rightarrow> False | Some w' \<Rightarrow>
    sink (agg w') = None \<or>
    pumpInv w' \<and> sinkStream 0 w' = sinkStream 0 pump_world \<and> (pumpDone 0 w' \<or> pumpBlocked 0 w')"
  by (rule aggPump_conserves) (simp_all add: pumpInv_pump_world pump_world_fields)

text \<open>C17: With a sink that takes what it is given, one run of the pump delivers everything: the socket gets
  the rest of the control frame, the rest of the data frame, then the frames of the queued messages in
  order, then those of the parked sources' messages in the order they were parked; afterwards the
  queue is empty and no source is parked.\<close>

theorem aggPump_drains:
  assumes "pumpInv w" and "sink (agg w) = Some c" and "mallocs w = []" and "txs w (sinkFd c w) = []"
  shows "case aggPump w of None \<Rightarrow> False | Some w' \<Rightarrow>
    qcontents (dataQueue w') = [] \<and> parked w' = [] \<and>
    wire w' (sinkFd c w) = wire w (sinkFd c w) @ slotRest (pendingCtrl (agg w)) (pendingCtrlOff (agg w)) @
      slotRest (pending (agg w)) (pendingOff (agg w)) @
      aggFramesOf (qcontents (dataQueue w) @ parkedMsgs w) (agg w)"
  using aggPump_main [OF assms(1-3)] assms(4)
  by (auto simp: pumpDone_def sinkStream_def slotRest_def parkedMsgs_def)

theorem aggPump_drains_witness:
  "case aggPump pump_world of None \<Rightarrow> False | Some w' \<Rightarrow>
    qcontents (dataQueue w') = [] \<and> parked w' = [] \<and>
    wire w' (sinkFd 0 pump_world) = wire pump_world (sinkFd 0 pump_world) @
      slotRest (pendingCtrl (agg pump_world)) (pendingCtrlOff (agg pump_world)) @
      slotRest (pending (agg pump_world)) (pendingOff (agg pump_world)) @
      aggFramesOf (qcontents (dataQueue pump_world) @ parkedMsgs pump_world) (agg pump_world)"
  by (rule aggPump_drains) (simp_all add: pumpInv_pump_world pump_world_fields)

text \<open>C33: A control frame overtakes the rest of a data frame: when the sink has taken only the first bytes of
  a data frame and a pong was queued meanwhile, the next flush puts the pong between the two parts of
  the data frame, although a frame may not be interrupted by another one (RFC 6455, section 5.4).\<close>

theorem sinkFlush_interleaves:
  assumes "sink (agg w) = Some c" and "txs w (sinkFd c w) = []"
    and "pending (agg w) = Some f" and "wire w (sinkFd c w) = sent @ take (pendingOff (agg w)) f"
    and "pendingCtrl (agg w) = Some g" and "pendingCtrlOff (agg w) = 0"
  shows "wire (snd (sinkFlush w)) (sinkFd c w) =
    sent @ take (pendingOff (agg w)) f @ g @ drop (pendingOff (agg w)) f"
  using sinkFlush_accepting [OF assms(1,2)] assms(3-6) by (auto simp: slotRest_def)

definition half_sent :: world where
  "half_sent = upd_agg (\<lambda>a. a\<lparr>pending := Some [129, 2, 104, 105], pendingOff := 3,
     pendingCtrl := Some [138, 0]\<rparr>) (pump_base\<lparr>wire := (\<lambda>_. [])(5 := [129, 2, 104])\<rparr>)"

theorem sinkFlush_interleaves_witness:
  "wire (snd (sinkFlush half_sent)) (sinkFd 0 half_sent) = [129, 2, 104, 138, 0, 105]"
  using sinkFlush_interleaves [of half_sent 0 "[129, 2, 104, 105]" "[]" "[138, 0]"]
  by (simp add: half_sent_def upd_agg_def sinkFd_def pump_base_fields aggInit_def)

end
