(* ===== verification/Listener.thy ===== *)
theory Listener
  imports Agg
begin

section \<open>The listener threads (src/src/listener.c)\<close>

text \<open>
  \<open>connectionHandle\<close> accepts what is pending; the answers of \<open>accept\<close>, \<open>setNonblocking\<close>, \<open>inet_ntop\<close> and
  \<open>calloc\<close> (the address of the new connection) are a script. \<open>listenerEvent\<close> is the body of the loop over
  the events of one \<open>epoll_wait\<close>; the creation of the sockets is \<open>listenerSetup\<close> of theory Startup.
\<close>

datatype accept_res =
    AcceptFd int bool "nat option" "byte list"
  | AcceptAgain
  | AcceptErr

definition acceptOne :: "int \<Rightarrow> int \<Rightarrow> bool \<Rightarrow> nat option \<Rightarrow> byte list \<Rightarrow> 'a conn_world_scheme \<Rightarrow> 'a conn_world_scheme" where
  "acceptOne epollfd clientfd nonblock mem ip w =
     (if \<not> nonblock then os_close clientfd w
      else case connNew mem clientfd epollfd w of
          (None, w1) \<Rightarrow> os_close clientfd w1
        | (Some c, w1) \<Rightarrow>
            let w2 = upd_conn c (\<lambda>x. x\<lparr>clientip := ip\<rparr>) w1;
                (rc, w3) = os_epoll_ctl epollfd EPOLL_CTL_ADD clientfd [EPOLLIN, EPOLLET, EPOLLRDHUP, EPOLLONESHOT] w2
            in if rc = -1 then os_close clientfd (connDestroy c w3) else w3)"

text \<open>The loop also ends on an error of \<open>accept\<close>, with connections possibly still pending.\<close>

fun connectionHandle :: "int \<Rightarrow> accept_res list \<Rightarrow> 'a conn_world_scheme \<Rightarrow> 'a conn_world_scheme" where
  "connectionHandle epollfd [] w = w"
| "connectionHandle epollfd (AcceptFd fd nonblock mem ip # rs) w =
     connectionHandle epollfd rs (acceptOne epollfd fd nonblock mem ip w)"
| "connectionHandle epollfd (AcceptAgain # rs) w = w"
| "connectionHandle epollfd (AcceptErr # rs) w = w"

definition push_ingest :: "nat \<Rightarrow> 'a world_scheme \<Rightarrow> int \<times> 'a world_scheme" where
  "push_ingest c w = (case push c (ingest w) w of (rc, q, w1) \<Rightarrow> (rc, w1\<lparr>ingest := q\<rparr>))"

datatype listen_event = LevShutdown | LevListen "accept_res list" | LevConn nat "ep_flag list"

text \<open>The result says whether the thread goes on.\<close>

definition listenerEvent :: "int \<Rightarrow> listen_event \<Rightarrow> 'a world_scheme \<Rightarrow> bool \<times> 'a world_scheme" where
  "listenerEvent epollfd e w = (case e of
       LevShutdown \<Rightarrow> (False, w)
     | LevListen rs \<Rightarrow> (True, connectionHandle epollfd rs w)
     | LevConn c events \<Rightarrow>
         (case push_ingest c (upd_conn c (\<lambda>x. x\<lparr>lastEvents := events\<rparr>) w) of (rc, w1) \<Rightarrow>
            (True, if rc \<noteq> 0 then connClose c w1 else w1)))"

fun listenerEvents :: "int \<Rightarrow> listen_event list \<Rightarrow> 'a world_scheme \<Rightarrow> bool \<times> 'a world_scheme" where
  "listenerEvents epollfd [] w = (True, w)"
| "listenerEvents epollfd (e # es) w = (case listenerEvent epollfd e w of
       (True, w1) \<Rightarrow> listenerEvents epollfd es w1
     | (False, w1) \<Rightarrow> (False, w1))"

end
