(* ===== verification/Invariant.thy ===== *)
theory Invariant
  imports WorkerSafety SinkProofs Listener
begin

section \<open>The invariant of the shared state\<close>

text \<open>
  \<open>sysInv\<close> ties the registry, the park list, the three queues, the connections and the messages on their
  way together, and the lemmas of this theory show that the elementary changes preserve it: writing a
  connection back, closing one, parking one, and adding to a queue. The theories Handlers, AggSafety and
  System compose them to the steps of the workers, the aggregator and the listeners.
\<close>

text \<open>
  The connections that are in somebody's hands: the sink, the sinks the aggregator has still to adopt, the
  parked sources, and the connections queued for the workers. No connection is there twice, every one of
  them is allocated, and a worker that handles a connection has taken it out of the queue.
\<close>

definition msgConns :: "Msg_t list \<Rightarrow> nat list" where
  "msgConns ms = concat (map (\<lambda>m. case mconn m of Some c \<Rightarrow> [c] | None \<Rightarrow> []) ms)"

definition owned :: "'a world_scheme \<Rightarrow> nat list" where
  "owned w = (case sink (agg w) of Some c \<Rightarrow> [c] | None \<Rightarrow> []) @ msgConns (qcontents (ctrlQueue w)) @ parked w @
     qcontents (ingest w)"

definition connInv :: "Conn_t \<Rightarrow> bool" where
  "connInv x \<longleftrightarrow> connOk x \<and> (cstate x \<noteq> ST_WS_OPEN \<longrightarrow> bufInv (msg x) \<and> \<not> fragmenting x)"

definition msgValid :: "ServerConfig_t \<Rightarrow> Msg_t \<Rightarrow> bool" where
  "msgValid conf m \<longleftrightarrow> (\<exists>i. msgOk conf i m)"

definition parkedOk :: "ServerConfig_t \<Rightarrow> 'a conn_world_scheme \<Rightarrow> nat \<Rightarrow> bool" where
  "parkedOk conf w c \<longleftrightarrow> (\<exists>x m. conns w c = Some x \<and> pendingMsg x = Some m \<and> msgValid conf m)"

definition connsInv :: "'a conn_world_scheme \<Rightarrow> bool" where
  "connsInv w \<longleftrightarrow> (\<forall>d x. conns w d = Some x \<longrightarrow> connInv x)"

definition sysInv :: "ServerConfig_t \<Rightarrow> 'a world_scheme \<Rightarrow> bool" where
  "sysInv conf w \<longleftrightarrow> regInv w \<and> parkInv w \<and> queueInv (dataQueue w) \<and> queueInv (ctrlQueue w) \<and>
     queueInv (ingest w) \<and> distinct (owned w) \<and> set (owned w) \<subseteq> dom (conns w) \<and> connsInv w \<and>
     list_all (parkedOk conf w) (parked w) \<and> list_all (msgValid conf) (qcontents (dataQueue w))"

lemma parked_frame:
  assumes "parkInv w" and "agg w' = agg w" and "finite (dom (conns w'))"
    and "\<And>d. d \<in> set (parked w) \<Longrightarrow> d \<in> dom (conns w') \<and> link parkNext w' d = link parkNext w d"
  shows "parkInv w' \<and> parked w' = parked w"
proof -
  obtain as where as: "parkShape w as" "parked w = as" using assms(1) parked_shape by (auto simp: parkInv_def)
  have "lpath (link parkNext w') (parkHead (agg w)) as = lpath (link parkNext w) (parkHead (agg w)) as"
    using assms(4) as(2) by (intro lpath_cong) auto
  with as assms(2,4) have "parkShape w' as" by (auto simp: parkShape_def)
  with parked_shape [OF this assms(3)] as(2) assms(3) show ?thesis by (auto simp: parkInv_def)
qed

text \<open>A change of the connections that the aggregator's lists do not notice.\<close>

lemma sysInv_conns:
  assumes "sysInv conf w" and "regInv w'" and "agg w' = agg w" and "dataQueue w' = dataQueue w"
    and "ctrlQueue w' = ctrlQueue w" and "set (owned w) \<subseteq> dom (conns w')" and "finite (dom (conns w'))"
    and "\<And>d x x'. d \<in> set (parked w) \<Longrightarrow> conns w d = Some x \<Longrightarrow> conns w' d = Some x' \<Longrightarrow>
      parkNext x' = parkNext x \<and> pendingMsg x' = pendingMsg x"
    and "\<And>d x. conns w' d = Some x \<Longrightarrow> connInv x" and "ingest w' = ingest w"
  shows "sysInv conf w' \<and> owned w' = owned w"
proof -
  have pk: "parkInv w" and sub: "set (parked w) \<subseteq> dom (conns w')" and ok: "list_all (parkedOk conf w) (parked w)"
    using assms(1,6) by (simp_all add: sysInv_def owned_def)
  have sub0: "set (parked w) \<subseteq> dom (conns w)" using parked_distinct [OF pk] by simp
  have same: "d \<in> dom (conns w') \<and> link parkNext w' d = link parkNext w d" if d: "d \<in> set (parked w)" for d
  proof -
    have "d \<in> dom (conns w')" "d \<in> dom (conns w)" using d sub sub0 by auto
    then obtain x x' where "conns w d = Some x" "conns w' d = Some x'" unfolding dom_def by blast
    with assms(8) [OF d this] show ?thesis by (auto simp: link_def)
  qed
  then have p: "parkInv w'" "parked w' = parked w" using parked_frame [OF pk assms(3,7)] by blast+
  then have own_eq: "owned w' = owned w" using assms(3,5,10) by (simp add: owned_def)
  have "parkedOk conf w' d" if d: "d \<in> set (parked w)" for d
  proof -
    have "parkedOk conf w d" using ok d unfolding list_all_iff by (rule bspec)
    then obtain x m where x: "conns w d = Some x" "pendingMsg x = Some m" "msgValid conf m"
      unfolding parkedOk_def by (elim exE conjE) (rule that)
    have "d \<in> dom (conns w')" using sub d by (rule subsetD)
    then obtain x' where x': "conns w' d = Some x'" unfolding dom_def by blast
    show ?thesis using assms(8) [OF d x(1) x'] x(2,3) x' by (simp add: parkedOk_def)
  qed
  then have "list_all (parkedOk conf w') (parked w')" using p by (simp add: list_all_iff)
  moreover have "connsInv w'" using assms(9) by (auto simp: connsInv_def)
  moreover have "queueInv (dataQueue w')" "queueInv (ctrlQueue w')" "distinct (owned w')"
    "list_all (msgValid conf) (qcontents (dataQueue w'))"
    using assms(1,4,5) own_eq by (simp_all add: sysInv_def)
  ultimately show ?thesis using assms(2,6,10) assms(1) p(1) own_eq by (simp add: sysInv_def)
qed

lemma regInv_cong:
  assumes "link regNext w' = link regNext w" and "link regPrev w' = link regPrev w" and "regHead w' = regHead w"
    and "dom (conns w') = dom (conns w)"
  shows "regInv w' = regInv w"
  using assms by (simp add: regInv_def regShape_def)

text \<open>Writing a connection back.\<close>

definition linksEq :: "Conn_t \<Rightarrow> Conn_t \<Rightarrow> bool" where
  "linksEq x y \<longleftrightarrow> regPrev x = regPrev y \<and> regNext x = regNext y \<and> parkNext x = parkNext y"

lemma link_write:
  assumes "conns w c = Some y" and "linksEq x y"
  shows "link regNext (upd_conn c (\<lambda>_. x) w) = link regNext w" "link regPrev (upd_conn c (\<lambda>_. x) w) = link regPrev w"
    "link parkNext (upd_conn c (\<lambda>_. x) w) = link parkNext w"
  using assms by (auto simp: link_def upd_conn_def linksEq_def fun_eq_iff)

lemma sysInv_write:
  assumes "sysInv conf w" and "conns w c = Some y" and "linksEq x y" and "connInv x" and "c \<notin> set (parked w)"
  shows "sysInv conf (upd_conn c (\<lambda>_. x) w) \<and> owned (upd_conn c (\<lambda>_. x) w) = owned w"
proof (rule sysInv_conns [OF assms(1)])
  show "regInv (upd_conn c (\<lambda>_. x) w)"
    using assms(1) regInv_cong [of "upd_conn c (\<lambda>_. x) w" w] link_write [OF assms(2,3)] by (simp add: sysInv_def)
  show "set (owned w) \<subseteq> dom (conns (upd_conn c (\<lambda>_. x) w))" using assms(1) by (simp add: sysInv_def)
  show "parkNext x' = parkNext z \<and> pendingMsg x' = pendingMsg z"
    if "d \<in> set (parked w)" "conns w d = Some z" "conns (upd_conn c (\<lambda>_. x) w) d = Some x'" for d z x'
    using that assms(5) by (auto simp: upd_conn_def split: if_splits)
  show "finite (dom (conns (upd_conn c (\<lambda>_. x) w)))" using assms(1) by (simp add: sysInv_def parkInv_def)
  show "connInv z" if "conns (upd_conn c (\<lambda>_. x) w) d = Some z" for d z
    using that assms(1,2,4) by (auto simp: upd_conn_def sysInv_def connsInv_def split: if_splits)
qed simp_all

lemma sysInv_parts:
  assumes "conns w' = conns w" "regHead w' = regHead w" "agg w' = agg w"
  shows "regInv w' = regInv w" "parkInv w' = parkInv w" "parked w' = parked w" "parkedOk conf w' = parkedOk conf w"
    "connsInv w' = connsInv w"
proof -
  have "link f w' = link f w" for f using assms(1) by (simp add: link_def fun_eq_iff)
  then show "regInv w' = regInv w" "parkInv w' = parkInv w" "parked w' = parked w" "parkedOk conf w' = parkedOk conf w"
    "connsInv w' = connsInv w"
    using assms by (simp_all add: regInv_def regShape_def parkInv_def parkShape_def parked_def
        parkedOk_def [abs_def] connsInv_def)
qed

lemma sysInv_cong:
  assumes "conns w' = conns w" "regHead w' = regHead w" "agg w' = agg w" "dataQueue w' = dataQueue w"
    "ctrlQueue w' = ctrlQueue w" "ingest w' = ingest w"
  shows "sysInv conf w' = sysInv conf w" "owned w' = owned w"
  using sysInv_parts [OF assms(1-3)] assms by (simp_all add: sysInv_def owned_def)

lemma sysInv_more:
  assumes "os.more w' = os.more w"
  shows "sysInv conf w' = sysInv conf w" "owned w' = owned w" "conns w' = conns w"
  using sysInv_cong [of w' w] world_more [OF assms] by simp_all

text \<open>Closing a connection nobody else holds.\<close>

definition regErase :: "Conn_t \<Rightarrow> Conn_t" where
  "regErase x = x\<lparr>regPrev := None, regNext := None\<rparr>"

lemma regErase_eq:
  assumes "regErase x = regErase y"
  shows "connInv x = connInv y" "parkNext x = parkNext y" "pendingMsg x = pendingMsg y"
proof -
  have x: "x = y\<lparr>regPrev := regPrev x, regNext := regNext x\<rparr>"
    using assms unfolding regErase_def by (cases x, cases y) simp
  have "assembled st (y\<lparr>regPrev := p, regNext := n\<rparr>) = assembled st y" for st p n
    by (simp add: assembled_def split: option.split)
  then have "connInv (y\<lparr>regPrev := p, regNext := n\<rparr>) = connInv y" for p n
    by (simp add: connInv_def connOk_def)
  then show "connInv x = connInv y" "parkNext x = parkNext y" "pendingMsg x = pendingMsg y" by (subst x, simp)+
qed

lemma upd_conn_erase:
  assumes "\<And>x. regErase (f x) = regErase x"
  shows "map_option regErase (conns (upd_conn c f w) d) = map_option regErase (conns w d)"
proof -
  have "regErase \<circ> f = regErase" using assms by auto
  then show ?thesis by (simp add: upd_conn_def option.map_comp)
qed

lemma registryRemove_erase: "map_option regErase (conns (registryRemove c w) d) = map_option regErase (conns w d)"
proof -
  have f: "regErase (x\<lparr>regNext := n\<rparr>) = regErase x" "regErase (x\<lparr>regPrev := n\<rparr>) = regErase x" for x n
    by (simp_all add: regErase_def)
  show ?thesis by (simp add: registryRemove_def Let_def upd_conn_erase f split: option.split)
qed

lemma registryRemove_more: "conn_world.more (registryRemove c w) = conn_world.more w"
  by (simp add: registryRemove_def Let_def split: option.split)

lemma conn_more_world:
  assumes "conn_world.more w' = conn_world.more (w :: 'a world_scheme)"
  shows "agg w' = agg w" "dataQueue w' = dataQueue w" "ctrlQueue w' = ctrlQueue w" "ingest w' = ingest w"
  using assms by (cases w, cases w', simp)+

lemma sysInv_connDestroy:
  assumes "sysInv conf w" and "c \<in> dom (conns w)" and "c \<notin> set (owned w)"
  shows "sysInv conf (connDestroy c w) \<and> owned (connDestroy c w) = owned w"
proof -
  let ?w = "connDestroy c w"
  have "regInv w" using assms(1) by (simp add: sysInv_def)
  note des = regInv_connDestroy [OF this assms(2)]
  have more: "conn_world.more ?w = conn_world.more w"
    by (simp add: connDestroy_def connFreeResources_def registryRemove_more)
  have er: "map_option regErase (conns ?w d) = map_option regErase (conns w d)" if "conns ?w d \<noteq> None" for d
    using that registryRemove_erase [of c w d] by (cases "d = c") (simp_all add: connDestroy_def connFreeResources_def)
  show ?thesis
  proof (rule sysInv_conns [OF assms(1)])
    show "set (owned w) \<subseteq> dom (conns ?w)" using assms(1,3) des by (auto simp: sysInv_def)
    show "finite (dom (conns ?w))" using des assms(1) by (simp add: sysInv_def parkInv_def)
    show "parkNext x' = parkNext z \<and> pendingMsg x' = pendingMsg z"
      if "conns w d = Some z" "conns ?w d = Some x'" for d z x'
    proof -
      have "regErase x' = regErase z" using er [of d] that by simp
      from regErase_eq [OF this] show ?thesis by simp
    qed
    show "connInv z" if z: "conns ?w d = Some z" for d z
    proof -
      obtain y where "conns w d = Some y" "regErase z = regErase y" using er [of d] z by (cases "conns w d") auto
      then show ?thesis using assms(1) regErase_eq(1) [of z y] by (simp add: sysInv_def connsInv_def)
    qed
    show "regInv ?w" using des ..
    show "agg ?w = agg w" "dataQueue ?w = dataQueue w" "ctrlQueue ?w = ctrlQueue w" "ingest ?w = ingest w"
      by (rule conn_more_world [OF more])+
  qed
qed

lemma sysInv_connClose:
  assumes "sysInv conf w" and "c \<notin> set (owned w)"
  shows "sysInv conf (connClose c w) \<and> owned (connClose c w) = owned w"
proof (cases "conns w c")
  case None
  then show ?thesis using assms(1) by (simp add: connClose_def)
next
  case (Some x)
  define w1 where "w1 = os_close (cfd x) (if 0 \<le> cepollfd x then snd (os_epoll_ctl (cepollfd x) EPOLL_CTL_DEL (cfd x) [] w) else w)"
  have close: "connClose c w = connDestroy c w1" using Some by (simp add: connClose_def w1_def Let_def)
  have "os.more w1 = os.more w" by (simp add: w1_def os_close_def os_epoll_ctl_world)
  note eq = sysInv_more [OF this]
  then show ?thesis using sysInv_connDestroy [of conf w1 c] assms Some by (auto simp: close)
qed

text \<open>The aggregator's queues.\<close>

lemma sysInv_data:
  assumes "sysInv conf w" and "loopQuiet w w'" and "queueInv (dataQueue w')"
    and "qcontents (dataQueue w') = qcontents (dataQueue w) @ ms" and "list_all (msgOk conf i) ms"
  shows "sysInv conf w' \<and> owned w' = owned w"
proof -
  have "list_all (msgValid conf) ms" using assms(5) by (auto simp: list_all_iff msgValid_def)
  moreover have "conns w' = conns w" "regHead w' = regHead w" "agg w' = agg w" "ctrlQueue w' = ctrlQueue w"
    "ingest w' = ingest w"
    using assms(2) by (simp_all add: loopQuiet_def)
  ultimately show ?thesis
    using assms(1,3,4) sysInv_parts [of w' w] by (simp add: sysInv_def owned_def)
qed

lemma sysInv_ctrl:
  assumes "sysInv conf w" and "c \<in> dom (conns w)" and "c \<notin> set (owned w)" and "mconn m = Some c"
  shows "sysInv conf (w\<lparr>ctrlQueue := notify (pushLocked m (ctrlQueue w))\<rparr>)"
proof -
  have "queueInv (ctrlQueue w)" using assms(1) by (simp add: sysInv_def)
  then have "queueInv (notify (pushLocked m (ctrlQueue w)))"
    "qcontents (notify (pushLocked m (ctrlQueue w))) = qcontents (ctrlQueue w) @ [m]"
    by (simp_all add: pushLocked_contents)
  then show ?thesis
    using assms sysInv_parts [of "w\<lparr>ctrlQueue := notify (pushLocked m (ctrlQueue w))\<rparr>" w]
    by (auto simp: sysInv_def owned_def msgConns_def)
qed

text \<open>Parking.\<close>

definition parkErase :: "Conn_t \<Rightarrow> Conn_t" where
  "parkErase x = x\<lparr>parkNext := None\<rparr>"

lemma parkErase_eq:
  assumes "parkErase x = parkErase y"
  shows "connInv x = connInv y" "pendingMsg x = pendingMsg y"
proof -
  have x: "x = y\<lparr>parkNext := parkNext x\<rparr>"
    using assms unfolding parkErase_def by (cases x, cases y) simp
  have "assembled st (y\<lparr>parkNext := n\<rparr>) = assembled st y" for st n by (simp add: assembled_def split: option.split)
  then have "connInv (y\<lparr>parkNext := n\<rparr>) = connInv y" for n by (simp add: connInv_def connOk_def)
  then show "connInv x = connInv y" "pendingMsg x = pendingMsg y" by (subst x, simp)+
qed

lemma connInv_pending [simp]: "connInv (x\<lparr>pendingMsg := m\<rparr>) = connInv x"
proof -
  have "assembled st (x\<lparr>pendingMsg := m\<rparr>) = assembled st x" for st by (simp add: assembled_def split: option.split)
  then show ?thesis by (simp add: connInv_def connOk_def)
qed

lemma parkListPush_effect:
  "map_option parkErase (conns (parkListPush c w) d) = map_option parkErase (conns w d)"
  "link regNext (parkListPush c w) = link regNext w" "link regPrev (parkListPush c w) = link regPrev w"
  "regHead (parkListPush c w) = regHead w" "sink (agg (parkListPush c w)) = sink (agg w)"
  "ingest (parkListPush c w) = ingest w"
proof -
  have er: "map_option parkErase (conns (upd_conn a (\<lambda>x. x\<lparr>parkNext := n\<rparr>) v) d) = map_option parkErase (conns v d)"
    for a n and v :: "'a world_scheme"
  proof -
    have "parkErase \<circ> (\<lambda>x. x\<lparr>parkNext := n\<rparr>) = parkErase" by (auto simp: parkErase_def)
    then show ?thesis by (simp add: upd_conn_def option.map_comp)
  qed
  show "map_option parkErase (conns (parkListPush c w) d) = map_option parkErase (conns w d)"
    by (simp add: parkListPush_def Let_def er split: option.split)
  show "link regNext (parkListPush c w) = link regNext w" "link regPrev (parkListPush c w) = link regPrev w"
    "regHead (parkListPush c w) = regHead w" "sink (agg (parkListPush c w)) = sink (agg w)"
    "ingest (parkListPush c w) = ingest w"
    by (simp_all add: parkListPush_def Let_def link_upd_other split: option.split)
qed

lemma sysInv_push_parked:
  assumes "sysInv conf w" and "parkedOk conf w c" and "c \<notin> set (owned w)"
  shows "sysInv conf (parkListPush c w)"
proof -
  let ?w = "parkListPush c w"
  note eff = parkListPush_effect [of c w]
  have c: "c \<in> dom (conns w)" using assms(2) unfolding parkedOk_def dom_def by blast
  have pk: "parkInv w" and "c \<notin> set (parked w)" using assms(1,3) by (simp_all add: sysInv_def owned_def)
  then have p: "parkInv ?w" "parked ?w = parked w @ [c]"
    using park.contents_enq [OF pk] park.inv_enq [OF pk] c by simp_all
  have "regInv ?w" using regInv_cong [of ?w w] eff(2-4) assms(1) by (simp add: sysInv_def)
  moreover have own_eq: "set (owned ?w) = insert c (set (owned w))" "distinct (owned ?w)"
    using p eff(5,6) assms(1,3) by (auto simp: owned_def sysInv_def)
  moreover have "parkedOk conf ?w d" if d: "parkedOk conf w d" for d
  proof -
    obtain x m where x: "conns w d = Some x" "pendingMsg x = Some m" "msgValid conf m"
      using d unfolding parkedOk_def by (elim exE conjE) (rule that)
    obtain x' where x': "conns ?w d = Some x'" "parkErase x' = parkErase x"
      using eff(1) [of d] x(1) by (cases "conns ?w d") auto
    show ?thesis using parkErase_eq(2) [OF x'(2)] x(2,3) x'(1) by (simp add: parkedOk_def)
  qed
  then have "list_all (parkedOk conf ?w) (parked ?w)"
    using assms(1,2) unfolding p sysInv_def list_all_iff by simp
  moreover have "connsInv ?w" unfolding connsInv_def
  proof (intro allI impI)
    fix d x' assume x': "conns ?w d = Some x'"
    obtain x where x: "conns w d = Some x" "parkErase x' = parkErase x"
      using eff(1) [of d] x' by (cases "conns w d") auto
    show "connInv x'" using parkErase_eq(1) [OF x(2)] x(1) assms(1) by (simp add: sysInv_def connsInv_def)
  qed
  moreover have "set (owned ?w) \<subseteq> dom (conns ?w)" "queueInv (ingest ?w)"
    using own_eq eff(6) assms(1) c by (simp_all add: sysInv_def)
  moreover have "queueInv (dataQueue ?w)" "queueInv (ctrlQueue ?w)" "list_all (msgValid conf) (qcontents (dataQueue ?w))"
    using assms(1) by (simp_all add: sysInv_def)
  ultimately show ?thesis using p(1) own_eq(2) by (simp add: sysInv_def)
qed

lemma sysInv_park:
  assumes "sysInv conf w" and "conns w c = Some y" and "linksEq x y" and "connInv x" and "c \<notin> set (owned w)"
    and "msgValid conf m"
  shows "sysInv conf (parkConn c x m w)"
proof -
  let ?x = "x\<lparr>pendingMsg := Some m\<rparr>"
  have "linksEq ?x y" "connInv ?x" using assms(3,4) by (simp_all add: linksEq_def)
  from sysInv_write [OF assms(1,2) this] assms(5)
  have w: "sysInv conf (upd_conn c (\<lambda>_. ?x) w)" "owned (upd_conn c (\<lambda>_. ?x) w) = owned w"
    by (simp_all add: owned_def)
  have "parkedOk conf (upd_conn c (\<lambda>_. ?x) w) c" using assms(2,6) by (simp add: parkedOk_def upd_conn_def)
  from sysInv_push_parked [OF w(1) this] have "sysInv conf (parkListPush c (upd_conn c (\<lambda>_. ?x) w))"
    using w(2) assms(5) by simp
  then show ?thesis unfolding parkConn_def Let_def by (subst sysInv_more(1) [OF os_epoll_ctl_world(1)])
qed

lemma parkConn_effect:
  assumes "parkInv w" and "c \<in> dom (conns w)" and "c \<notin> set (parked w)"
  shows "parked (parkConn c x m w) = parked w @ [c] \<and> dataQueue (parkConn c x m w) = dataQueue w \<and>
    (\<exists>x'. conns (parkConn c x m w) c = Some x' \<and> pendingMsg x' = Some m)"
proof -
  let ?w1 = "upd_conn c (\<lambda>_. x\<lparr>pendingMsg := Some m\<rparr>) w" and ?w = "parkConn c x m w"
  have "finite (dom (conns ?w1))" using assms(1) by (simp add: parkInv_def)
  moreover have "d \<in> dom (conns ?w1) \<and> link parkNext ?w1 d = link parkNext w d" if "d \<in> set (parked w)" for d
    using that assms(3) parked_distinct [OF assms(1)] by (auto simp: link_def upd_conn_def)
  ultimately have 1: "parkInv ?w1" "parked ?w1 = parked w" using parked_frame [OF assms(1), of ?w1] by simp_all
  then have 2: "parked (parkListPush c ?w1) = parked w @ [c]"
    using park.contents_enq [OF 1(1), of c] assms(2,3) by simp
  obtain x' where x': "conns (parkListPush c ?w1) c = Some x'" "parkErase x' = parkErase (x\<lparr>pendingMsg := Some m\<rparr>)"
    using parkListPush_effect(1) [of c ?w1 c] assms(2) by (auto simp: upd_conn_def)
  have "os.more ?w = os.more (parkListPush c ?w1)" by (simp add: parkConn_def os_epoll_ctl_world)
  note eq = world_more [OF this]
  have "link parkNext ?w = link parkNext (parkListPush c ?w1)" by (simp add: link_def eq fun_eq_iff)
  with parked_cong(1) [OF this] have "parked ?w = parked w @ [c]" using eq 2 by simp
  then show ?thesis using eq x' parkErase_eq(2) [OF x'(2)] by simp
qed

end
