(* ===== verification/Handlers.thy ===== *)
theory Handlers
  imports Invariant
begin

section \<open>The workers' handlers preserve the invariant\<close>

text \<open>
  Each handler leaves the invariant true and says by its disposition whether the connection is still the
  worker's; \<open>applyDisposition\<close> then rearms or closes it.
\<close>

subsection \<open>The handlers\<close>

text \<open>What a handler leaves to \<open>applyDisposition\<close>.\<close>

definition handled :: "ServerConfig_t \<Rightarrow> nat \<Rightarrow> Disposition_t \<times> 'a world_scheme \<Rightarrow> bool" where
  "handled conf c r \<longleftrightarrow> (case r of (disp, w) \<Rightarrow> sysInv conf w \<and>
     (disp = DISP_PARKED \<or> disp = DISP_HANDOFF \<or> c \<notin> set (owned w)))"

lemma handled_write:
  assumes "sysInv conf w" and "conns w c = Some y" and "linksEq x y" and "connInv x" and "c \<notin> set (owned w)"
  shows "handled conf c (disp, upd_conn c (\<lambda>_. x) w)"
  using sysInv_write [OF assms(1-4)] assms(5) by (simp add: handled_def owned_def)

lemma flushTx_safe:
  assumes "flushTx x s = (disp, x', s')" and "connInv x"
  shows "os.more s' = os.more s \<and> mallocs s' = mallocs s \<and> connInv x' \<and> sameConn x x' \<and> rxs s' = rxs s \<and>
    closeAfterSend x' = closeAfterSend x \<and> (disp = DISP_REARM_IN \<longrightarrow> \<not> closeAfterSend x)"
proof -
  obtain rc b s1 where snd: "bufSend (cfd x) (tx x) s = (rc, b, s1)" by (metis prod_cases3)
  have inv: "bufInv (tx x)" using assms(2) by (simp add: connInv_def connOk_def)
  have "bufInv b" using bufSend_stream [OF snd inv] by simp
  then have "connInv (x\<lparr>tx := b\<rparr>)" using assms(2) by (simp add: connInv_def connOk_def)
  then show ?thesis using assms(1) snd bufSend_frame [OF snd] by (auto simp: flushTx_def split: if_splits)
qed

lemma sameConn_links: "sameConn x x' \<Longrightarrow> linksEq x' x"
  by (simp add: linksEq_def sameConn_fields)

lemma linksEq_trans: "linksEq x y \<Longrightarrow> linksEq y z \<Longrightarrow> linksEq x z"
  by (simp add: linksEq_def)

text \<open>Receiving leaves the allocator working and the connection well-formed.\<close>

lemma bufRecv_safe:
  assumes "bufRecv fd b chunk hardCap s = (rc, b', s')" and "bufInv b" and "mallocs s = []"
  shows "os.more s' = os.more s" "mallocs s' = []" "bufInv b'"
  using bufRecv_frame [OF assms(1)] bufRecv_mallocs [OF assms(1,3)] bufRecv_stream [OF assms(1,2)] by simp_all

lemma connOk_rx: "connOk x \<Longrightarrow> bufInv b \<Longrightarrow> connOk (x\<lparr>rx := b\<rparr>)"
  by (simp add: connOk_def)

lemma connOk_connInv: "cstate x = ST_WS_OPEN \<Longrightarrow> connInv x = connOk x"
  by (simp add: connInv_def)

lemma sendCloseAndMark_safe:
  assumes "sendCloseAndMark x code s = (x', s')" and "connOk x" and "mallocs s = []"
  shows "connOk x' \<and> sameConn x x' \<and> os_quiet s s'"
proof (cases "closeAfterSend x")
  case True
  then show ?thesis using assms by (simp add: sendCloseAndMark_def)
next
  case False
  have inv: "bufInv (tx x)" "bufInv (rx x)" using assms(2) by (simp_all add: connOk_def)
  from sendCloseAndMark_effect [OF assms(1) False assms(3) inv(1)] obtain b where
    "x' = x\<lparr>tx := b, closeAfterSend := True\<rparr>" "bufInv b" "os_quiet s s'" by blast
  then show ?thesis using inv by (simp add: connOk_def)
qed

text \<open>How the WebSocket handler ends: parked inside the loop, or after flushing.\<close>

lemma handleWsOpen_shape:
  assumes "connOk x" and "mallocs w = []" and "queueInv (dataQueue w)"
  obtains w2 w0 ms x3 park where "os.more w2 = os.more w" "loopQuiet w2 w0" "queueInv (dataQueue w0)"
    "qcontents (dataQueue w0) = qcontents (dataQueue w2) @ ms" "list_all (msgOk conf (cid x)) ms"
    "qsize (dataQueue w0) \<le> max (qsize (dataQueue w2)) (confHigh conf)" "connOk x3" "sameConn x x3"
    "if park then confHigh conf \<le> qsize (dataQueue w0) \<and>
       (\<exists>m. msgOk conf (cid x) m \<and> handleWsOpen conf c x w = (DISP_PARKED, parkConn c x3 m w0))
     else \<exists>disp d x4 w4. flushTx x3 w0 = (disp, x4, w4) \<and> d \<noteq> DISP_PARKED \<and>
       handleWsOpen conf c x w = (d, upd_conn c (\<lambda>_. x4) w4)"
proof -
  obtain rc b w1 where rcv: "bufRecv (cfd x) (rx x) 4096 (maxMessage conf + maxFrame conf) w = (rc, b, w1)"
    by (metis prod_cases3)
  have "bufInv (rx x)" using assms(1) by (simp add: connOk_def)
  note r = bufRecv_safe [OF rcv this assms(2)]
  obtain x2 w2 where mark: "(if rc = -2 then sendCloseAndMark (x\<lparr>rx := b\<rparr>) 1009 w1 else (x\<lparr>rx := b\<rparr>, w1)) = (x2, w2)"
    by fastforce
  have "connOk (x\<lparr>rx := b\<rparr>)" using connOk_rx assms(1) r(3) .
  then have x2: "connOk x2 \<and> sameConn (x\<lparr>rx := b\<rparr>) x2 \<and> os_quiet w1 w2"
    using mark sendCloseAndMark_safe [of "x\<lparr>rx := b\<rparr>" 1009 w1 x2 w2] r(2) by (auto split: if_splits)
  have same2: "sameConn x x2" using x2 by (auto intro: sameConn_trans [of _ "x\<lparr>rx := b\<rparr>"])
  have more2: "os.more w2 = os.more w" and mem2: "mallocs w2 = []" using x2 r by (auto simp: os_quiet_def)
  have "queueInv (dataQueue w2)" using world_more(5) [OF more2] assms(3) by simp
  obtain park x3 w3 where loop: "wsLoop conf c x2 w2 = (park, x3, w3)" by (metis prod_cases3)
  have "loopEnd conf c x2 w2 (park, x3, w3)"
    using wsLoop_safe [of x2 w2 conf c] x2 mem2 \<open>queueInv (dataQueue w2)\<close> loop by simp
  then obtain w0 ms where e: "loopQuiet w2 w0" "queueInv (dataQueue w0)"
    "qcontents (dataQueue w0) = qcontents (dataQueue w2) @ ms" "list_all (msgOk conf (cid x2)) ms"
    "qsize (dataQueue w0) \<le> max (qsize (dataQueue w2)) (confHigh conf)"
    "connOk x3" "sameConn x2 x3" and fin: "if park then confHigh conf \<le> qsize (dataQueue w0) \<and>
        (\<exists>m. msgOk conf (cid x2) m \<and> w3 = parkConn c x3 m w0) else w3 = w0"
    unfolding loopEnd_def prod.case by (elim exE conjE) (rule that)
  note cid = sameConn_fields(3) [OF same2]
  obtain disp x4 w4 where fl: "flushTx x3 w0 = (disp, x4, w4)" by (metis prod_cases3)
  have "disp \<noteq> DISP_PARKED" using fl by (auto simp: flushTx_def split: prod.splits if_splits)
  then have "if park then confHigh conf \<le> qsize (dataQueue w0) \<and>
       (\<exists>m. msgOk conf (cid x) m \<and> handleWsOpen conf c x w = (DISP_PARKED, parkConn c x3 m w0))
     else \<exists>disp d x4 w4. flushTx x3 w0 = (disp, x4, w4) \<and> d \<noteq> DISP_PARKED \<and>
       handleWsOpen conf c x w = (d, upd_conn c (\<lambda>_. x4) w4)"
    using fin rcv mark loop fl by (auto simp: handleWsOpen_def cid)
  then show thesis by (rule that [OF more2 e(1-3) e(4) [unfolded cid] e(5,6) sameConn_trans [OF same2 e(7)]])
qed

lemma handleWsOpen_handled:
  assumes inv: "sysInv conf w" and mem: "mallocs w = []" and c: "conns w c = Some y" "c \<notin> set (owned w)"
    and x: "linksEq x y" "connOk x" "cstate x = ST_WS_OPEN"
  shows "handled conf c (handleWsOpen conf c x w)"
proof -
  have "queueInv (dataQueue w)" using inv by (simp add: sysInv_def)
  from handleWsOpen_shape [OF x(2) mem this, of conf c] obtain w2 w0 ms x3 park where
    more2: "os.more w2 = os.more w" and e: "loopQuiet w2 w0" "queueInv (dataQueue w0)"
      "qcontents (dataQueue w0) = qcontents (dataQueue w2) @ ms" "list_all (msgOk conf (cid x)) ms"
      "connOk x3" "sameConn x x3"
    and fin: "if park then confHigh conf \<le> qsize (dataQueue w0) \<and>
       (\<exists>m. msgOk conf (cid x) m \<and> handleWsOpen conf c x w = (DISP_PARKED, parkConn c x3 m w0))
     else \<exists>disp d x4 w4. flushTx x3 w0 = (disp, x4, w4) \<and> d \<noteq> DISP_PARKED \<and>
       handleWsOpen conf c x w = (d, upd_conn c (\<lambda>_. x4) w4)" .
  note i2 = sysInv_more [OF more2]
  have "sysInv conf w2" using i2(1) inv by simp
  note i0 = sysInv_data [OF this e(1-4)]
  have c0: "conns w0 c = Some y" "c \<notin> set (owned w0)"
    using e(1) i2 c i0 by (simp_all add: loopQuiet_def)
  have l3: "linksEq x3 y" using linksEq_trans sameConn_links [OF e(6)] x(1) .
  have inv3: "connInv x3" using connOk_connInv sameConn_fields(5) [OF e(6)] x(3) e(5) by simp
  show ?thesis
  proof (cases park)
    case True
    then obtain m where m: "msgOk conf (cid x) m" "handleWsOpen conf c x w = (DISP_PARKED, parkConn c x3 m w0)"
      using fin by auto
    then have "msgValid conf m" by (auto simp: msgValid_def)
    then show ?thesis using sysInv_park [OF _ c0(1) l3 inv3 c0(2)] i0 m(2) by (simp add: handled_def)
  next
    case False
    then obtain disp d x4 w4 where fl: "flushTx x3 w0 = (disp, x4, w4)"
      and res: "handleWsOpen conf c x w = (d, upd_conn c (\<lambda>_. x4) w4)" using fin by auto
    note s4 = flushTx_safe [OF fl inv3]
    then have s: "os.more w4 = os.more w0" "connInv x4" "sameConn x3 x4" by blast+
    note i4 = sysInv_more [OF s(1)]
    have l4: "linksEq x4 y" using linksEq_trans sameConn_links [OF s(3)] l3 .
    show ?thesis
      unfolding res using handled_write [OF _ _ l4 s(2), of conf w4 c d] i4 i0 c0 by simp
  qed
qed

lemma handOff_handled:
  assumes inv: "sysInv conf w" and c: "conns w c = Some y" "c \<notin> set (owned w)"
    and x: "linksEq x y" "connInv x"
  shows "handled conf c (handOff c x w)"
proof -
  define w1 where "w1 = snd (os_epoll_ctl (cepollfd x) EPOLL_CTL_DEL (cfd x) [] w)"
  define w2 where "w2 = upd_conn c (\<lambda>_. x\<lparr>cepollfd := -1\<rparr>) w1"
  have "os.more w1 = os.more w" by (simp add: w1_def os_epoll_ctl_world)
  note i1 = sysInv_more [OF this]
  have "assembled st (x\<lparr>cepollfd := -1\<rparr>) = assembled st x" for st by (simp add: assembled_def split: option.split)
  then have x': "connInv (x\<lparr>cepollfd := -1\<rparr>)" "linksEq (x\<lparr>cepollfd := -1\<rparr>) y"
    using x by (simp_all add: connInv_def connOk_def linksEq_def)
  have "c \<notin> set (parked w1)" using c(2) unfolding i1(2) [symmetric] by (simp add: owned_def)
  then have i2: "sysInv conf w2" "owned w2 = owned w1"
    unfolding w2_def using sysInv_write [OF _ _ x'(2,1), of conf w1 c] i1 inv c by simp_all
  obtain m w3 where new: "msgNewSinkAdd c w2 = (m, w3)" by fastforce
  have more3: "os.more w3 = os.more w2" and conn: "m = None \<or> mconn (the m) = Some c"
    using new by (auto simp: msgNewSinkAdd_def os_alloc_def split: list.splits if_splits)
  note i3 = sysInv_more [OF more3]
  have ok3: "sysInv conf w3" "c \<notin> set (owned w3)" "c \<in> dom (conns w3)"
    using i1 i2 i3 c by (auto simp: w2_def upd_conn_def)
  have hand: "handOff c x w = (case m of None \<Rightarrow> (DISP_CLOSE, w3) | Some m \<Rightarrow>
      (case push_ctrl m w3 of (rc, w4) \<Rightarrow> if rc \<noteq> 0 then (DISP_CLOSE, w4) else (DISP_HANDOFF, w4)))"
    using new by (simp add: handOff_def Let_def flip: w1_def w2_def)
  show ?thesis
  proof (cases m)
    case None
    then show ?thesis using hand ok3 by (simp add: handled_def)
  next
    case (Some msg)
    obtain ok s where al: "os_alloc w3 = (ok, s)" by fastforce
    have more4: "os.more s = os.more w3" using al by (auto simp: os_alloc_def split: list.splits)
    note i4 = sysInv_more [OF more4]
    have cq: "ctrlQueue s = ctrlQueue w3" using world_more(6) [OF more4] .
    show ?thesis
    proof (cases ok)
      case False
      have "s\<lparr>ctrlQueue := ctrlQueue w3\<rparr> = s" by (simp flip: cq)
      then have "push_ctrl msg w3 = (-1, s)" using False al by (simp add: push_ctrl_def push_def)
      then show ?thesis using Some hand ok3 i4 by (simp add: handled_def)
    next
      case True
      then have "push_ctrl msg w3 = (0, s\<lparr>ctrlQueue := notify (pushLocked msg (ctrlQueue s))\<rparr>)"
        using al cq by (simp add: push_ctrl_def push_def)
      moreover have "sysInv conf (s\<lparr>ctrlQueue := notify (pushLocked msg (ctrlQueue s))\<rparr>)"
        using sysInv_ctrl [of conf s c msg] ok3 i4 conn Some by simp
      ultimately show ?thesis using Some hand by (simp add: handled_def)
    qed
  qed
qed

lemma connInv_open:
  assumes "connInv x" and "cstate x \<noteq> ST_WS_OPEN" and "\<not> closeAfterSend x"
  shows "connOk (x\<lparr>cstate := ST_WS_OPEN, msgUtf8 := wsUtf8Reset\<rparr>)"
proof -
  have "assembled None (x\<lparr>cstate := ST_WS_OPEN, msgUtf8 := wsUtf8Reset\<rparr>)" using assms by (simp add: connInv_def)
  then show ?thesis using assms(1) unfolding connInv_def connOk_def
    by (intro conjI disjI2 exI [of _ None]) (simp_all add: dataOp_def)
qed

lemma handleHandshakeSend_handled:
  assumes inv: "sysInv conf w" and mem: "mallocs w = []" and c: "conns w c = Some y" "c \<notin> set (owned w)"
    and x: "linksEq x y" "connInv x" "cstate x \<noteq> ST_WS_OPEN"
  shows "handled conf c (handleHandshakeSend conf c x w)"
proof -
  obtain disp x1 w1 where fl: "flushTx x w = (disp, x1, w1)" by (metis prod_cases3)
  from flushTx_safe [OF fl x(2)] have s: "os.more w1 = os.more w" "mallocs w1 = []" "connInv x1" "sameConn x x1"
    and close: "disp = DISP_REARM_IN \<longrightarrow> \<not> closeAfterSend x1" using mem by simp_all
  note i1 = sysInv_more [OF s(1)]
  have l1: "linksEq x1 y" using linksEq_trans sameConn_links [OF s(4)] x(1) .
  have ok1: "sysInv conf w1" "conns w1 c = Some y" "c \<notin> set (owned w1)" using i1 inv c by simp_all
  let ?x2 = "x1\<lparr>cstate := ST_WS_OPEN, msgUtf8 := wsUtf8Reset\<rparr>"
  have "handled conf c (handleWsOpen conf c ?x2 w1)" if "disp = DISP_REARM_IN"
  proof (rule handleWsOpen_handled [OF ok1(1) s(2) ok1(2,3)])
    show "connOk ?x2" using connInv_open s(3) close that x(3) sameConn_fields(5) [OF s(4)] by simp
    show "linksEq ?x2 y" using l1 by (simp add: linksEq_def)
  qed simp
  then show ?thesis
    using fl handled_write [OF ok1(1,2) l1 s(3) ok1(3)] handOff_handled [OF ok1 l1 s(3)]
    by (simp add: handleHandshakeSend_def)
qed

text \<open>Writing a response into \<open>tx\<close>.\<close>

lemma response_safe:
  assumes "bufAppend (tx x) bs s = (b, s')" and "connInv x" and "cstate x \<noteq> ST_WS_OPEN" and "mallocs s = []"
  shows "os.more s' = os.more s" "mallocs s' = []"
    "connInv (x\<lparr>tx := b, closeAfterSend := cl, role := ro, cstate := ST_HANDSHAKE_SEND\<rparr>)"
proof -
  note q = bufAppend_quiet [OF assms(1)]
  show "os.more s' = os.more s" "mallocs s' = []" using q assms(4) by (simp_all add: os_quiet_def)
  have inv: "bufInv (tx x)" "bufInv (rx x)" "bufInv (msg x)" "\<not> fragmenting x"
    using assms(2,3) by (simp_all add: connInv_def connOk_def)
  have "assembled None (x\<lparr>tx := b, closeAfterSend := cl, role := ro, cstate := ST_HANDSHAKE_SEND\<rparr>)"
    using inv by simp
  then show "connInv (x\<lparr>tx := b, closeAfterSend := cl, role := ro, cstate := ST_HANDSHAKE_SEND\<rparr>)"
    using inv bufInv_bufAppend [OF assms(1) inv(1)] unfolding connInv_def connOk_def
    by (intro conjI disjI2 exI [of _ None]) (simp_all add: dataOp_def)
qed

lemma handshakeReply_shape:
  assumes "handshakeReply conf hr x s = (x', s')"
  shows "\<exists>bs b cl ro. bufAppend (tx x) bs s = (b, s') \<and> x' = x\<lparr>tx := b, closeAfterSend := cl, role := ro\<rparr>"
proof -
  define bs where "bs = (case hsStatus hr of HS_OK \<Rightarrow> hdr256 (upgradeText (hsAcceptKey hr))
    | HS_BAD_VERSION \<Rightarrow> hdr256 (errorText 426 (bytes ''Upgrade Required'')
        (Some (bytes ''Sec-WebSocket-Version: 13'' @ CRLF)))
    | _ \<Rightarrow> hdr256 (errorText 400 (bytes ''Bad Request'') None))"
  define ro where "ro = (if hsStatus hr = HS_OK
    then (if cstr (hsPath hr) = sinkPath conf then ROLE_SINK else ROLE_SOURCE) else role x)"
  obtain b s1 where app: "bufAppend (tx x) bs s = (b, s1)" by fastforce
  have "s' = s1 \<and> x' = x\<lparr>tx := b, closeAfterSend := (hsStatus hr \<noteq> HS_OK), role := ro\<rparr>"
    using assms app by (cases "hsStatus hr"; cases x)
      (auto simp: handshakeReply_def httpBuildUpgradeResponse_def httpBuildError_def bs_def ro_def)
  with app show ?thesis by blast
qed

lemma handshakeReply_safe:
  assumes "handshakeReply conf hr x s = (x', s')" and "connInv x" and "cstate x \<noteq> ST_WS_OPEN" and "mallocs s = []"
  shows "os.more s' = os.more s \<and> mallocs s' = [] \<and> linksEq x' x \<and> connInv (x'\<lparr>cstate := ST_HANDSHAKE_SEND\<rparr>) \<and>
    connInv (x'\<lparr>closeAfterSend := True, cstate := ST_HANDSHAKE_SEND\<rparr>)"
proof -
  obtain bs b cl ro where app: "bufAppend (tx x) bs s = (b, s')"
    and x': "x' = x\<lparr>tx := b, closeAfterSend := cl, role := ro\<rparr>"
    using handshakeReply_shape [OF assms(1)] by blast
  note safe = response_safe [OF app assms(2-4)]
  have "x'\<lparr>closeAfterSend := True, cstate := ST_HANDSHAKE_SEND\<rparr> =
    x\<lparr>tx := b, closeAfterSend := True, role := ro, cstate := ST_HANDSHAKE_SEND\<rparr>" unfolding x' by (cases x) simp
  then show ?thesis using safe(1,2) safe(3) [where cl = cl and ro = ro] safe(3) [where cl = True and ro = ro]
    by (simp add: linksEq_def) (simp add: x')
qed

lemma handleHandshakeRead_handled:
  assumes inv: "sysInv conf w" and mem: "mallocs w = []" and c: "conns w c = Some x" "c \<notin> set (owned w)"
    and st: "cstate x = ST_HANDSHAKE_READ"
  shows "handled conf c (handleHandshakeRead conf c x w)"
proof -
  have x: "connInv x" using inv c(1) by (simp add: sysInv_def connsInv_def)
  then have rxi: "bufInv (rx x)" by (simp add: connInv_def connOk_def)
  obtain rc b w1 where rcv: "bufRecv (cfd x) (rx x) 4096 (handshakeMax conf) w = (rc, b, w1)" by (metis prod_cases3)
  note r = bufRecv_safe [OF rcv rxi mem]
  note i1 = sysInv_more [OF r(1)]
  have ok1: "sysInv conf w1" "conns w1 c = Some x" "c \<notin> set (owned w1)" using i1 inv c by simp_all
  let ?x1 = "x\<lparr>rx := b\<rparr>"
  have x1: "connInv ?x1" "linksEq ?x1 x" using x r(3) by (simp_all add: connInv_def connOk_def linksEq_def)
  note wb = handled_write [OF ok1(1,2) x1(2,1) ok1(3)]
  have send: "handled conf c (handleHandshakeSend conf c z v)"
    if "os.more v = os.more w1" "mallocs v = []" "linksEq z x" "connInv z" "cstate z \<noteq> ST_WS_OPEN" for z v
    using handleHandshakeSend_handled [of conf v c x z] sysInv_more [OF that(1)] ok1 that by simp
  obtain t w2 where err: "bufAppend (tx ?x1) (hdr256 (errorText 431 (bytes ''Request Header Fields Too Large'') None)) w1 = (t, w2)"
    by fastforce
  have eq: "?x1\<lparr>tx := t, closeAfterSend := True, role := role x, cstate := ST_HANDSHAKE_SEND\<rparr> =
    ?x1\<lparr>tx := t, closeAfterSend := True, cstate := ST_HANDSHAKE_SEND\<rparr>" by (cases x) simp
  have toolarge: "handled conf c (handleHandshakeSend conf c
      (?x1\<lparr>tx := t, closeAfterSend := True, cstate := ST_HANDSHAKE_SEND\<rparr>) w2)"
    using response_safe(1,2) [OF err x1(1) _ r(2)] response_safe(3) [OF err x1(1) _ r(2), where cl = True and ro = "role x"] eq st
    by (intro send) (simp_all add: linksEq_def)
  have found: "handled conf c (handleHandshakeSend conf c ((if eof then x3\<lparr>closeAfterSend := True\<rparr> else x3)
      \<lparr>cstate := ST_HANDSHAKE_SEND\<rparr>) w3)"
    if "handshakeReply conf hr (?x1\<lparr>rx := bufConsume b k\<rparr>) w1 = (x3, w3)" for hr k x3 w3 eof
  proof -
    let ?x2 = "?x1\<lparr>rx := bufConsume b k\<rparr>"
    have "connInv ?x2" "linksEq ?x2 x" using x r(3) by (simp_all add: connInv_def connOk_def linksEq_def bufInv_bufConsume)
    with handshakeReply_safe [OF that _ _ r(2)] st have "os.more w3 = os.more w1" "mallocs w3 = []" "linksEq x3 x"
      "connInv (x3\<lparr>cstate := ST_HANDSHAKE_SEND\<rparr>)" "connInv (x3\<lparr>closeAfterSend := True, cstate := ST_HANDSHAKE_SEND\<rparr>)"
      by (simp_all add: linksEq_def)
    then show ?thesis by (intro send) (simp_all add: linksEq_def)
  qed
  show ?thesis
    using rcv wb err toolarge found [where eof = True, simplified] found [where eof = False, simplified]
    by (auto simp: handleHandshakeRead_def httpBuildError_def Let_def split: option.split prod.split)
qed

lemma applyDisposition_inv:
  assumes "handled conf c (disp, w)"
  shows "sysInv conf (applyDisposition c disp w)"
proof -
  have inv: "sysInv conf w" and own: "disp = DISP_PARKED \<or> disp = DISP_HANDOFF \<or> c \<notin> set (owned w)"
    using assms by (simp_all add: handled_def)
  have "sysInv conf (rearmEpoll x evs w)" for x evs
    unfolding rearmEpoll_def by (subst sysInv_more(1) [OF os_epoll_ctl_world(1)]) (rule inv)
  then show ?thesis
    using inv own sysInv_connClose [OF inv, of c]
    by (auto simp: applyDisposition_def split: option.split Disposition_t.split)
qed

lemma handleConn_inv:
  assumes "sysInv conf w" and "mallocs w = []" and "c \<notin> set (owned w)"
  shows "sysInv conf (handleConn conf c w)"
proof (cases "conns w c")
  case None
  then show ?thesis using assms(1) by (simp add: handleConn_def)
next
  case (Some x)
  have x: "connInv x" "linksEq x x" using assms(1) Some by (simp_all add: sysInv_def connsInv_def linksEq_def)
  obtain disp w1 where h: "(case cstate x of ST_HANDSHAKE_READ \<Rightarrow> handleHandshakeRead conf c x w
      | ST_HANDSHAKE_SEND \<Rightarrow> handleHandshakeSend conf c x w | ST_WS_OPEN \<Rightarrow> handleWsOpen conf c x w) = (disp, w1)"
    by fastforce
  have "handled conf c (disp, w1)"
    using handleHandshakeRead_handled [OF assms(1,2) Some assms(3)] handleHandshakeSend_handled [OF assms(1,2) Some assms(3) x(2,1)]
      handleWsOpen_handled [OF assms(1,2) Some assms(3) x(2)] connOk_connInv x(1) h
    by (cases "cstate x") simp_all
  then show ?thesis using applyDisposition_inv Some h by (simp add: handleConn_def)
qed

subsection \<open>Properties\<close>

text \<open>C2: The handlers of the workers keep the shared state intact. Whatever bytes a client sends and however
  the handler ends (rearm, close, park, hand over to the aggregator), handling a connection that no
  other thread holds preserves the system invariant: the registry links exactly the live
  connections, the park list and the queues are well formed, no connection is held
  twice or after it was freed, every parked connection holds its message, every connection's buffers and
  assembly state are consistent, and every message on its way to the aggregator is a bounded data message
  whose text is valid UTF-8.\<close>

theorem handleConn_invariant:
  assumes "sysInv conf w" and "mallocs w = []" and "c \<notin> set (owned w)"
  shows "sysInv conf (handleConn conf c w)"
  using handleConn_inv [OF assms] .

text \<open>C13: Only valid messages, and backpressure: for arbitrary input, the messages \<open>handleWsOpen\<close> adds to the
  data queue are data messages tagged with the connection's id, at most \<open>maxMessage\<close> bytes long and, if
  text, valid UTF-8; the queue never grows beyond the high watermark; and the connection is parked, with a
  valid message pending, at the end of the park list, only when the queue has reached the watermark.\<close>

theorem handleWsOpen_backpressure:
  assumes "connOk x" and "mallocs w = []" and "queueInv (dataQueue w)" and "parkInv w" and "c \<in> dom (conns w)"
    and "c \<notin> set (parked w)"
  shows "case handleWsOpen conf c x w of (disp, w') \<Rightarrow> \<exists>ms.
    qcontents (dataQueue w') = qcontents (dataQueue w) @ ms \<and> list_all (msgOk conf (cid x)) ms \<and>
    length (qcontents (dataQueue w')) \<le> max (length (qcontents (dataQueue w))) (confHigh conf) \<and>
    (disp \<noteq> DISP_PARKED \<or> parked w' = parked w @ [c] \<and> confHigh conf \<le> length (qcontents (dataQueue w')) \<and>
       (\<exists>x' m. conns w' c = Some x' \<and> pendingMsg x' = Some m \<and> msgOk conf (cid x) m))"
proof -
  from handleWsOpen_shape [OF assms(1-3), of conf c] obtain w2 w0 ms x3 park where
    more2: "os.more w2 = os.more w" and e: "loopQuiet w2 w0" "queueInv (dataQueue w0)"
      "qcontents (dataQueue w0) = qcontents (dataQueue w2) @ ms" "list_all (msgOk conf (cid x)) ms"
      "qsize (dataQueue w0) \<le> max (qsize (dataQueue w2)) (confHigh conf)"
    and fin: "if park then confHigh conf \<le> qsize (dataQueue w0) \<and>
       (\<exists>m. msgOk conf (cid x) m \<and> handleWsOpen conf c x w = (DISP_PARKED, parkConn c x3 m w0))
     else \<exists>disp d x4 w4. flushTx x3 w0 = (disp, x4, w4) \<and> d \<noteq> DISP_PARKED \<and>
       handleWsOpen conf c x w = (d, upd_conn c (\<lambda>_. x4) w4)" .
  note w2 = world_more [OF more2]
  have w0: "conns w0 = conns w" "agg w0 = agg w" using e(1) w2 by (simp_all add: loopQuiet_def)
  have sz: "length (qcontents (dataQueue w0)) = qsize (dataQueue w0)" "length (qcontents (dataQueue w)) = qsize (dataQueue w)"
    using e(2) assms(3) by (simp_all add: length_qcontents)
  show ?thesis
  proof (cases park)
    case True
    then obtain m where m: "msgOk conf (cid x) m" "handleWsOpen conf c x w = (DISP_PARKED, parkConn c x3 m w0)"
      and high: "confHigh conf \<le> qsize (dataQueue w0)" using fin by auto
    have "link parkNext w0 = link parkNext w" by (simp add: link_def w0 fun_eq_iff)
    with parked_cong [OF this] have "parkInv w0" "parked w0 = parked w" using assms(4) by (simp_all add: w0)
    with parkConn_effect [of w0 c x3 m] assms(5,6) w0 have "parked (parkConn c x3 m w0) = parked w @ [c]"
      "dataQueue (parkConn c x3 m w0) = dataQueue w0" "\<exists>x'. conns (parkConn c x3 m w0) c = Some x' \<and> pendingMsg x' = Some m"
      by simp_all
    then show ?thesis using m high e w2 sz by (auto simp: m(2))
  next
    case False
    then obtain disp d x4 w4 where fl: "flushTx x3 w0 = (disp, x4, w4)" "d \<noteq> DISP_PARKED"
      and res: "handleWsOpen conf c x w = (d, upd_conn c (\<lambda>_. x4) w4)" using fin by auto
    have "os.more w4 = os.more w0" using fl(1) bufSend_frame [of "cfd x3" "tx x3" w0]
      by (auto simp: flushTx_def split: prod.splits)
    note w4 = world_more [OF this]
    show ?thesis using e w2 w4 sz fl(2) by (simp add: res)
  qed
qed

text \<open>The world of the receiver's witness satisfies the invariant.\<close>

lemma sysInv_recv_world: "sysInv conf recv_world"
proof -
  have f: "conns recv_world = [0 \<mapsto> source_conn]" "regHead recv_world = Some 0" "agg recv_world = aggInit 8 4"
    "dataQueue recv_world = createQueue" "ctrlQueue recv_world = createQueue" "ingest recv_world = createQueue"
    by (simp_all add: recv_world_def os.defs conn_world.defs world.defs)
  have "regShape recv_world [0]"
    by (simp add: regShape_def link_def f source_conn_def conn_zero_def)
  moreover have "parkShape recv_world []" by (simp add: parkShape_def f aggInit_def)
  moreover have "parked recv_world = []" by (simp add: parked_def f aggInit_def)
  moreover have "connInv source_conn" using source_conn_fields(1)
    by (auto simp: connInv_def connOk_def recvRel_def dataOp_def source_conn_def intro!: exI [of _ None])
  ultimately show ?thesis
    by (auto simp: sysInv_def regInv_def parkInv_def f queueInv_create owned_def aggInit_def msgConns_def connsInv_def)
qed

theorem handleConn_invariant_witness: "sysInv server_defaults (handleConn server_defaults 0 recv_world)"
proof (rule handleConn_invariant [OF sysInv_recv_world])
  show "mallocs recv_world = []" by (simp add: recv_world_fields)
  show "0 \<notin> set (owned recv_world)"
    by (simp add: owned_def parked_def msgConns_def recv_world_def os.defs conn_world.defs world.defs aggInit_def)
qed

definition tight_conf :: ServerConfig_t where
  "tight_conf = server_defaults\<lparr>confHigh := 0\<rparr>"

theorem handleWsOpen_backpressure_witness:
  "case handleWsOpen tight_conf 0 source_conn recv_world of (disp, w') \<Rightarrow> \<exists>ms.
    qcontents (dataQueue w') = qcontents (dataQueue recv_world) @ ms \<and> list_all (msgOk tight_conf (cid source_conn)) ms \<and>
    length (qcontents (dataQueue w')) \<le> max (length (qcontents (dataQueue recv_world))) (confHigh tight_conf) \<and>
    (disp \<noteq> DISP_PARKED \<or> parked w' = parked recv_world @ [0] \<and> confHigh tight_conf \<le> length (qcontents (dataQueue w')) \<and>
       (\<exists>x' m. conns w' 0 = Some x' \<and> pendingMsg x' = Some m \<and> msgOk tight_conf (cid source_conn) m))"
proof (rule handleWsOpen_backpressure)
  show "connOk source_conn" using source_conn_fields(1) by (rule connOk_recvRel) (simp add: dataOp_def)
  show "parkInv recv_world" using sysInv_recv_world [of tight_conf] by (simp add: sysInv_def)
  show "0 \<notin> set (parked recv_world)"
    by (simp add: parked_def recv_world_def os.defs conn_world.defs world.defs aggInit_def)
qed (simp_all add: recv_world_fields queueInv_create)

end
