(* ===== verification/AggSafety.thy ===== *)
theory AggSafety
  imports Handlers
begin

section \<open>The aggregator's steps preserve the invariant\<close>

text \<open>
  Closing and adopting a sink, resuming a parked source, the pump, the loops over the queues, what the sink
  sends and the events of the timer and the notification descriptors: every step of the aggregator's thread
  leaves the invariant of the shared state true and hands no connection out twice.
\<close>

lemma sysInv_aggcong:
  assumes "conns w' = conns w" "regHead w' = regHead w" "dataQueue w' = dataQueue w" "ctrlQueue w' = ctrlQueue w"
    "ingest w' = ingest w" "sink (agg w') = sink (agg w)" "parkHead (agg w') = parkHead (agg w)"
    "parkTail (agg w') = parkTail (agg w)"
  shows "sysInv conf w' = sysInv conf w" "owned w' = owned w"
proof -
  have "link f w' = link f w" for f using assms(1) by (simp add: link_def fun_eq_iff)
  then have "regInv w' = regInv w" "parkInv w' = parkInv w" "parked w' = parked w" "parkedOk conf w' = parkedOk conf w"
    "connsInv w' = connsInv w"
    using assms by (simp_all add: regInv_def regShape_def parkInv_def parkShape_def parked_def
        parkedOk_def [abs_def] connsInv_def)
  then show "sysInv conf w' = sysInv conf w" "owned w' = owned w"
    using assms by (simp_all add: sysInv_def owned_def)
qed

lemma sysInv_upd_agg:
  assumes "sink (f (agg w)) = sink (agg w)" "parkHead (f (agg w)) = parkHead (agg w)" "parkTail (f (agg w)) = parkTail (agg w)"
  shows "sysInv conf (upd_agg f w) = sysInv conf w" "owned (upd_agg f w) = owned w"
  using sysInv_aggcong [of "upd_agg f w" w] assms by simp_all

lemma sysInv_pump: "sysInv conf w \<Longrightarrow> pumpInv w"
  unfolding sysInv_def pumpInv_def list_all_iff parkedOk_def by blast

text \<open>Closing the sink.\<close>

lemma registryRemove_agg:
  fixes w :: "'a world_scheme"
  shows "registryRemove c (w\<lparr>agg := a\<rparr>) = (registryRemove c w)\<lparr>agg := a\<rparr>"
  by (cases w) (simp add: registryRemove_def Let_def upd_conn_def link_def split: option.split)

lemma connClose_agg:
  fixes w :: "'a world_scheme"
  shows "connClose c (w\<lparr>agg := a\<rparr>) = (connClose c w)\<lparr>agg := a\<rparr>"
proof -
  have ep: "snd (os_epoll_ctl ep op fd evs (w\<lparr>agg := a\<rparr>)) = (snd (os_epoll_ctl ep op fd evs w))\<lparr>agg := a\<rparr>" for ep op fd evs
    by (cases w) (simp add: os_epoll_ctl_def Let_def split: list.split)
  have cl: "os_close fd (v\<lparr>agg := a\<rparr>) = (os_close fd v)\<lparr>agg := a\<rparr>" for fd and v :: "'a world_scheme"
    by (cases v) (simp add: os_close_def)
  have fr: "connFreeResources c (v\<lparr>agg := a\<rparr>) = (connFreeResources c v)\<lparr>agg := a\<rparr>" for v :: "'a world_scheme"
    by (cases v) (simp add: connFreeResources_def)
  show ?thesis by (simp add: connClose_def Let_def ep cl fr registryRemove_agg connDestroy_def split: option.split)
qed

lemma connClose_agg_same:
  fixes w :: "'a world_scheme"
  shows "agg (connClose c w) = agg w" "ingest (connClose c w) = ingest w"
proof -
  have ep: "os.more (snd (os_epoll_ctl ep op fd evs w)) = os.more w" for ep op fd evs
    by (rule os_epoll_ctl_world)
  have "agg (connDestroy c v) = agg v" "ingest (connDestroy c v) = ingest v" for v :: "'a world_scheme"
    using conn_more_world [of "connDestroy c v" v]
    by (simp_all add: connDestroy_def connFreeResources_def registryRemove_more)
  then show "agg (connClose c w) = agg w" "ingest (connClose c w) = ingest w"
    using world_more [OF ep] by (simp_all add: connClose_def Let_def os_close_def split: option.split)
qed

lemma closeSink_inv:
  assumes "sysInv conf w"
  shows "sysInv conf (closeSink w) \<and> sink (agg (closeSink w)) = None \<and> set (owned (closeSink w)) \<subseteq> set (owned w)"
proof (cases "sink (agg w)")
  case None
  then show ?thesis using assms by (simp add: closeSink_def)
next
  case (Some c)
  define a where "a = (agg w)\<lparr>sink := None,
      pendingOff := if pending (agg w) \<noteq> None then 0 else pendingOff (agg w), pending := None,
      pendingCtrlOff := if pendingCtrl (agg w) \<noteq> None then 0 else pendingCtrlOff (agg w), pendingCtrl := None\<rparr>"
  let ?w = "w\<lparr>agg := a\<rparr>"
  have close: "closeSink w = connClose c ?w"
    using Some by (simp add: closeSink_def upd_agg_def connClose_agg connClose_agg_same a_def)
  have f: "sink a = None" "parkHead a = parkHead (agg w)" "parkTail a = parkTail (agg w)" by (simp_all add: a_def)
  have lk: "link g ?w = link g w" for g by (simp add: link_def fun_eq_iff)
  have "regInv ?w = regInv w" "parkInv ?w = parkInv w" "parked ?w = parked w" "parkedOk conf ?w = parkedOk conf w"
    "connsInv ?w = connsInv w"
    by (simp_all add: regInv_def regShape_def parkInv_def parkShape_def parked_def parkedOk_def [abs_def]
        connsInv_def lk f)
  then have "sysInv conf ?w" and own: "set (owned ?w) \<subseteq> set (owned w)" "c \<notin> set (owned ?w)"
    using assms Some f by (auto simp: sysInv_def owned_def)
  with sysInv_connClose [OF this(1,3)] show ?thesis by (simp add: close connClose_agg_same f)
qed

lemma sinkFlush_inv:
  assumes "sinkFlush w = (rc, w')"
  shows "sysInv conf w' = sysInv conf w" "owned w' = owned w"
  using sinkFlush_frame [OF assms] slots_only_fields [OF sinkFlush_frame(1) [OF assms]]
    sysInv_aggcong [of w' w] by simp_all

lemma sinkArm_inv: "sysInv conf (sinkArm w) = sysInv conf w" "owned (sinkArm w) = owned w"
proof -
  have "os.more (sinkArm w) = os.more w"
    by (simp add: sinkArm_def Let_def os_epoll_ctl_world split: option.split)
  from sysInv_more [OF this] show "sysInv conf (sinkArm w) = sysInv conf w" "owned (sinkArm w) = owned w" by simp_all
qed

text \<open>Resuming a parked source and taking a message.\<close>

lemma sysInv_queue:
  assumes "sysInv conf w" and "conns w' = conns w" "regHead w' = regHead w" "agg w' = agg w" "ctrlQueue w' = ctrlQueue w"
    "ingest w' = ingest w" and "queueInv (dataQueue w')" and "list_all (msgValid conf) (qcontents (dataQueue w'))"
  shows "sysInv conf w'" "owned w' = owned w"
  using sysInv_parts [OF assms(2-4)] assms by (simp_all add: sysInv_def owned_def)

lemma parkListPop_inv:
  assumes inv: "sysInv conf w" and pop: "parkListPop w = Some (c, w1)"
  shows "sysInv conf w1" "parkedOk conf w1 c" "c \<notin> set (owned w1)" "set (owned w1) \<subseteq> set (owned w)"
proof -
  note eff = parkListPop_effect [OF pop] and core = agg_core_fields [OF parkListPop_effect(2) [OF pop]]
  have pk: "parkInv w" using inv by (simp add: sysInv_def)
  from park.deq_Some [OF pk pop] have p: "parked w = c # parked w1" "parkInv w1" by simp_all
  have own: "owned w = (case sink (agg w1) of Some c \<Rightarrow> [c] | None \<Rightarrow> []) @ msgConns (qcontents (ctrlQueue w1)) @
      c # parked w1 @ qcontents (ingest w1)"
    using p eff core by (simp add: owned_def)
  then show "c \<notin> set (owned w1)" "set (owned w1) \<subseteq> set (owned w)"
    using inv by (auto simp: sysInv_def owned_def)
  have dom: "dom (conns w1) = dom (conns w)" by (auto simp: eff(1))
  have pend: "parkedOk conf w1 d" if d: "parkedOk conf w d" for d
  proof -
    obtain x m where x: "conns w d = Some x" "pendingMsg x = Some m" "msgValid conf m"
      using d unfolding parkedOk_def by (elim exE conjE) (rule that)
    show ?thesis using x by (cases "d = c") (simp_all add: parkedOk_def eff(1))
  qed
  have parked: "list_all (parkedOk conf w) (c # parked w1)" using inv p by (simp add: sysInv_def)
  then show "parkedOk conf w1 c" using pend by simp
  have "list_all (parkedOk conf w1) (parked w1)" using parked pend unfolding list_all_iff by simp
  moreover have "connsInv w1" unfolding connsInv_def
  proof (intro allI impI)
    fix d x' assume x': "conns w1 d = Some x'"
    obtain x where x: "conns w d = Some x" "x' = (if d = c then x\<lparr>parkNext := None\<rparr> else x)"
      using x' by (auto simp: eff(1) split: if_splits)
    have "parkErase x' = parkErase x" using x(2) by (simp add: parkErase_def)
    from parkErase_eq(1) [OF this] x(1) inv show "connInv x'" by (simp add: sysInv_def connsInv_def)
  qed
  moreover have "link f w1 = link f w" if "\<And>x. f (x\<lparr>parkNext := None\<rparr>) = f x" for f
    using that by (auto simp: link_def eff(1) fun_eq_iff bind_map_option comp_def split: option.split)
  then have "regInv w1 = regInv w" using regInv_cong [of w1 w] eff(9) dom by simp
  moreover have "distinct (owned w1)" "set (owned w1) \<subseteq> dom (conns w1)"
    using own inv dom by (auto simp: sysInv_def owned_def)
  ultimately show "sysInv conf w1" using inv p eff by (simp add: sysInv_def)
qed

lemma resumeParked_inv:
  assumes inv: "sysInv conf w" and ok: "parkedOk conf w c" and c: "c \<notin> set (owned w)"
  shows "\<exists>w'. resumeParked c w = Some w' \<and> sysInv conf w' \<and> owned w' = owned w"
proof -
  obtain x m where x: "conns w c = Some x" "pendingMsg x = Some m" "msgValid conf m"
    using ok unfolding parkedOk_def by (elim exE conjE) (rule that)
  from resumeParked_effect [OF x(1,2)] obtain w' where res: "resumeParked c w = Some w'"
    and cn: "conns w' = (conns w)(c \<mapsto> x\<lparr>pendingMsg := None\<rparr>)" and ag: "agg w' = agg w"
    and dq: "dataQueue w' = (if fst (os_alloc w) then notify (pushLocked m (dataQueue w)) else dataQueue w)"
    and rest: "ctrlQueue w' = ctrlQueue w" "ingest w' = ingest w" "regHead w' = regHead w" by blast
  let ?w = "upd_conn c (\<lambda>_. x\<lparr>pendingMsg := None\<rparr>) w"
  have "linksEq (x\<lparr>pendingMsg := None\<rparr>) x" "connInv (x\<lparr>pendingMsg := None\<rparr>)"
    using inv x(1) by (simp_all add: linksEq_def sysInv_def connsInv_def)
  then have 1: "sysInv conf ?w" "owned ?w = owned w"
    using sysInv_write [OF inv x(1), of "x\<lparr>pendingMsg := None\<rparr>"] c by (simp_all add: owned_def)
  have q: "queueInv (dataQueue w)" "list_all (msgValid conf) (qcontents (dataQueue w))" using inv by (simp_all add: sysInv_def)
  have "queueInv (dataQueue w')" "list_all (msgValid conf) (qcontents (dataQueue w'))"
    using q x(3) by (simp_all add: dq pushLocked_contents)
  moreover have "conns w' = conns ?w" using x(1) by (auto simp: cn upd_conn_def)
  moreover have "regHead w' = regHead ?w" "agg w' = agg ?w" "ctrlQueue w' = ctrlQueue ?w" "ingest w' = ingest ?w"
    using ag rest by simp_all
  ultimately have "sysInv conf w'" "owned w' = owned ?w" using sysInv_queue [OF 1(1)] by simp_all
  with res 1(2) show ?thesis by simp
qed

lemma pumpResume_inv:
  assumes "sysInv conf w"
  shows "\<exists>w'. pumpResume w = Some w' \<and> sysInv conf w' \<and> set (owned w') \<subseteq> set (owned w)"
proof (cases "queueSize (dataQueue w) \<le> lowWatermark (agg w) \<and> parkListPop w \<noteq> None")
  case False
  then have "pumpResume w = Some w" by (auto simp: pumpResume_def split: option.split)
  with assms show ?thesis by simp
next
  case True
  then obtain c w1 where pop: "parkListPop w = Some (c, w1)" and low: "queueSize (dataQueue w) \<le> lowWatermark (agg w)"
    by auto
  note p = parkListPop_inv [OF assms pop]
  from resumeParked_inv [OF p(1-3)] p(4) show ?thesis using pop low by (auto simp: pumpResume_def)
qed

lemma pumpEncode_inv:
  assumes "sysInv conf w" and "trypop (dataQueue w) = Some (m, q)"
  shows "sysInv conf (pumpEncode m (w\<lparr>dataQueue := q\<rparr>))" "owned (pumpEncode m (w\<lparr>dataQueue := q\<rparr>)) = owned w"
proof -
  let ?w1 = "w\<lparr>dataQueue := q\<rparr>" and ?w = "pumpEncode m (w\<lparr>dataQueue := q\<rparr>)"
  have q: "queueInv q" "qcontents (dataQueue w) = m # qcontents q"
    using queue.deq_Some [OF _ assms(2)] assms(1) by (simp_all add: sysInv_def)
  then have "list_all (msgValid conf) (qcontents q)" using assms(1) by (simp add: sysInv_def)
  then have 1: "sysInv conf ?w1" "owned ?w1 = owned w" using sysInv_queue [OF assms(1), where w' = ?w1] q by simp_all
  have "sysInv conf ?w = sysInv conf ?w1" "owned ?w = owned ?w1"
    by (rule sysInv_aggcong; simp add: pumpEncode_frame)+
  with 1 show "sysInv conf ?w" "owned ?w = owned w" by simp_all
qed

lemma aggPump_inv:
  "sysInv conf w \<Longrightarrow> \<exists>w'. aggPump w = Some w' \<and> sysInv conf w' \<and> set (owned w') \<subseteq> set (owned w)"
proof (induction "2 * length (parked w) + qsize (dataQueue w)" arbitrary: w rule: less_induct)
  case less
  obtain rc w1 where fl: "sinkFlush w = (rc, w1)" by fastforce
  note inv1 = sinkFlush_inv [OF fl] and fr = sinkFlush_frame [OF fl]
  have s1: "sysInv conf w1" using inv1 less.prems by simp
  from pumpResume_ok [OF sysInv_pump [OF s1]] pumpResume_inv [OF s1] obtain w2 where
    res: "pumpResume w1 = Some w2" "sysInv conf w2" "set (owned w2) \<subseteq> set (owned w1)"
    and le: "2 * length (parked w2) + qsize (dataQueue w2) \<le> 2 * length (parked w1) + qsize (dataQueue w1)" by auto
  show ?case
  proof (cases "sink (agg w) = None \<or> rc \<le> 0 \<or> trypop (dataQueue w2) = None")
    case True
    then consider "sink (agg w) = None" | "sink (agg w) \<noteq> None" "rc < 0" | "sink (agg w) \<noteq> None" "rc = 0"
      | "sink (agg w) \<noteq> None" "rc > 0" "trypop (dataQueue w2) = None" by linarith
    then show ?thesis
    proof cases
      case 1
      then show ?thesis using less.prems by (subst aggPump.simps) simp
    next
      case 2
      then show ?thesis using closeSink_inv [OF s1] inv1 fl by (subst aggPump.simps) auto
    next
      case 3
      then show ?thesis using s1 inv1 fl by (subst aggPump.simps) (auto simp: sinkArm_inv)
    next
      case 4
      then show ?thesis using res inv1 fl by (subst aggPump.simps) (auto simp: sinkArm_inv)
    qed
  next
    case False
    then obtain m q where pop: "trypop (dataQueue w2) = Some (m, q)" by auto
    let ?w = "pumpEncode m (w2\<lparr>dataQueue := q\<rparr>)"
    note e = pumpInv_encode [OF sysInv_pump [OF res(2)] pop] and e2 = pumpEncode_inv [OF res(2) pop]
    have "qsize (dataQueue w2) = Suc (qsize q)"
      using pumpMeasure_trypop [OF _ pop] res(2) by (simp add: sysInv_def)
    then have "2 * length (parked ?w) + qsize (dataQueue ?w) < 2 * length (parked w) + qsize (dataQueue w)"
      using le e(2) pumpInv_flush(2) [OF fl] fr by (simp add: pumpEncode_frame)
    from less.hyps [OF this e2(1)] obtain w' where "aggPump ?w = Some w'" "sysInv conf w'"
      "set (owned w') \<subseteq> set (owned ?w)" by blast
    moreover have "aggPump w = aggPump ?w" using False fl res pop by (subst aggPump.simps) auto
    ultimately show ?thesis using e2(2) res(3) inv1 by auto
  qed
qed

text \<open>What the sink is told directly.\<close>

lemma sendSome_more: "os.more (sendSome fd bs s) = os.more s"
proof (induction fd bs s rule: sendSome.induct)
  case (1 fd bs s)
  obtain r s1 where snd: "os_send fd bs s = (r, s1)" by fastforce
  have "os.more s1 = os.more s" using os_send_frame [OF snd] by simp
  then show ?case using 1 snd by (subst sendSome.simps) (simp split: io_res.split)
qed

lemma sendCloseBestEffort_more: "os.more (sendCloseBestEffort fd code s) = os.more s"
proof -
  obtain f s1 where new: "frameNew WS_OP_CLOSE (closePayload code) s = (f, s1)" by fastforce
  then show ?thesis using frameNew_os [OF new]
    by (simp add: sendCloseBestEffort_def sendSome_more split: option.split)
qed

lemmas sendClose_inv = sysInv_more [OF sendCloseBestEffort_more] world_more [OF sendCloseBestEffort_more]

lemmas epoll_inv = sysInv_more [OF os_epoll_ctl_world(1)] world_more [OF os_epoll_ctl_world(1)]

lemma connClose_dom:
  assumes "regInv w"
  shows "dom (conns (connClose c w)) = dom (conns w) - {c}"
proof (cases "conns w c")
  case None
  then show ?thesis by (auto simp: connClose_def)
next
  case (Some x)
  define w1 where "w1 = os_close (cfd x) (if 0 \<le> cepollfd x then snd (os_epoll_ctl (cepollfd x) EPOLL_CTL_DEL (cfd x) [] w) else w)"
  have close: "connClose c w = connDestroy c w1" using Some by (simp add: connClose_def w1_def Let_def)
  have w1: "conns w1 = conns w" "regHead w1 = regHead w"
    by (simp_all add: w1_def os_close_def os_epoll_ctl_def Let_def split: list.splits)
  have "link f w1 = link f w" for f by (simp add: link_def w1 fun_eq_iff)
  then have "regInv w1" using assms w1 by (simp add: regInv_def regShape_def)
  from regInv_connDestroy [OF this] Some show ?thesis by (simp add: close w1 domI)
qed

lemma closeSink_dom:
  assumes "regInv w" and "d \<in> dom (conns w)" and "sink (agg w) \<noteq> Some d"
  shows "d \<in> dom (conns (closeSink w))"
  using assms connClose_dom [OF assms(1)] by (auto simp: closeSink_def split: option.split)

lemma closeSink_ctrl:
  fixes w :: "'a world_scheme"
  shows "ctrlQueue (closeSink w) = ctrlQueue w" "dataQueue (closeSink w) = dataQueue w" "ingest (closeSink w) = ingest w"
proof -
  have ep: "os.more (snd (os_epoll_ctl ep op fd evs w)) = os.more w" for ep op fd evs
    by (rule os_epoll_ctl_world)
  have d: "ctrlQueue (connDestroy c v) = ctrlQueue v" "dataQueue (connDestroy c v) = dataQueue v" "ingest (connDestroy c v) = ingest v"
    for c and v :: "'a world_scheme"
    using conn_more_world [of "connDestroy c v" v]
    by (simp_all add: connDestroy_def connFreeResources_def registryRemove_more)
  then have "ctrlQueue (connClose c w) = ctrlQueue w" "dataQueue (connClose c w) = dataQueue w" "ingest (connClose c w) = ingest w" for c
    using world_more [OF ep] by (simp_all add: connClose_def Let_def os_close_def split: option.split)
  then show "ctrlQueue (closeSink w) = ctrlQueue w" "dataQueue (closeSink w) = dataQueue w" "ingest (closeSink w) = ingest w"
    by (simp_all add: closeSink_def split: option.split)
qed

text \<open>Adopting a sink: the old one is told and closed first.\<close>

lemma sysInv_sink:
  assumes "sysInv conf w" and "c \<in> dom (conns w)" and "c \<notin> set (owned w)" and "sink (agg w) = None"
  shows "sysInv conf (upd_agg (\<lambda>a. a\<lparr>sink := Some c\<rparr>) w)" "owned (upd_agg (\<lambda>a. a\<lparr>sink := Some c\<rparr>) w) = c # owned w"
proof -
  let ?w = "upd_agg (\<lambda>a. a\<lparr>sink := Some c\<rparr>) w"
  have "link f ?w = link f w" for f by (simp add: link_def fun_eq_iff)
  then have p: "regInv ?w = regInv w" "parkInv ?w = parkInv w" "parked ?w = parked w" "parkedOk conf ?w = parkedOk conf w"
    "connsInv ?w = connsInv w"
    by (simp_all add: regInv_def regShape_def parkInv_def parkShape_def parked_def parkedOk_def [abs_def] connsInv_def)
  then show own: "owned ?w = c # owned w" using assms(4) by (simp add: owned_def)
  show "sysInv conf ?w" using assms p own by (simp add: sysInv_def)
qed

lemma adoptSink_inv:
  assumes inv: "sysInv conf w" and c: "c \<in> dom (conns w)" "c \<notin> set (owned w)"
  shows "sysInv conf (adoptSink c w) \<and> set (owned (adoptSink c w)) \<subseteq> insert c (set (owned w)) \<and>
    ctrlQueue (adoptSink c w) = ctrlQueue w"
proof -
  define w1 where "w1 = (case sink (agg w) of
      Some d \<Rightarrow> closeSink (sendCloseBestEffort (sinkFd d w) 1001 w) | None \<Rightarrow> w)"
  have sk: "sink (agg w) \<noteq> Some c" using c(2) by (auto simp: owned_def)
  have "sysInv conf w1 \<and> sink (agg w1) = None \<and> set (owned w1) \<subseteq> set (owned w) \<and> c \<in> dom (conns w1) \<and>
    ctrlQueue w1 = ctrlQueue w"
  proof (cases "sink (agg w)")
    case None
    then show ?thesis using inv c by (simp add: w1_def)
  next
    case (Some d)
    let ?w = "sendCloseBestEffort (sinkFd d w) 1001 w"
    have "sysInv conf ?w" using inv by (simp add: sendClose_inv)
    moreover from this have "regInv ?w" by (simp add: sysInv_def)
    ultimately show ?thesis using closeSink_inv [of conf ?w] closeSink_dom [of ?w c] c sk
      by (simp add: w1_def Some sendClose_inv closeSink_ctrl)
  qed
  then have w1: "sysInv conf w1" "sink (agg w1) = None" "set (owned w1) \<subseteq> set (owned w)" "c \<in> dom (conns w1)"
    "ctrlQueue w1 = ctrlQueue w" by blast+
  obtain x where x: "conns w1 c = Some x" using w1(4) by auto
  let ?x = "x\<lparr>cepollfd := aepollfd (agg w1), role := ROLE_SINK\<rparr>"
  define w2 where "w2 = upd_conn c (\<lambda>x. x\<lparr>cepollfd := aepollfd (agg w1), role := ROLE_SINK\<rparr>) w1"
  have eq: "w2 = upd_conn c (\<lambda>_. ?x) w1" using x by (simp add: w2_def upd_conn_def)
  have "assembled st ?x = assembled st x" for st by (simp add: assembled_def split: option.split)
  then have "connInv ?x" "linksEq ?x x" using w1(1) x
    by (simp_all add: sysInv_def connsInv_def connInv_def connOk_def linksEq_def)
  then have "sysInv conf w2" "owned w2 = owned w1"
    using sysInv_write [OF w1(1) x, of ?x] c(2) w1(3) by (auto simp: eq owned_def)
  moreover have "c \<in> dom (conns w2)" "sink (agg w2) = None" "ctrlQueue w2 = ctrlQueue w" using w1 by (simp_all add: w2_def)
  moreover have "c \<notin> set (owned w2)" using c(2) w1(3) calculation(2) by auto
  ultimately have w3: "sysInv conf (upd_agg (\<lambda>a. a\<lparr>sink := Some c\<rparr>) w2)"
    "owned (upd_agg (\<lambda>a. a\<lparr>sink := Some c\<rparr>) w2) = c # owned w1" using sysInv_sink [of conf w2 c] by simp_all
  have res: "adoptSink c w = snd (os_epoll_ctl (aepollfd (agg w2)) EPOLL_CTL_ADD
      (sinkFd c (upd_agg (\<lambda>a. a\<lparr>sink := Some c\<rparr>) w2)) [EPOLLIN] (upd_agg (\<lambda>a. a\<lparr>sink := Some c\<rparr>) w2))"
    unfolding adoptSink_def Let_def w1_def [symmetric] w2_def [symmetric] by simp
  show ?thesis unfolding res using w3 w1(3) \<open>ctrlQueue w2 = ctrlQueue w\<close> by (auto simp: epoll_inv)
qed

lemma handleCtrl_inv:
  assumes inv: "sysInv conf w" and pop: "trypop (ctrlQueue w) = Some (m, q)"
  shows "sysInv conf (handleCtrl m (w\<lparr>ctrlQueue := q\<rparr>)) \<and>
    set (owned (handleCtrl m (w\<lparr>ctrlQueue := q\<rparr>))) \<subseteq> set (owned w) \<and> ctrlQueue (handleCtrl m (w\<lparr>ctrlQueue := q\<rparr>)) = q"
proof -
  let ?w = "w\<lparr>ctrlQueue := q\<rparr>"
  have "queueInv (ctrlQueue w)" using inv by (simp add: sysInv_def)
  from queue.deq_Some [OF this pop] have q: "qcontents (ctrlQueue w) = m # qcontents q" "queueInv q" by simp_all
  have p: "parked ?w = parked w" "regInv ?w = regInv w" "parkInv ?w = parkInv w" "parkedOk conf ?w = parkedOk conf w"
    "connsInv ?w = connsInv w" by (rule sysInv_parts; simp)+
  have own: "owned w = (case sink (agg w) of Some c \<Rightarrow> [c] | None \<Rightarrow> []) @
      (case mconn m of Some c \<Rightarrow> [c] | None \<Rightarrow> []) @ msgConns (qcontents q) @ parked w @ qcontents (ingest w)"
    "owned ?w = (case sink (agg w) of Some c \<Rightarrow> [c] | None \<Rightarrow> []) @ msgConns (qcontents q) @ parked w @ qcontents (ingest w)"
    using q p by (simp_all add: owned_def msgConns_def)
  then have sub: "set (owned ?w) \<subseteq> set (owned w)" and "distinct (owned ?w)" using inv by (auto simp: sysInv_def)
  moreover have "set (owned ?w) \<subseteq> dom (conns w)" using inv sub by (auto simp: sysInv_def)
  ultimately have w: "sysInv conf ?w" using inv p q unfolding sysInv_def by simp
  show ?thesis
  proof (cases "mkind m")
    case MSG_DATA
    then show ?thesis using w sub by (simp add: handleCtrl_def)
  next
    case MSG_SRC_DOWN
    have "sink (aggSrcDown i a) = sink a" "parkHead (aggSrcDown i a) = parkHead a" "parkTail (aggSrcDown i a) = parkTail a" for i a
      by (simp_all add: aggSrcDown_def split: option.split)
    then show ?thesis using w sub MSG_SRC_DOWN by (simp add: handleCtrl_def sysInv_upd_agg)
  next
    case MSG_SINK_ADD
    show ?thesis
    proof (cases "mconn m")
      case None
      then show ?thesis using w sub MSG_SINK_ADD by (simp add: handleCtrl_def)
    next
      case (Some c)
      then have "c \<in> set (owned w)" "c \<notin> set (owned ?w)" "c \<in> dom (conns ?w)"
        using own inv by (auto simp: sysInv_def)
      with adoptSink_inv [OF w this(3,2)] sub show ?thesis by (auto simp: handleCtrl_def MSG_SINK_ADD Some)
    qed
  qed
qed

lemma aggCtrlLoop_inv:
  "sysInv conf w \<Longrightarrow> \<exists>w'. aggCtrlLoop w = Some w' \<and> sysInv conf w' \<and> set (owned w') \<subseteq> set (owned w) \<and>
     qcontents (ctrlQueue w') = []"
proof (induction "qsize (ctrlQueue w)" arbitrary: w rule: less_induct)
  case less
  have q: "queueInv (ctrlQueue w)" using less.prems by (simp add: sysInv_def)
  show ?case
  proof (cases "trypop (ctrlQueue w)")
    case None
    then show ?thesis using less.prems queue.deq_None [OF q] by (subst aggCtrlLoop.simps) simp
  next
    case (Some p)
    then obtain m q1 where pop: "trypop (ctrlQueue w) = Some (m, q1)" by (cases p) auto
    let ?w = "handleCtrl m (w\<lparr>ctrlQueue := q1\<rparr>)"
    note h = handleCtrl_inv [OF less.prems pop]
    have "qsize (ctrlQueue ?w) < qsize (ctrlQueue w)" using h pumpMeasure_trypop [OF q pop] by simp
    from less.hyps [OF this] h obtain w' where "aggCtrlLoop ?w = Some w'" "sysInv conf w'"
      "set (owned w') \<subseteq> set (owned ?w)" "qcontents (ctrlQueue w') = []" by blast
    then show ?thesis using h pop by (subst aggCtrlLoop.simps) auto
  qed
qed

text \<open>The drain at the end.\<close>

lemma drainOne_inv:
  assumes inv: "sysInv conf w" and pop: "trypop (dataQueue w) = Some (m, q)"
  shows "sysInv conf (drainOne m (w\<lparr>dataQueue := q\<rparr>)) \<and> owned (drainOne m (w\<lparr>dataQueue := q\<rparr>)) = owned w \<and>
    dataQueue (drainOne m (w\<lparr>dataQueue := q\<rparr>)) = q \<and> ctrlQueue (drainOne m (w\<lparr>dataQueue := q\<rparr>)) = ctrlQueue w"
proof -
  let ?w = "w\<lparr>dataQueue := q\<rparr>"
  have q: "queueInv q" "qcontents (dataQueue w) = m # qcontents q"
    using queue.deq_Some [OF _ pop] inv by (simp_all add: sysInv_def)
  then have "list_all (msgValid conf) (qcontents q)" using inv by (simp add: sysInv_def)
  then have w: "sysInv conf ?w" "owned ?w = owned w" using sysInv_queue [OF inv, where w' = ?w] q by simp_all
  obtain f a w1 where on: "aggOnMessage m (agg w) ?w = (f, a, w1)" by (metis prod_cases3)
  note w1 = world_more [OF aggOnMessage_os [OF on, THEN conjunct1]] and ag = aggOnMessage_agg [OF on]
  have upd: "sysInv conf (v\<lparr>agg := a\<rparr>) \<and> owned (v\<lparr>agg := a\<rparr>) = owned w \<and> dataQueue (v\<lparr>agg := a\<rparr>) = q \<and>
      ctrlQueue (v\<lparr>agg := a\<rparr>) = ctrlQueue w" if "os.more v = os.more w1" for v
    using sysInv_aggcong [of "v\<lparr>agg := a\<rparr>" ?w] world_more [OF that] w1 ag w by simp
  show ?thesis
  proof (cases "sink (agg w) \<noteq> None \<and> mkind m = MSG_DATA")
    case False
    then show ?thesis using w by (auto simp: drainOne_def split: option.split)
  next
    case True
    then obtain c where c: "sink (agg w) = Some c" "mkind m = MSG_DATA" by auto
    obtain rc slot pos w2 where fl: "sinkFlushOne (sinkFd c w1) f 0 w1 = (rc, slot, pos, w2)" by (metis prod_cases4)
    show ?thesis using upd [OF refl] upd [of w2] sinkFlushOne_frame [OF fl] c fl
      by (cases f) (simp_all add: drainOne_def on)
  qed
qed

lemma aggDataDrain_inv:
  "sysInv conf w \<Longrightarrow> \<exists>w'. aggDataDrain w = Some w' \<and> sysInv conf w' \<and> owned w' = owned w \<and>
     qcontents (dataQueue w') = [] \<and> ctrlQueue w' = ctrlQueue w"
proof (induction "qsize (dataQueue w)" arbitrary: w rule: less_induct)
  case less
  have q: "queueInv (dataQueue w)" using less.prems by (simp add: sysInv_def)
  show ?case
  proof (cases "trypop (dataQueue w)")
    case None
    then show ?thesis using less.prems queue.deq_None [OF q] by (subst aggDataDrain.simps) simp
  next
    case (Some p)
    then obtain m q1 where pop: "trypop (dataQueue w) = Some (m, q1)" by (cases p) auto
    let ?w = "drainOne m (w\<lparr>dataQueue := q1\<rparr>)"
    note h = drainOne_inv [OF less.prems pop]
    have "qsize (dataQueue ?w) < qsize (dataQueue w)" using h pumpMeasure_trypop [OF q pop] by simp
    from less.hyps [OF this] h obtain w' where "aggDataDrain ?w = Some w'" "sysInv conf w'"
      "owned w' = owned ?w" "qcontents (dataQueue w') = []" "ctrlQueue w' = ctrlQueue ?w" by blast
    then show ?thesis using h pop by (subst aggDataDrain.simps) auto
  qed
qed

lemma aggDrainForShutdown_inv:
  assumes "sysInv conf w"
  shows "\<exists>w'. aggDrainForShutdown w = Some w' \<and> sysInv conf w' \<and> set (owned w') \<subseteq> set (owned w) \<and>
    qcontents (dataQueue w') = [] \<and> qcontents (ctrlQueue w') = []"
proof -
  obtain w1 where 1: "aggCtrlLoop w = Some w1" "sysInv conf w1" "set (owned w1) \<subseteq> set (owned w)"
    "qcontents (ctrlQueue w1) = []" using aggCtrlLoop_inv [OF assms] by blast
  from aggDataDrain_inv [OF this(2)] 1 show ?thesis by (auto simp: aggDrainForShutdown_def)
qed

text \<open>What the sink sends.\<close>

lemma sinkRecv_effect:
  "sinkRecv fd b s = (eof, b', s') \<Longrightarrow> os.more s' = os.more s \<and> (bufInv b \<longrightarrow> bufInv b')"
proof (induction fd b s arbitrary: eof b' s' rule: sinkRecv.induct)
  case (1 fd b s)
  obtain rc b1 s1 where res: "bufReserve b 4096 (65536 + 64) s = (rc, b1, s1)" by (metis prod_cases3)
  have r: "os.more s1 = os.more s" "bufInv b \<longrightarrow> bufInv b1" using bufReserve_frame [OF res] bufReserve_inv [OF res] by simp_all
  obtain rx s2 where rcv: "os_recv fd (cap b1 - blen b1) s1 = (rx, s2)" by fastforce
  have s2: "os.more s2 = os.more s1" using os_recv_frame [OF rcv] by simp
  show ?case
  proof (cases "rc \<noteq> 0 \<or> (\<nexists>bs. rx = RxData bs \<and> bs \<noteq> [])")
    case True
    then show ?thesis using "1.prems" res rcv r s2
      by (subst (asm) sinkRecv.simps) (auto split: if_splits rx_res.splits)
  next
    case False
    then obtain bs where rx: "rc = 0" "rx = RxData bs" "bs \<noteq> []" by auto
    have len: "length bs \<le> cap b1 - blen b1" using os_recv_bytes [OF rcv [unfolded rx(2)]] by simp
    have "bufInv (b1\<lparr>bp := bp b1 @ bs\<rparr>)" if "bufInv b1" using that len by (auto simp: bufInv_def)
    moreover have "sinkRecv fd (b1\<lparr>bp := bp b1 @ bs\<rparr>) s2 = (eof, b', s')"
      using "1.prems" res rcv rx by (subst (asm) sinkRecv.simps) simp
    moreover have "\<not> rc \<noteq> 0" using rx(1) by simp
    from "1.IH" [OF res [symmetric] refl this rcv [symmetric] rx(2,3)] calculation(2)
    have "os.more s' = os.more s2 \<and> (bufInv (b1\<lparr>bp := bp b1 @ bs\<rparr>) \<longrightarrow> bufInv b')" by simp
    ultimately show ?thesis using r s2 by simp
  qed
qed

definition frames_frame :: "'a world_scheme \<Rightarrow> Buf_t \<Rightarrow> 'a world_scheme \<Rightarrow> bool" where
  "frames_frame w b' w' \<longleftrightarrow> bufInv b' \<and> conns w' = conns w \<and> (\<forall>conf. sysInv conf w' = sysInv conf w) \<and>
     owned w' = owned w \<and> sink (agg w') = sink (agg w) \<and> dataQueue w' = dataQueue w \<and>
     ctrlQueue w' = ctrlQueue w \<and> ingest w' = ingest w"

lemma frames_frame_more: "os.more w' = os.more w \<Longrightarrow> bufInv b' \<Longrightarrow> frames_frame w b' w'"
  using sysInv_more [of w' w] world_more [of w' w] by (simp add: frames_frame_def)

lemma frames_frame_trans: "frames_frame w b1 w1 \<Longrightarrow> frames_frame w1 b2 w2 \<Longrightarrow> frames_frame w b2 w2"
  by (simp add: frames_frame_def)

lemma sinkPong_frame:
  assumes "bufInv b'"
  shows "frames_frame w b' (case frameNew WS_OP_PONG p w of (f, w1) \<Rightarrow>
    upd_agg (\<lambda>a. a\<lparr>pendingCtrl := f, pendingCtrlOff := 0\<rparr>) w1)"
proof -
  obtain f v where new: "frameNew WS_OP_PONG p w = (f, v)" by fastforce
  have "os.more v = os.more w" using frameNew_os [OF new] by simp
  from sysInv_more [OF this] world_more [OF this] assms show ?thesis by (simp add: frames_frame_def new sysInv_upd_agg)
qed

lemma sinkFrames_step:
  assumes "bufInv b"
  shows "(\<exists>b1 w1. sinkFrames fd b w = sinkFrames fd b1 w1 \<and> bufLen b1 < bufLen b \<and> frames_frame w b1 w1) \<or>
    (\<exists>rc b1 w1. sinkFrames fd b w = (rc, b1, w1) \<and> frames_frame w b1 w1)"
proof (cases "wsParseHeader (bufData b)")
  case WS_NEED_MORE
  then show ?thesis using assms by (subst (2) sinkFrames.simps) (simp add: frames_frame_more)
next
  case WS_ERR_PROTO
  then show ?thesis using assms
    by (subst (2) sinkFrames.simps) (simp add: frames_frame_more sendCloseBestEffort_more)
next
  case (WS_OK h)
  define raw where "raw = take (unat (hPayloadLen h)) (drop (hHeaderLen h) (bufData b))"
  define payload where "payload = (if hMasked h then wsUnmask raw (hMaskKey h) else raw)"
  define b1 where "b1 = bufConsume (bufPatch b (hHeaderLen h) payload) (hHeaderLen h + unat (hPayloadLen h))"
  define w1 where "w1 = (if pendingCtrl (agg w) = None then
      (case frameNew WS_OP_PONG payload w of (f, w1) \<Rightarrow>
         upd_agg (\<lambda>a. a\<lparr>pendingCtrl := f, pendingCtrlOff := 0\<rparr>) w1) else w)"
  have step: "sinkFrames fd b w = (if bufLen b < hHeaderLen h + unat (hPayloadLen h) then (1, b, w)
      else if hOpcode h = WS_OP_PING then sinkFrames fd b1 w1
      else if hOpcode h = WS_OP_CLOSE then (0, b1, sendCloseBestEffort fd 1000 w) else sinkFrames fd b1 w)"
    using WS_OK by (subst sinkFrames.simps) (simp add: Let_def raw_def payload_def b1_def w1_def)
  show ?thesis
  proof (cases "bufLen b < hHeaderLen h + unat (hPayloadLen h)")
    case True
    then show ?thesis using assms by (simp add: step frames_frame_more)
  next
    case False
    have len: "hHeaderLen h + length payload \<le> bufLen b" "length payload \<le> unat (hPayloadLen h)"
      using False by (simp_all add: payload_def raw_def bufData_def bufLen_def min_def)
    then have b1: "bufInv b1" using assms by (simp add: b1_def bufInv_bufPatch bufInv_bufConsume)
    have shorter: "bufLen b1 < bufLen b" unfolding b1_def
      using False len hHeaderLen_ge [OF WS_OK] by (intro consume_shorter) simp_all
    have fr: "frames_frame w b1 w1" "frames_frame w b1 w" "frames_frame w b1 (sendCloseBestEffort fd 1000 w)"
      using b1 sinkPong_frame [OF b1, of w payload] by (simp_all add: w1_def frames_frame_more sendCloseBestEffort_more)
    show ?thesis
    proof (cases "hOpcode h = WS_OP_CLOSE")
      case True
      then have "sinkFrames fd b w = (0, b1, sendCloseBestEffort fd 1000 w)"
        using False step by (simp add: WS_OP_CLOSE_def WS_OP_PING_def)
      with fr(3) show ?thesis by blast
    next
      case not_close: False
      then have "sinkFrames fd b w = sinkFrames fd b1 w1 \<or> sinkFrames fd b w = sinkFrames fd b1 w"
        using False step by simp
      with fr shorter show ?thesis by blast
    qed
  qed
qed

lemma sinkFrames_effect:
  "bufInv b \<Longrightarrow> sinkFrames fd b w = (rc, b', w') \<Longrightarrow> frames_frame w b' w'"
proof (induction "bufLen b" arbitrary: b w rule: less_induct)
  case less
  from sinkFrames_step [OF less.prems(1), of fd w] show ?case
  proof (elim disjE exE conjE)
    fix b1 w1
    assume step: "sinkFrames fd b w = sinkFrames fd b1 w1" "bufLen b1 < bufLen b" "frames_frame w b1 w1"
    then have "bufInv b1" by (simp add: frames_frame_def)
    from less.hyps [OF step(2) this] step less.prems(2) show ?thesis by (simp add: frames_frame_trans [OF step(3)])
  qed (use less.prems in simp)
qed

lemma sinkReadAndHandle_inv:
  assumes inv: "sysInv conf w" and c: "sink (agg w) = Some c"
  shows "sysInv conf (snd (sinkReadAndHandle c w)) \<and> owned (snd (sinkReadAndHandle c w)) = owned w"
proof -
  have own: "c \<in> set (owned w)" "c \<notin> set (parked w)" using inv c by (auto simp: sysInv_def owned_def)
  then obtain x where x: "conns w c = Some x" using inv by (auto simp: sysInv_def)
  have "connInv x" using inv x by (simp add: sysInv_def connsInv_def)
  then have ok: "connOk x" "bufInv (rx x)" by (simp_all add: connInv_def connOk_def)
  obtain eof b w1 where rcv: "sinkRecv (cfd x) (rx x) w = (eof, b, w1)" by (metis prod_cases3)
  obtain rc b1 w2 where fr: "sinkFrames (cfd x) b w1 = (rc, b1, w2)" by (metis prod_cases3)
  note r = sinkRecv_effect [OF rcv]
  then have b: "bufInv b" using ok by simp
  note f = sinkFrames_effect [OF b fr]
  have w2: "sysInv conf w2" "conns w2 = conns w" "owned w2 = owned w"
    using f inv sysInv_more [of w1 w] r by (simp_all add: frames_frame_def)
  have par: "c \<notin> set (parked w2)"
  proof -
    have "sink (agg w2) = Some c" using f r world_more [of w1 w] c by (simp add: frames_frame_def)
    then show ?thesis using w2(1) by (auto simp: sysInv_def owned_def)
  qed
  let ?x = "x\<lparr>rx := b1\<rparr>"
  have "connInv ?x" using \<open>connInv x\<close> f by (simp add: connInv_def connOk_rx frames_frame_def)
  moreover have "linksEq ?x x" by (simp add: linksEq_def)
  moreover have "conns w2 c = Some x" using x w2 by simp
  ultimately have "sysInv conf (upd_conn c (\<lambda>_. ?x) w2) \<and> owned (upd_conn c (\<lambda>_. ?x) w2) = owned w2"
    using sysInv_write [OF w2(1), of c x ?x] par by blast
  moreover have "upd_conn c (\<lambda>_. ?x) w2 = upd_conn c (\<lambda>x. x\<lparr>rx := b1\<rparr>) w2" using x w2(2) by (simp add: upd_conn_def)
  ultimately show ?thesis using x w2(3) by (simp add: sinkReadAndHandle_def rcv fr)
qed

lemma sysInv_evRead:
  assumes "sysInv conf w"
  shows "sysInv conf (w\<lparr>dataQueue := evRead (dataQueue w)\<rparr>) \<and> owned (w\<lparr>dataQueue := evRead (dataQueue w)\<rparr>) = owned w"
    and "sysInv conf (w\<lparr>ctrlQueue := evRead (ctrlQueue w)\<rparr>) \<and> owned (w\<lparr>ctrlQueue := evRead (ctrlQueue w)\<rparr>) = owned w"
  using assms sysInv_parts [of "w\<lparr>dataQueue := evRead (dataQueue w)\<rparr>" w] sysInv_parts [of "w\<lparr>ctrlQueue := evRead (ctrlQueue w)\<rparr>" w]
  by (simp_all add: sysInv_def owned_def)

lemma aggEvent_inv:
  assumes "sysInv conf w"
  shows "sysInv conf (aggEvent e w) \<and> set (owned (aggEvent e w)) \<subseteq> set (owned w)"
proof (cases e)
  case AEvTimer
  obtain now w1 where tm: "os_realtime w = (now, w1)" by fastforce
  have "os.more w1 = os.more w" using tm by (auto simp: os_realtime_def split: list.splits)
  from sysInv_more [OF this] show ?thesis using assms by (simp add: AEvTimer aggEvent_def tm aggOnTick_def)
next
  case (AEvConn c evs)
  obtain alive w1 where rd: "sinkReadAndHandle c w = (alive, w1)" by fastforce
  show ?thesis
  proof (cases "Some c = sink (agg w)")
    case True
    then have "sysInv conf w1" "owned w1 = owned w" using sinkReadAndHandle_inv [OF assms, of c] rd by simp_all
    with closeSink_inv [OF assms] closeSink_inv [OF this(1)] True show ?thesis
      using assms by (auto simp: AEvConn aggEvent_def rd)
  qed (use assms in \<open>simp add: AEvConn aggEvent_def\<close>)
qed (use sysInv_evRead [OF assms] in \<open>simp_all add: aggEvent_def\<close>)

lemma aggEvents_inv:
  "sysInv conf w \<Longrightarrow> sysInv conf (fold aggEvent evs w) \<and> set (owned (fold aggEvent evs w)) \<subseteq> set (owned w)"
proof (induction evs arbitrary: w)
  case (Cons e evs)
  note step = aggEvent_inv [OF Cons.prems, of e]
  from Cons.IH [of "aggEvent e w"] step show ?case by auto
qed simp

lemma aggRound_inv:
  assumes "sysInv conf w"
  shows "\<exists>next w'. aggRound w = Some (next, w') \<and> sysInv conf w' \<and> set (owned w') \<subseteq> set (owned w)"
proof -
  obtain w1 where 1: "aggCtrlLoop w = Some w1" "sysInv conf w1" "set (owned w1) \<subseteq> set (owned w)"
    using aggCtrlLoop_inv [OF assms] by blast
  obtain w2 where 2: "aggPump w1 = Some w2" "sysInv conf w2" "set (owned w2) \<subseteq> set (owned w1)"
    using aggPump_inv [OF 1(2)] by blast
  obtain w3 where 3: "aggDrainForShutdown w2 = Some w3" "sysInv conf w3" "set (owned w3) \<subseteq> set (owned w2)"
    using aggDrainForShutdown_inv [OF 2(2)] by blast
  show ?thesis using 1 2 3 by (auto simp: aggRound_def Let_def)
qed

lemma aggIterate_inv:
  assumes "sysInv conf w"
  shows "\<exists>on w'. aggIterate evs w = Some (on, w') \<and> sysInv conf w' \<and> set (owned w') \<subseteq> set (owned w)"
proof -
  obtain "next" w1 where 1: "aggRound w = Some (next, w1)" "sysInv conf w1" "set (owned w1) \<subseteq> set (owned w)"
    using aggRound_inv [OF assms] by blast
  from aggEvents_inv [OF 1(2), of evs] 1 show ?thesis by (cases "next") (auto simp: aggIterate_def)
qed

end
