(* ===== verification/System.thy ===== *)
theory System
  imports AggSafety
begin

section \<open>The listeners preserve the invariant\<close>

text \<open>
  Accepting connections and handing the ready ones to the workers leave the invariant of the shared state true,
  provided the kernel and the allocator keep their promises: a new connection's memory is not in use
  (\<open>acceptFresh\<close>) and an event is only reported for a connection that is registered and in nobody's hands
  (\<open>levOk\<close>). The turns of all the threads are put together in theory Server.
\<close>

subsection \<open>The listener\<close>

text \<open>\<open>calloc\<close> returns memory that is not in use.\<close>

fun acceptFresh :: "int \<Rightarrow> accept_res list \<Rightarrow> 'a conn_world_scheme \<Rightarrow> bool" where
  "acceptFresh epollfd (AcceptFd fd nonblock mem ip # rs) w \<longleftrightarrow> (\<forall>c. mem = Some c \<longrightarrow> conns w c = None) \<and>
     acceptFresh epollfd rs (acceptOne epollfd fd nonblock mem ip w)"
| "acceptFresh epollfd _ w \<longleftrightarrow> True"

lemma registryAdd_erase: "map_option regErase (conns (registryAdd c w) d) = map_option regErase (conns w d)"
proof -
  have f: "regErase (x\<lparr>regPrev := p, regNext := n\<rparr>) = regErase x" "regErase (x\<lparr>regPrev := n\<rparr>) = regErase x" for x n p
    by (simp_all add: regErase_def)
  show ?thesis by (simp add: registryAdd_def Let_def upd_conn_erase f split: option.split)
qed

lemma connInv_zero: "connInv (conn_zero\<lparr>cfd := fd, cepollfd := ep, cid := i\<rparr>)"
  by (auto simp: connInv_def connOk_def conn_zero_def assembled_def dataOp_def wsUtf8Reset_def intro!: exI [of _ None])

lemma sysInv_connNew:
  fixes w :: "'a world_scheme"
  assumes inv: "sysInv conf w" and new: "connNew (Some c) fd ep w = (r, w1)" and fresh: "conns w c = None"
  shows "r = Some c \<and> sysInv conf w1 \<and> owned w1 = owned w \<and> c \<notin> set (owned w1) \<and> c \<in> dom (conns w1)"
proof -
  define x where "x = conn_zero\<lparr>cfd := fd, cepollfd := ep, cid := nextId w\<rparr>"
  have zero: "role conn_zero = ROLE_UNDECIDED" "cstate conn_zero = ST_HANDSHAKE_READ" by (simp_all add: conn_zero_def)
  have w1: "w1 = registryAdd c (w\<lparr>conns := (conns w)(c \<mapsto> x), nextId := nextId w + 1\<rparr>)" and r: "r = Some c"
    using new by (simp_all add: connNew_def x_def Let_def conn_zero_def)
  have reg: "regInv w1" using regInv_connNew [of w "Some c" fd ep] inv fresh new by (simp add: sysInv_def domIff)
  have er: "map_option regErase (conns w1 d) = map_option regErase (((conns w)(c \<mapsto> x)) d)" for d
    by (simp add: w1 registryAdd_erase)
  have some: "\<exists>y. ((conns w)(c \<mapsto> x)) d = Some y \<and> regErase z = regErase y" if "conns w1 d = Some z" for d z
    using er [of d] that by (cases "((conns w)(c \<mapsto> x)) d") (simp_all del: fun_upd_apply)
  have dom: "dom (conns w1) = insert c (dom (conns w))"
  proof -
    have "(conns w1 d = None) = (((conns w)(c \<mapsto> x)) d = None)" for d using er [of d] by (metis option.map_disc_iff)
    then show ?thesis by (auto simp: dom_def)
  qed
  have c: "c \<notin> set (owned w)" using inv fresh by (auto simp: sysInv_def)
  have "conn_world.more w1 = conn_world.more (w\<lparr>conns := (conns w)(c \<mapsto> x), nextId := nextId w + 1\<rparr>)"
    by (simp add: w1 registryAdd_def Let_def split: option.split)
  then have more: "conn_world.more w1 = conn_world.more w" by simp
  have "sysInv conf w1 \<and> owned w1 = owned w"
  proof (rule sysInv_conns [OF inv reg])
    show "set (owned w) \<subseteq> dom (conns w1)" "finite (dom (conns w1))"
      using inv dom by (auto simp: sysInv_def parkInv_def)
    show "agg w1 = agg w" "dataQueue w1 = dataQueue w" "ctrlQueue w1 = ctrlQueue w" "ingest w1 = ingest w"
      by (rule conn_more_world [OF more])+
    show "parkNext x' = parkNext z \<and> pendingMsg x' = pendingMsg z"
      if d: "d \<in> set (parked w)" "conns w d = Some z" "conns w1 d = Some x'" for d z x'
    proof -
      have "d \<noteq> c" using d(1) c by (auto simp: owned_def)
      then have "regErase x' = regErase z" using er [of d] d by simp
      from regErase_eq [OF this] show ?thesis by simp
    qed
    show "connInv z" if z: "conns w1 d = Some z" for d z
    proof -
      obtain y where y: "((conns w)(c \<mapsto> x)) d = Some y" "regErase z = regErase y" using some [OF z] by blast
      have "connInv y" using y(1) inv connInv_zero [where fd = fd and ep = ep and i = "nextId w"]
        by (auto simp: x_def sysInv_def connsInv_def split: if_splits)
      with regErase_eq(1) [OF y(2)] show ?thesis by simp
    qed
  qed
  with r c dom show ?thesis by simp
qed

lemma sysInv_upd:
  assumes inv: "sysInv conf w" and c: "c \<notin> set (parked w)"
    and f: "\<And>x. linksEq (f x) x" "\<And>x. connInv x \<Longrightarrow> connInv (f x)"
  shows "sysInv conf (upd_conn c f w) \<and> owned (upd_conn c f w) = owned w"
proof (cases "conns w c")
  case None
  then have "upd_conn c f w = w" by (simp add: upd_conn_def fun_upd_idem)
  with inv show ?thesis by simp
next
  case (Some x)
  then have "upd_conn c f w = upd_conn c (\<lambda>_. f x) w" by (simp add: upd_conn_def)
  moreover have "connInv x" using inv Some by (simp add: sysInv_def connsInv_def)
  ultimately show ?thesis using sysInv_write [OF inv Some f(1) f(2)] c by simp
qed

lemma connInv_written: "connInv (x\<lparr>lastEvents := es\<rparr>) = connInv x" "connInv (x\<lparr>clientip := ip\<rparr>) = connInv x"
proof -
  have "assembled st (x\<lparr>lastEvents := es\<rparr>) = assembled st x" "assembled st (x\<lparr>clientip := ip\<rparr>) = assembled st x" for st
    by (simp_all add: assembled_def split: option.split)
  then show "connInv (x\<lparr>lastEvents := es\<rparr>) = connInv x" "connInv (x\<lparr>clientip := ip\<rparr>) = connInv x"
    by (simp_all add: connInv_def connOk_def)
qed

lemma sysInv_ingest:
  assumes "sysInv conf w" and "c \<in> dom (conns w)" and "c \<notin> set (owned w)"
  shows "sysInv conf (w\<lparr>ingest := notify (pushLocked c (ingest w))\<rparr>)"
proof -
  have "queueInv (ingest w)" using assms(1) by (simp add: sysInv_def)
  then have "queueInv (notify (pushLocked c (ingest w)))"
    "qcontents (notify (pushLocked c (ingest w))) = qcontents (ingest w) @ [c]"
    by (simp_all add: pushLocked_contents)
  then show ?thesis
    using assms sysInv_parts [of "w\<lparr>ingest := notify (pushLocked c (ingest w))\<rparr>" w]
    by (auto simp: sysInv_def owned_def)
qed

lemma acceptOne_inv:
  fixes w :: "'a world_scheme"
  assumes inv: "sysInv conf w" and fresh: "\<forall>c. mem = Some c \<longrightarrow> conns w c = None"
  shows "sysInv conf (acceptOne ep fd nonblock mem ip w) \<and> owned (acceptOne ep fd nonblock mem ip w) = owned w"
proof -
  have os: "sysInv conf (os_close fd v) = sysInv conf v" "owned (os_close fd v) = owned v" for v :: "'a world_scheme"
    by (rule sysInv_more; simp add: os_close_def)+
  show ?thesis
  proof (cases "nonblock \<and> mem \<noteq> None")
    case False
    then show ?thesis using inv by (auto simp: acceptOne_def connNew_def os)
  next
    case True
    then obtain c where c: "mem = Some c" by auto
    obtain r w1 where new: "connNew (Some c) fd ep w = (r, w1)" by fastforce
    have "conns w c = None" using fresh c by simp
    from sysInv_connNew [OF inv new this]
    have w1: "r = Some c" "sysInv conf w1" "owned w1 = owned w" "c \<notin> set (owned w1)" "c \<in> dom (conns w1)" by blast+
    let ?w2 = "upd_conn c (\<lambda>x. x\<lparr>clientip := ip\<rparr>) w1"
    have "c \<notin> set (parked w1)" using w1(4) by (simp add: owned_def)
    then have w2: "sysInv conf ?w2" "owned ?w2 = owned w"
      using sysInv_upd [OF w1(2), of c "\<lambda>x. x\<lparr>clientip := ip\<rparr>"] w1(3) by (simp_all add: linksEq_def connInv_written)
    obtain rc w3 where ctl: "os_epoll_ctl ep EPOLL_CTL_ADD fd [EPOLLIN, EPOLLET, EPOLLRDHUP, EPOLLONESHOT] ?w2 = (rc, w3)"
      by fastforce
    have "os.more w3 = os.more ?w2" using os_epoll_ctl_world(1) [of ep EPOLL_CTL_ADD fd _ ?w2] ctl by (metis snd_conv)
    note w3 = sysInv_more [OF this]
    have "sysInv conf (connDestroy c w3) \<and> owned (connDestroy c w3) = owned w3"
      using w3 w2 w1 by (intro sysInv_connDestroy) simp_all
    then show ?thesis using True w3 w2 by (simp add: acceptOne_def c new w1(1) ctl os)
  qed
qed

lemma connectionHandle_inv:
  fixes w :: "'a world_scheme"
  shows "sysInv conf w \<Longrightarrow> acceptFresh ep rs w \<Longrightarrow>
    sysInv conf (connectionHandle ep rs w) \<and> owned (connectionHandle ep rs w) = owned w"
proof (induction rs arbitrary: w)
  case (Cons r rs)
  show ?case
  proof (cases r)
    case (AcceptFd fd nonblock mem ip)
    with Cons.prems acceptOne_inv [OF Cons.prems(1), of mem ep fd nonblock ip]
    show ?thesis using Cons.IH [of "acceptOne ep fd nonblock mem ip w"] by simp
  qed (use Cons.prems in simp_all)
qed simp

text \<open>
  What the kernel promises of the events of a listener's epoll descriptor: a connection is reported only
  while it is registered there, which \<open>EPOLLONESHOT\<close> and \<open>EPOLL_CTL_DEL\<close> make impossible while it waits in
  a queue, is parked, or is the sink. The shutdown is reported only to a listener that is \<open>alerted\<close>: its eventfd
  is registered and has been written.
\<close>

fun levOk :: "int \<Rightarrow> bool \<Rightarrow> listen_event \<Rightarrow> 'a world_scheme \<Rightarrow> bool" where
  "levOk epollfd alerted LevShutdown w \<longleftrightarrow> alerted"
| "levOk epollfd alerted (LevListen rs) w \<longleftrightarrow> acceptFresh epollfd rs w"
| "levOk epollfd alerted (LevConn c events) w \<longleftrightarrow> c \<in> dom (conns w) \<and> c \<notin> set (owned w)"

lemma listenerEvent_inv:
  assumes inv: "sysInv conf w" and ok: "levOk ep alerted e w" and res: "listenerEvent ep e w = (on, w')"
  shows "sysInv conf w'"
proof (cases e)
  case LevShutdown
  then show ?thesis using assms by (simp add: listenerEvent_def)
next
  case (LevListen rs)
  then show ?thesis using assms connectionHandle_inv [OF inv, of ep rs] by (auto simp: listenerEvent_def)
next
  case (LevConn c events)
  let ?w = "upd_conn c (\<lambda>x. x\<lparr>lastEvents := events\<rparr>) w"
  have c: "c \<in> dom (conns w)" "c \<notin> set (owned w)" using ok LevConn by simp_all
  have w: "sysInv conf ?w" "owned ?w = owned w"
    using sysInv_upd [OF inv, of c "\<lambda>x. x\<lparr>lastEvents := events\<rparr>"] c by (simp_all add: owned_def linksEq_def connInv_written)
  obtain ok s1 where al: "os_alloc ?w = (ok, s1)" by fastforce
  have "os.more s1 = os.more ?w" using al os_alloc_frame by auto
  note s1 = sysInv_more [OF this] world_more [OF this]
  show ?thesis
  proof (cases ok)
    case False
    moreover have "s1\<lparr>ingest := ingest w\<rparr> = s1" using s1 by (cases s1) simp
    ultimately have "w' = connClose c s1"
      using res LevConn al by (simp add: listenerEvent_def push_ingest_def push_def)
    then show ?thesis using sysInv_connClose [of conf s1 c] s1 w c by simp
  next
    case True
    let ?q = "notify (pushLocked c (ingest ?w))"
    have w': "w' = s1\<lparr>ingest := ?q\<rparr>"
      using True res LevConn al by (simp add: listenerEvent_def push_ingest_def push_def)
    have "sysInv conf s1" "c \<in> dom (conns s1)" "c \<notin> set (owned s1)" "ingest s1 = ingest ?w"
      using s1 w c by simp_all
    with sysInv_ingest [of conf s1 c] show ?thesis by (simp add: w')
  qed
qed

end
