(* ===== verification/UpstreamProofs.thy ===== *)
theory UpstreamProofs
  imports Upstream WorkerProofs
begin

section \<open>The upstream clients implement the WebSocket receiver\<close>

text \<open>
  The client's side of the receiver of theory WorkerProofs: frames of the server must not be masked, every
  answer is a masked frame, a close frame is answered with its own payload. The frame loop and the
  reading loop of the reactor implement it, whatever the segmentation of the stream.
\<close>

subsection \<open>The abstract receiver of a client\<close>

datatype up_event = UpMsg byte "byte list" | UpReply byte "byte list"

datatype up_res = UpNext "(byte \<times> byte list) option" "up_event option" | UpClose "byte list"

definition codeBytes :: "u16 \<Rightarrow> byte list" where
  "codeBytes code = [ucast (drop_bit 8 code), ucast code]"

definition upRes :: "recv_res \<Rightarrow> up_res" where
  "upRes r = (case r of RClose code \<Rightarrow> UpClose (codeBytes code)
     | RNext st ev \<Rightarrow> UpNext st (case ev of Some (EvMsg op d) \<Rightarrow> Some (UpMsg op d) | _ \<Rightarrow> None))"

definition clientStep :: "ServerConfig_t \<Rightarrow> (byte \<times> byte list) option \<Rightarrow> WsFrameHdr_t \<times> byte list \<Rightarrow> up_res" where
  "clientStep conf st f = (case f of (h, p) \<Rightarrow>
     if hMasked h then UpClose (codeBytes 1002)
     else if maxFrame conf < length p then UpClose (codeBytes 1009)
     else if hOpcode h = WS_OP_PING then UpNext st (Some (UpReply WS_OP_PONG p))
     else if hOpcode h = WS_OP_CLOSE then UpClose (if length p = 1 then codeBytes 1002 else p)
     else if hOpcode h = WS_OP_PONG then UpNext st None
     else if (hOpcode h = WS_OP_CONT) = (st = None) then UpClose (codeBytes 1002)
     else upRes (case st of None \<Rightarrow> dataStep conf (hFin h) (hOpcode h) [] p
       | Some (op, acc) \<Rightarrow> dataStep conf (hFin h) op acc p))"

fun clientReceive :: "ServerConfig_t \<Rightarrow> (byte \<times> byte list) option \<Rightarrow> (WsFrameHdr_t \<times> byte list) list \<Rightarrow>
    up_event list \<times> (byte \<times> byte list) option option" where
  "clientReceive conf st [] = ([], Some st)"
| "clientReceive conf st (f # fs) = (case clientStep conf st f of
       UpClose p \<Rightarrow> ([UpReply WS_OP_CLOSE p], None)
     | UpNext st' ev \<Rightarrow> (case clientReceive conf st' fs of (evs, fin) \<Rightarrow>
         (case ev of None \<Rightarrow> evs | Some e \<Rightarrow> e # evs, fin)))"

lemma clientReceive_append:
  "clientReceive conf st (fs @ gs) = (case clientReceive conf st fs of (evs, fin) \<Rightarrow>
     (case fin of None \<Rightarrow> (evs, None) | Some st' \<Rightarrow> (case clientReceive conf st' gs of (evs', fin') \<Rightarrow> (evs @ evs', fin'))))"
  by (induction fs arbitrary: st) (auto split: up_res.splits prod.splits option.splits)

subsection \<open>What the client writes\<close>

definition client_hdr :: "byte \<Rightarrow> u64 \<Rightarrow> byte list \<Rightarrow> WsFrameHdr_t" where
  "client_hdr op n mk = \<lparr>hFin = True, hOpcode = op, hMasked = True, hPayloadLen = n, hMaskKey = mk,
     hHeaderLen = 6 + hdr_ext n\<rparr>"

definition clientFrame :: "byte list \<Rightarrow> byte \<Rightarrow> byte list \<Rightarrow> byte list" where
  "clientFrame mk op p = frame_encode (client_hdr op (of_nat (length p)) mk, p)"

lemma maskedHeader_hdr:
  assumes "op AND 0x0F = op"
  shows "maskedHeader op n @ mk = hdr_encode (client_hdr op n mk)"
proof -
  have "rev [0..<2] = [1, 0 :: nat]" by code_simp
  then show ?thesis using assms
    by (simp add: maskedHeader_def hdr_encode_def client_hdr_def hdr_len7_def hdr_ext_def be_enc_map del: upt_rec_numeral)
qed

text \<open>The answers on the wire, each masked with some key.\<close>

fun answers :: "up_event list \<Rightarrow> byte list \<Rightarrow> bool" where
  "answers [] bs \<longleftrightarrow> bs = []"
| "answers (UpMsg op p # evs) bs \<longleftrightarrow> answers evs bs"
| "answers (UpReply op p # evs) bs \<longleftrightarrow>
     (\<exists>mk rest. length mk = 4 \<and> bs = clientFrame mk op p @ rest \<and> answers evs rest)"

lemma answers_append: "answers es xs \<Longrightarrow> answers fs ys \<Longrightarrow> answers (es @ fs) (xs @ ys)"
  by (induction es xs rule: answers.induct) fastforce+

lemma answers_reply: "length mk = 4 \<Longrightarrow> answers [UpReply op p] (clientFrame mk op p)"
  by auto

subsection \<open>A system that does not fail\<close>

definition calm :: "'a os_scheme \<Rightarrow> bool" where
  "calm s \<longleftrightarrow> mallocs s = [] \<and> ep_rets s = [] \<and>
     list_all (\<lambda>r. case r of RndData bs \<Rightarrow> bs \<noteq> [] | RndIntr \<Rightarrow> True | RndErr \<Rightarrow> False) (rands s)"

lemma bufAppend_calm: "bufAppend b xs s = (b', s') \<Longrightarrow> mallocs s = [] \<Longrightarrow> s' = s"
  by (auto simp: bufAppend_def bufReserve_def Let_def os_alloc_def split: if_splits prod.splits)

lemma randomBytes_calm:
  "calm s \<Longrightarrow> \<exists>bs s'. randomBytes n s = (Some bs, s') \<and> calm s'"
proof (induction n s rule: randomBytes.induct)
  case (1 n s)
  show ?case
  proof (cases "n = 0")
    case True
    then show ?thesis using "1.prems" by (simp add: randomBytes.simps)
  next
    case False
    show ?thesis
    proof (cases "rands s")
      case Nil
      then show ?thesis using False "1.prems" by (simp add: randomBytes.simps [of n s] os_getrandom_def randomBytes.simps [of 0])
    next
      case (Cons r rs)
      then obtain q s1 where get: "os_getrandom n s = (q, s1)" and calm1: "calm s1"
        and q: "q = RndIntr \<or> (\<exists>bs. q = RndData bs \<and> bs \<noteq> [])"
        using "1.prems" False by (cases r) (auto simp: os_getrandom_def calm_def)
      from q show ?thesis
      proof
        assume "q = RndIntr"
        with "1.IH"(2) [OF False get [symmetric] this calm1] show ?thesis
          using False get by (simp add: randomBytes.simps [of n s])
      next
        assume "\<exists>bs. q = RndData bs \<and> bs \<noteq> []"
        then obtain bs where bs: "q = RndData bs" "bs \<noteq> []" by blast
        from "1.IH"(1) [OF False get [symmetric] bs calm1] show ?thesis
          using False get bs by (auto simp: randomBytes.simps [of n s])
      qed
    qed
  qed
qed

lemma updateEvents_calm: "calm s \<Longrightarrow> 0 \<le> ufd c \<Longrightarrow> \<exists>s'. updateEvents ep c s = (0, s') \<and> calm s'"
  by (simp add: updateEvents_def os_epoll_ctl_def calm_def Let_def)

text \<open>Queueing an answer.\<close>

lemma queueMaskedFrame_calm:
  assumes "calm s" and "0 \<le> ufd c" and "bufInv (utx c)" and "op AND 0x0F = op"
  shows "\<exists>mk b s'. queueMaskedFrame ep c op p s = (0, c\<lparr>utx := b\<rparr>, s') \<and> length mk = 4 \<and> bufInv b \<and>
    bufData b = bufData (utx c) @ clientFrame mk op p \<and> calm s'"
proof -
  obtain mk s1 where rnd: "randomBytes 4 s = (Some mk, s1)" and s1: "calm s1" using randomBytes_calm [OF assms(1)] by blast
  have mk: "length mk = 4" using randomBytes_os [OF rnd] by simp
  have mem: "mallocs s1 = []" using s1 by (simp add: calm_def)
  obtain b s2 where a: "bufAppend (utx c) (maskedHeader op (of_nat (length p)) @ mk) s1 = (b, s2)" by fastforce
  have b: "bufInv b" "s2 = s1" "bufData b = bufData (utx c) @ hdr_encode (client_hdr op (of_nat (length p)) mk)"
    using bufInv_bufAppend [OF a assms(3)] bufAppend_calm [OF a mem] bufAppend_view_cases [OF a assms(3)] mem
      maskedHeader_hdr [OF assms(4)] by simp_all
  let ?m = "wsUnmask p mk"
  obtain b' s3 where a': "bufAppend b ?m s1 = (b', s3)" by fastforce
  have b': "bufInv b'" "s3 = s1" "bufData b' = bufData b @ ?m"
    using bufInv_bufAppend [OF a' b(1)] bufAppend_calm [OF a' mem] bufAppend_view_cases [OF a' b(1)] mem by simp_all
  have frame: "clientFrame mk op p = hdr_encode (client_hdr op (of_nat (length p)) mk) @ ?m"
    by (simp add: clientFrame_def frame_encode_def frame_clear_unmask client_hdr_def)
  define b2 where "b2 = (if p = [] then b else b')"
  obtain s4 where up: "updateEvents ep (c\<lparr>utx := b2\<rparr>) s1 = (0, s4)" "calm s4"
    using updateEvents_calm [OF s1, of "c\<lparr>utx := b2\<rparr>" ep] assms(2) by auto
  have "queueMaskedFrame ep c op p s = (0, c\<lparr>utx := b2\<rparr>, s4)"
    using rnd a a' b(2) b'(2) up os_alloc_no_failure [OF mem]
    by (simp add: queueMaskedFrame_def b2_def wsUnmask_def Let_def split: if_splits)
  moreover have "bufInv b2" "bufData b2 = bufData (utx c) @ clientFrame mk op p"
    using b b' frame by (auto simp: b2_def wsUnmask_def)
  ultimately show ?thesis using mk up(2) by blast
qed

subsection \<open>One round of the loop is one step of the receiver\<close>

definition uassembled :: "(byte \<times> byte list) option \<Rightarrow> UpstreamClient_t \<Rightarrow> bool" where
  "uassembled st c \<longleftrightarrow> bufInv (umsg c) \<and> (case st of None \<Rightarrow> \<not> ufrag c
     | Some (op, acc) \<Rightarrow> ufrag c \<and> uopcode c = op \<and> bufData (umsg c) = acc \<and>
         (op = WS_OP_TEXT \<longrightarrow> wsUtf8Feed wsUtf8Reset acc = (0, uutf8 c)))"

definition clientRel :: "(byte \<times> byte list) option \<Rightarrow> UpstreamClient_t \<Rightarrow> bool" where
  "clientRel st c \<longleftrightarrow> bufInv (urx c) \<and> bufInv (utx c) \<and> 0 \<le> ufd c \<and> ustate c = UPSTREAM_OPEN \<and> \<not> readPaused c \<and>
     uassembled st c"

lemma clientRel_simps [simp]:
  "uassembled st (c\<lparr>urx := b\<rparr>) = uassembled st c" "uassembled st (c\<lparr>utx := b\<rparr>) = uassembled st c"
  "uassembled st (c\<lparr>ustate := u\<rparr>) = uassembled st c" "uassembled st (c\<lparr>upending := m\<rparr>) = uassembled st c"
  "uassembled st (c\<lparr>readPaused := rp\<rparr>) = uassembled st c" "uassembled st (c\<lparr>reconnectAttempt := n\<rparr>) = uassembled st c"
  "uassembled st (c\<lparr>reconnectAtMs := t\<rparr>) = uassembled st c"
  "uassembled None c = (bufInv (umsg c) \<and> \<not> ufrag c)"
  "uassembled (Some (op, acc)) c = (bufInv (umsg c) \<and> ufrag c \<and> uopcode c = op \<and> bufData (umsg c) = acc \<and>
     (op = WS_OP_TEXT \<longrightarrow> wsUtf8Feed wsUtf8Reset acc = (0, uutf8 c)))"
  by (simp_all add: uassembled_def split: option.split)

text \<open>What a step adds to the output.\<close>

definition wrote :: "up_event list \<Rightarrow> UpstreamClient_t \<Rightarrow> UpstreamClient_t \<Rightarrow> bool" where
  "wrote evs c c' \<longleftrightarrow> (\<exists>bs. bufData (utx c') = bufData (utx c) @ bs \<and> answers evs bs)"

lemma wrote_none [simp]: "utx c' = utx c \<Longrightarrow> wrote [] c c'" "utx c' = utx c \<Longrightarrow> wrote [UpMsg op d] c c'"
  by (simp_all add: wrote_def)

lemma wrote_trans: "wrote es a b \<Longrightarrow> wrote fs b c \<Longrightarrow> wrote (es @ fs) a c"
  by (auto simp: wrote_def intro: answers_append)

lemma wrote_reply:
  "length mk = 4 \<Longrightarrow> bufData (utx c') = bufData (utx c) @ clientFrame mk op p \<Longrightarrow> wrote [UpReply op p] c c'"
  by (auto simp: wrote_def)

definition upRefines ::
  "up_res \<Rightarrow> byte list \<Rightarrow> UpstreamClient_t \<Rightarrow> 'a os_scheme \<Rightarrow> up_out \<times> UpstreamClient_t \<times> 'a os_scheme \<Rightarrow> bool" where
  "upRefines res r c s q \<longleftrightarrow> (case q of (out, c', s') \<Rightarrow> stepKeeps c s c' s' \<and> calm s' \<and>
     (case res of
        UpClose p \<Rightarrow> out = UpReturn 0 \<and> ustate c' = UPSTREAM_CLOSING \<and> bufInv (utx c') \<and> wrote [UpReply WS_OP_CLOSE p] c c'
      | UpNext st' ev \<Rightarrow> clientRel st' c' \<and> bufData (urx c') = r \<and>
          wrote (case ev of None \<Rightarrow> [] | Some e \<Rightarrow> [e]) c c' \<and>
          (case ev of Some (UpMsg op d) \<Rightarrow> out = UpComplete \<and> st' = None \<and> uopcode c' = op \<and> bufData (umsg c') = d
            | _ \<Rightarrow> out = UpContinue)))"

lemma upRefines_base:
  assumes "upRefines res r c1 s1 q" and "utx c1 = utx c" and "stepKeeps c s c1 s1"
  shows "upRefines res r c s q"
proof -
  have "wrote evs c1 c' \<longleftrightarrow> wrote evs c c'" for evs c' using assms(2) by (simp add: wrote_def)
  then show ?thesis using assms(1) stepKeeps_trans [OF assms(3)]
    by (cases q) (auto simp: upRefines_def split: up_res.splits)
qed

lemma upFail_refines:
  assumes "calm s" and "0 \<le> ufd c" and "bufInv (utx c)" and "utx c = utx c0" and "stepKeeps c0 s0 c s"
  shows "upRefines (UpClose (codeBytes code)) r c0 s0 (upFail ep c code s)"
proof -
  let ?c = "c\<lparr>ustate := UPSTREAM_CLOSING\<rparr>"
  obtain mk b s' where q: "queueMaskedFrame ep ?c WS_OP_CLOSE (codeBytes code) s = (0, ?c\<lparr>utx := b\<rparr>, s')"
    "length mk = 4" "bufInv b" "bufData b = bufData (utx c) @ clientFrame mk WS_OP_CLOSE (codeBytes code)" "calm s'"
    using queueMaskedFrame_calm [OF assms(1), of ?c WS_OP_CLOSE ep "codeBytes code"] assms(2,3) by (auto simp: ws_op_defs)
  have fail: "upFail ep c code s = (UpReturn 0, ?c\<lparr>utx := b\<rparr>, s')"
    using q(1) by (simp add: upFail_def beginClose_def codeBytes_def)
  have "stepKeeps c0 s0 (?c\<lparr>utx := b\<rparr>) s'" using stepKeeps_trans [OF assms(5) upFail_keeps(2) [OF fail]] .
  then show ?thesis using fail q assms(4) wrote_reply [OF q(2), of "?c\<lparr>utx := b\<rparr>" c WS_OP_CLOSE]
    by (simp add: upRefines_def wrote_def)
qed

lemma upControl_refines:
  assumes rel: "clientRel st c" and s: "calm s" and len: "length p \<le> 125" "hFin h" and rx: "drop tot (bufData (urx c)) = r"
  shows "upRefines (if hOpcode h = WS_OP_PING then UpNext st (Some (UpReply WS_OP_PONG p))
      else if hOpcode h = WS_OP_CLOSE then UpClose (if length p = 1 then codeBytes 1002 else p) else UpNext st None) r c s
      (upControl ep h p tot c s)"
proof -
  have inv: "bufInv (urx c)" "bufInv (utx c)" "0 \<le> ufd c" using rel by (simp_all add: clientRel_def)
  consider (ping) "hOpcode h = WS_OP_PING" | (bad) "hOpcode h \<noteq> WS_OP_PING" "hOpcode h = WS_OP_CLOSE" "length p = 1"
    | (close) "hOpcode h \<noteq> WS_OP_PING" "hOpcode h = WS_OP_CLOSE" "length p \<noteq> 1"
    | (pong) "hOpcode h \<noteq> WS_OP_PING" "hOpcode h \<noteq> WS_OP_CLOSE" by blast
  then show ?thesis
  proof cases
    case ping
    obtain mk b s' where q: "queueMaskedFrame ep c WS_OP_PONG p s = (0, c\<lparr>utx := b\<rparr>, s')" "length mk = 4" "bufInv b"
      "bufData b = bufData (utx c) @ clientFrame mk WS_OP_PONG p" "calm s'"
      using queueMaskedFrame_calm [OF s inv(3,2), of WS_OP_PONG ep p] by (auto simp: ws_op_defs)
    let ?c' = "c\<lparr>utx := b, urx := bufConsume (urx c) tot\<rparr>"
    have "upControl ep h p tot c s = (UpContinue, ?c', s')" using ping len q(1) by (simp add: upControl_def not_less)
    then show ?thesis
      using ping rel rx q queueMaskedFrame_keeps(1) [OF q(1)] wrote_reply [OF q(2), of ?c' c WS_OP_PONG p]
      by (simp add: upRefines_def clientRel_def bufConsume_view bufInv_bufConsume)
  next
    case bad
    then have "upControl ep h p tot c s = upFail ep c 1002 s" using len by (simp add: upControl_def)
    then show ?thesis using bad upFail_refines [OF s inv(3,2) refl stepKeeps_refl] by simp
  next
    case close
    let ?c = "c\<lparr>urx := bufConsume (urx c) tot, ustate := UPSTREAM_CLOSING\<rparr>"
    obtain mk b s' where q: "queueMaskedFrame ep ?c WS_OP_CLOSE p s = (0, ?c\<lparr>utx := b\<rparr>, s')" "length mk = 4" "bufInv b"
      "bufData b = bufData (utx c) @ clientFrame mk WS_OP_CLOSE p" "calm s'"
      using queueMaskedFrame_calm [OF s, of ?c WS_OP_CLOSE ep p] inv by (auto simp: ws_op_defs)
    have step: "upControl ep h p tot c s = (UpReturn 0, ?c\<lparr>utx := b\<rparr>, s')"
      using close len q(1) by (simp add: upControl_def not_less)
    then show ?thesis
      using close q upControl_keeps(1) [OF step] wrote_reply [OF q(2), of "?c\<lparr>utx := b\<rparr>" c WS_OP_CLOSE p]
      by (simp add: upRefines_def)
  next
    case pong
    then have "upControl ep h p tot c s = (UpContinue, c\<lparr>urx := bufConsume (urx c) tot\<rparr>, s)"
      using len by (simp add: upControl_def not_less)
    then show ?thesis using pong rel rx s by (simp add: upRefines_def clientRel_def bufConsume_view bufInv_bufConsume)
  qed
qed

text \<open>A data frame of an open message, for any system: it fails with the receiver's code, or leaves the receiver's
  state.\<close>

lemma upDataOpen_cases:
  assumes rel: "clientRel (Some (op, acc)) c" and mem: "mallocs s = []"
  shows "case dataStep conf fin op acc p of
      RClose code \<Rightarrow> \<exists>c2. upDataOpen ep conf fin p tot c s = upFail ep c2 code s \<and> stepKeeps c s c2 s \<and>
        utx c2 = utx c \<and> bufInv (urx c2) \<and> bufInv (umsg c2)
    | RNext st' ev \<Rightarrow> \<exists>c2. upDataOpen ep conf fin p tot c s = (if ev = None then UpContinue else UpComplete, c2, s) \<and>
        clientRel st' c2 \<and> stepKeeps c s c2 s \<and> utx c2 = utx c \<and> bufData (urx c2) = drop tot (bufData (urx c)) \<and>
        (ev \<noteq> None \<longrightarrow> st' = None \<and> ev = Some (EvMsg (uopcode c2) (bufData (umsg c2))))"
proof -
  from rel have inv: "bufInv (utx c)" "bufInv (urx c)" "bufInv (umsg c)"
    and op: "uopcode c = op" and acc: "bufData (umsg c) = acc" "ufrag c"
    and u8: "op = WS_OP_TEXT \<longrightarrow> wsUtf8Feed wsUtf8Reset acc = (0, uutf8 c)"
    by (simp_all add: clientRel_def)
  have len: "bufLen (umsg c) = length acc" using acc by (simp flip: length_bufData)
  obtain rc u where feed: "(if uopcode c = WS_OP_TEXT \<and> 0 < length p then wsUtf8Feed (uutf8 c) p
    else (0, uutf8 c)) = (rc, u)" by fastforce
  have whole: "wsUtf8Feed wsUtf8Reset (acc @ p) = (rc, u)" if "op = WS_OP_TEXT"
    using that u8 feed op by (auto simp: wsUtf8Feed_append split: if_splits)
  have rc: "rc = 0 \<longleftrightarrow> \<not> (op = WS_OP_TEXT \<and> \<not> utf8_prefix (acc @ p))"
    using whole feed op wsUtf8Feed_prefix [of "acc @ p"] by (auto split: if_splits)
  have fin8: "op = WS_OP_TEXT \<and> \<not> wsUtf8Done u \<longleftrightarrow> op = WS_OP_TEXT \<and> \<not> utf8_valid (acc @ p)" if "rc = 0"
    using that whole by (auto simp: utf8_valid_def)
  obtain b s1 where app: "bufAppend (umsg c) p s = (b, s1)" by fastforce
  note a = append_msg [OF app inv(3) mem] and s1 = bufAppend_calm [OF app mem]
  have size: "maxMessage conf < bufLen (umsg c) \<or> maxMessage conf - bufLen (umsg c) < length p \<longleftrightarrow>
      maxMessage conf < length acc + length p" using len by auto
  note step1 = upDataOpen_step [OF feed app, of ep conf fin tot, unfolded s1 size op]
  show ?thesis
  proof (cases "maxMessage conf < length acc + length p \<or> rc \<noteq> 0")
    case True
    then show ?thesis using inv rc unfolding step1
      by (auto simp: dataStep_def intro: exI [of _ c] exI [of _ "c\<lparr>uutf8 := u\<rparr>"])
  next
    case False
    define c2 where "c2 = c\<lparr>uutf8 := u, umsg := b, urx := bufConsume (urx c) tot\<rparr>"
    have step: "upDataOpen ep conf fin p tot c s =
        (if \<not> fin then (UpContinue, c2, s)
         else if op = WS_OP_TEXT \<and> \<not> wsUtf8Done u then upFail ep (c2\<lparr>ufrag := False\<rparr>) 1007 s
         else (UpComplete, c2\<lparr>ufrag := False\<rparr>, s))"
      using False unfolding step1 by (simp add: c2_def)
    have r: "clientRel None (c2\<lparr>ufrag := False\<rparr>)" "clientRel (Some (op, acc @ p)) c2"
      "stepKeeps c s c2 s" "utx c2 = utx c" "bufData (urx c2) = drop tot (bufData (urx c))" "uopcode c2 = op" "bufData (umsg c2) = acc @ p"
      using rel a acc op whole False inv by (auto simp: c2_def clientRel_def bufInv_bufConsume bufConsume_view)
    show ?thesis
    proof (cases "fin \<and> op = WS_OP_TEXT \<and> \<not> wsUtf8Done u")
      case True
      then have "dataStep conf fin op acc p = RClose 1007" using False rc fin8 by (simp add: dataStep_def)
      then show ?thesis using True step r by (auto simp: clientRel_def intro!: exI [of _ "c2\<lparr>ufrag := False\<rparr>"])
    next
      case last: False
      then have "dataStep conf fin op acc p = (if fin then RNext None (Some (EvMsg op (acc @ p))) else RNext (Some (op, acc @ p)) None)"
        using False rc fin8 by (auto simp: dataStep_def)
      then show ?thesis using last step r by (cases fin) auto
    qed
  qed
qed

lemma upDataOpen_refines:
  assumes rel: "clientRel (Some (op, acc)) c1" and s: "calm s" and rx: "drop tot (bufData (urx c1)) = r"
    and same: "utx c1 = utx c" "stepKeeps c s c1 s"
  shows "upRefines (upRes (dataStep conf fin op acc p)) r c s (upDataOpen ep conf fin p tot c1 s)"
proof -
  have mem: "mallocs s = []" and inv: "bufInv (utx c1)" "0 \<le> ufd c1" using s rel by (simp_all add: calm_def clientRel_def)
  note cases = upDataOpen_cases [OF rel mem, where conf = conf and fin = fin and p = p and ep = ep and tot = tot]
  show ?thesis
  proof (cases "dataStep conf fin op acc p")
    case (RClose code)
    then obtain c2 where c2: "upDataOpen ep conf fin p tot c1 s = upFail ep c2 code s" "stepKeeps c1 s c2 s" "utx c2 = utx c1"
      using cases by auto
    have "0 \<le> ufd c2" using inv c2(2) by (simp add: stepKeeps_def sameUp_fields)
    then show ?thesis
      using upFail_refines [OF s, of c2 c s code r ep] stepKeeps_trans [OF same(2) c2(2)] c2 same inv RClose by (simp add: upRes_def)
  next
    case (RNext st' ev)
    then obtain c2 where c2: "upDataOpen ep conf fin p tot c1 s = (if ev = None then UpContinue else UpComplete, c2, s)"
      "clientRel st' c2" "stepKeeps c1 s c2 s" "utx c2 = utx c1" "bufData (urx c2) = drop tot (bufData (urx c1))"
      "ev \<noteq> None \<longrightarrow> st' = None \<and> ev = Some (EvMsg (uopcode c2) (bufData (umsg c2)))" using cases by auto
    then show ?thesis
      using RNext s rx same(1) stepKeeps_trans [OF same(2) c2(3)] by (cases ev) (auto simp: upRes_def upRefines_def)
  qed
qed

lemma clientStep_data:
  assumes "\<not> hMasked h" "\<not> maxFrame conf < length p" "hOpcode h \<notin> {WS_OP_PING, WS_OP_CLOSE, WS_OP_PONG}"
  shows "clientStep conf st (h, p) =
    (if (hOpcode h = WS_OP_CONT) = (st = None) then UpClose (codeBytes 1002)
     else upRes (dataStep conf (hFin h) (case st of None \<Rightarrow> hOpcode h | Some (op, acc) \<Rightarrow> op)
       (case st of None \<Rightarrow> [] | Some (op, acc) \<Rightarrow> acc) p))"
  using assms by (cases st) (auto simp: clientStep_def)

lemma upData_refines:
  assumes rel: "clientRel st c" and s: "calm s" and rx: "drop tot (bufData (urx c)) = r"
    and data: "\<not> hMasked h" "\<not> maxFrame conf < length p" "hOpcode h \<in> {WS_OP_CONT, WS_OP_TEXT, WS_OP_BIN}"
  shows "upRefines (clientStep conf st (h, p)) r c s (upData ep conf h p tot c s)"
proof -
  have inv: "bufInv (utx c)" "bufInv (urx c)" "0 \<le> ufd c" using rel by (simp_all add: clientRel_def)
  have other: "hOpcode h \<notin> {WS_OP_PING, WS_OP_CLOSE, WS_OP_PONG}" using data(3) by (auto simp: ws_op_defs)
  have open_iff: "ufrag c \<longleftrightarrow> st \<noteq> None" using rel by (auto simp: clientRel_def uassembled_def split: option.splits)
  show ?thesis
  proof (cases "(hOpcode h = WS_OP_CONT) = (st = None)")
    case True
    then have "upData ep conf h p tot c s = upFail ep c 1002 s" using open_iff by (auto simp: upData_def)
    then show ?thesis using True upFail_refines [OF s inv(3,1) refl stepKeeps_refl]
      by (simp add: clientStep_data [OF data(1,2) other])
  next
    case False
    define c1 where "c1 = (if hOpcode h = WS_OP_CONT then c
      else c\<lparr>uopcode := hOpcode h, ufrag := True, umsg := bufReset (umsg c), uutf8 := wsUtf8Reset\<rparr>)"
    have "upData ep conf h p tot c s = upDataOpen ep conf (hFin h) p tot c1 s"
      using False open_iff data(3) by (auto simp: upData_def c1_def)
    moreover have rel1: "clientRel (Some (case st of None \<Rightarrow> hOpcode h | Some (op, acc) \<Rightarrow> op,
        case st of None \<Rightarrow> [] | Some (op, acc) \<Rightarrow> acc)) c1"
      using False rel by (cases st) (auto simp: clientRel_def c1_def bufInv_bufReset bufReset_view)
    moreover have eq: "utx c1 = utx c" "stepKeeps c s c1 s" "drop tot (bufData (urx c1)) = r"
      using rx by (simp_all add: c1_def)
    moreover note upDataOpen_refines [OF rel1 s eq(3,1,2), of conf "hFin h" p ep]
    ultimately show ?thesis by (simp only: clientStep_data [OF data(1,2) other] False if_False)
  qed
qed

text \<open>What the loop may find after the complete frames: too few bytes of a frame that is fine so far, or the
  header of a frame it refuses without waiting for the payload.\<close>

definition upIncomplete :: "ServerConfig_t \<Rightarrow> byte list \<Rightarrow> bool" where
  "upIncomplete conf r \<longleftrightarrow> (case wsParseHeader r of WS_NEED_MORE \<Rightarrow> True | WS_ERR_PROTO \<Rightarrow> False
     | WS_OK h \<Rightarrow> \<not> hMasked h \<and> unat (hPayloadLen h) \<le> maxFrame conf \<and>
         length r < hHeaderLen h + unat (hPayloadLen h))"

definition refused :: "ServerConfig_t \<Rightarrow> WsFrameHdr_t \<times> byte list \<Rightarrow> bool" where
  "refused conf f \<longleftrightarrow> hMasked (fst f) \<or> maxFrame conf < length (snd f)"

lemma hHeaderLen_le: "hdr_valid h \<Longrightarrow> hHeaderLen h \<le> 14"
  by (auto simp: hdr_valid_def hdr_encode_def hdr_ext_def split: if_splits)

lemma header_fits: "hdr_valid h \<Longrightarrow> \<not> 2 ^ 64 - 1 - hHeaderLen h < unat (hPayloadLen h)"
  using hHeaderLen_le [of h] by (auto simp: hdr_valid_def word_less_nat_alt)

lemma upFrameStep_incomplete:
  assumes "upIncomplete conf (bufData (urx c))"
  shows "upFrameStep ep conf c s = (UpReturn 0, c, s)"
proof (cases "wsParseHeader (bufData (urx c))")
  case (WS_OK h)
  then show ?thesis using assms header_fits [OF wsParseHeader_sound(1) [OF WS_OK]]
    by (simp add: upIncomplete_def upFrameStep_def Let_def)
qed (use assms in \<open>simp_all add: upIncomplete_def upFrameStep_def\<close>)

lemma refused_closes:
  assumes "refused conf f"
  shows "clientStep conf st f = UpClose (codeBytes (if hMasked (fst f) then 1002 else 1009))"
  using assms by (cases f; cases "hMasked (fst f)") (simp_all add: refused_def clientStep_def)

lemma upFrameStep_refused:
  assumes "clientRel st c" and "calm s" and "wsParseHeader (bufData (urx c)) = WS_OK (fst f)" and "refused conf f"
    and "length (snd f) = unat (hPayloadLen (fst f))"
  shows "upRefines (clientStep conf st f) r c s (upFrameStep ep conf c s)"
proof -
  have inv: "0 \<le> ufd c" "bufInv (utx c)" using assms(1) by (simp_all add: clientRel_def)
  have "upFrameStep ep conf c s = upFail ep c (if hMasked (fst f) then 1002 else 1009) s"
    using assms(3-5) by (cases "hMasked (fst f)") (simp_all add: refused_def upFrameStep_def Let_def)
  then show ?thesis unfolding refused_closes [OF assms(4)]
    using upFail_refines [OF assms(2) inv refl stepKeeps_refl] by simp
qed

lemma upFrameStep_refines:
  assumes rel: "clientRel st c" and s: "calm s" and valid: "frame_valid (h, p)"
    and rx: "bufData (urx c) = frame_encode (h, p) @ r"
  shows "upRefines (clientStep conf st (h, p)) r c s (upFrameStep ep conf c s)"
proof -
  have v: "hdr_valid h" "unat (hPayloadLen h) = length p" using valid by (simp_all add: frame_valid_def)
  have hdr: "wsParseHeader (bufData (urx c)) = WS_OK h"
    unfolding rx frame_encode_def using wsParseHeader_encode [OF v(1)] by simp
  show ?thesis
  proof (cases "refused conf (h, p)")
    case True
    then show ?thesis using upFrameStep_refused [OF rel s, of "(h, p)" conf r ep] hdr v by simp
  next
    case False
    then have ok: "\<not> hMasked h" "\<not> maxFrame conf < length p" by (simp_all add: refused_def)
    have d: "bufData (urx c) = hdr_encode h @ p @ r" using rx ok by (simp add: frame_encode_def frame_clear_unmask)
    have len: "length (hdr_encode h) = hHeaderLen h" by (rule hdr_encode_length [OF v(1)])
    let ?tot = "hHeaderLen h + length p"
    have "bufLen (urx c) = length (bufData (urx c))" by simp
    then have big: "\<not> bufLen (urx c) < ?tot" unfolding d by (simp add: len)
    have tk: "take (length p) (drop (hHeaderLen h) (bufData (urx c))) = p" "drop ?tot (bufData (urx c)) = r"
      unfolding d by (simp_all flip: len)
    have step: "upFrameStep ep conf c s = (if and (hOpcode h) 0x8 \<noteq> 0 then upControl ep h p ?tot c s
        else upData ep conf h p ?tot c s)"
      using ok hdr v big tk(1) header_fits [OF v(1)] by (simp add: upFrameStep_def Let_def)
    have ops: "hOpcode h \<in> {WS_OP_CONT, WS_OP_TEXT, WS_OP_BIN, WS_OP_CLOSE, WS_OP_PING, WS_OP_PONG}"
      using v(1) by (simp add: hdr_valid_def)
    show ?thesis
    proof (cases "hOpcode h \<in> {WS_OP_CLOSE, WS_OP_PING, WS_OP_PONG}")
      case True
      then have "hPayloadLen h \<le> 125" "hFin h" using v(1) by (simp_all add: hdr_valid_def)
      then have "length p \<le> 125" using v(2) by (simp add: word_le_nat_alt)
      from upControl_refines [OF rel s this \<open>hFin h\<close> tk(2), of ep]
      have "upRefines (clientStep conf st (h, p)) r c s (upControl ep h p ?tot c s)"
        using True ok by (auto simp: clientStep_def)
      then show ?thesis using True step control_opcode(1) [OF ops] by simp
    next
      case data: False
      then have "hOpcode h \<in> {WS_OP_CONT, WS_OP_TEXT, WS_OP_BIN}" using ops by auto
      from upData_refines [OF rel s tk(2) ok this, of ep] show ?thesis
        using data step control_opcode(1) [OF ops] by auto
    qed
  qed
qed

subsection \<open>The loop\<close>

fun upMsg :: "u64 \<Rightarrow> up_event \<Rightarrow> (u64 \<times> byte \<times> byte list) list" where
  "upMsg i (UpMsg op d) = [(i, op, d)]"
| "upMsg i (UpReply op d) = []"

definition upDelivered :: "u64 \<Rightarrow> up_event list \<Rightarrow> (u64 \<times> byte \<times> byte list) list" where
  "upDelivered i evs = concat (map (upMsg i) evs)"

lemma upDelivered_append: "upDelivered i (es @ fs) = upDelivered i es @ upDelivered i fs"
  by (simp add: upDelivered_def)

text \<open>What the loop leaves alone besides the queue of messages.\<close>

definition upQuiet :: "UpstreamClient_t \<Rightarrow> 'a world_scheme \<Rightarrow> UpstreamClient_t \<Rightarrow> 'a world_scheme \<Rightarrow> bool" where
  "upQuiet c w c' w' \<longleftrightarrow> sameUp c c' \<and> calm w' \<and> txs w' = txs w \<and> wire w' = wire w \<and> closed w' = closed w \<and> conns w' = conns w \<and> regHead w' = regHead w \<and> nextId w' = nextId w \<and> ingest w' = ingest w \<and> ctrlQueue w' = ctrlQueue w \<and>
     agg w' = agg w \<and> world.more w' = world.more w"

lemma upQuiet_refl: "calm w \<Longrightarrow> upQuiet c w c w"
  by (simp add: upQuiet_def)

lemma upQuiet_trans: "upQuiet a u b v \<Longrightarrow> upQuiet b v c w \<Longrightarrow> upQuiet a u c w"
  by (auto simp: upQuiet_def intro: sameUp_trans)

lemma stepKeeps_quiet:
  "stepKeeps c (w :: 'a world_scheme) c' w' \<Longrightarrow> calm w' \<Longrightarrow> upQuiet c w c' w' \<and> dataQueue w' = dataQueue w"
  unfolding stepKeeps_def upQuiet_def by (cases w, cases w') simp

lemma publish_calm:
  assumes "calm w" and "queueInv (dataQueue w)" and "queueSize (dataQueue w) < confHigh conf"
  shows "\<exists>m w'. publishReactorMessage ep conf c w = (0, c, w') \<and> upQuiet c w c w' \<and> queueInv (dataQueue w') \<and>
    qcontents (dataQueue w') = qcontents (dataQueue w) @ [m] \<and> msgView m = (uid c, uopcode c, bufData (umsg c))"
  using assms
  by (auto simp: publishReactorMessage_def msgNewData_def os_alloc_def os_realtime_def push_data_def push_def calm_def
      upQuiet_def pushLocked_contents msgView_def split: list.split)

text \<open>What is left behind the complete frames, and the frame (if any) that is refused because of it.\<close>

definition upTail :: "ServerConfig_t \<Rightarrow> byte list \<Rightarrow> (WsFrameHdr_t \<times> byte list) list \<Rightarrow> bool" where
  "upTail conf u g \<longleftrightarrow> (g = [] \<and> upIncomplete conf u) \<or>
     (\<exists>f. g = [f] \<and> refused conf f \<and> wsParseHeader u = WS_OK (fst f) \<and> length (snd f) = unat (hPayloadLen (fst f)))"

definition loopResult ::
  "int \<times> UpstreamClient_t \<times> 'a world_scheme \<Rightarrow> UpstreamClient_t \<Rightarrow> 'a world_scheme \<Rightarrow> nat \<Rightarrow> up_event list \<Rightarrow>
    (byte \<times> byte list) option option \<Rightarrow> byte list \<Rightarrow> bool" where
  "loopResult q c w n evs fin u \<longleftrightarrow> (case q of (rc, c', w') \<Rightarrow> rc = 0 \<and> upQuiet c w c' w' \<and> queueInv (dataQueue w') \<and>
     (\<exists>ms. qcontents (dataQueue w') = qcontents (dataQueue w) @ ms \<and> map msgView ms = upDelivered (uid c) evs \<and>
       length ms \<le> n) \<and>
     wrote evs c c' \<and> (case fin of None \<Rightarrow> ustate c' = UPSTREAM_CLOSING \<and> bufInv (utx c')
       | Some st' \<Rightarrow> clientRel st' c' \<and> bufData (urx c') = u))"

lemma loopResult_step:
  assumes "upQuiet c w c1 w1" and "queueInv (dataQueue w1)" and "qcontents (dataQueue w1) = qcontents (dataQueue w) @ ms1"
    and "map msgView ms1 = upDelivered (uid c) evs1" and "length ms1 \<le> n1" and "wrote evs1 c c1"
    and "loopResult q c1 w1 n2 evs2 fin u"
  shows "loopResult q c w (n1 + n2) (evs1 @ evs2) fin u"
proof -
  obtain rc c' w' where q: "q = (rc, c', w')" by (metis prod_cases3)
  from assms(7) obtain ms where ms: "qcontents (dataQueue w') = qcontents (dataQueue w1) @ ms"
    "map msgView ms = upDelivered (uid c1) evs2" "length ms \<le> n2" and r: "rc = 0" "upQuiet c1 w1 c' w'" "wrote evs2 c1 c'"
    "queueInv (dataQueue w')" by (auto simp: loopResult_def q)
  have "uid c1 = uid c" using assms(1) by (simp add: upQuiet_def sameUp_fields)
  then show ?thesis
    using assms(3-7) ms r upQuiet_trans [OF assms(1) r(2)] wrote_trans [OF assms(6) r(3)]
    by (auto simp: loopResult_def q upDelivered_append intro!: exI [of _ "ms1 @ ms"])
qed

lemma loopResult_closed:
  "upRefines (UpClose p) r c w (out, c', w') \<Longrightarrow> queueInv (dataQueue w) \<Longrightarrow>
     loopResult (0, c', w') c w n [UpReply WS_OP_CLOSE p] None u"
  using stepKeeps_quiet [of c w c' w'] by (auto simp: upRefines_def loopResult_def upDelivered_def)

lemma clientRel_bufReset: "clientRel None c \<Longrightarrow> clientRel None (c\<lparr>umsg := bufReset (umsg c)\<rparr>)"
  by (simp add: clientRel_def bufInv_bufReset)

lemma processBufferedFrames_receives:
  assumes "clientRel st c" and "calm w" and "queueInv (dataQueue w)" and "list_all frame_valid fs"
    and "bufData (urx c) = concat (map frame_encode fs) @ u" and "upTail conf u g"
    and "qsize (dataQueue w) + length fs \<le> confHigh conf" and "clientReceive conf st (fs @ g) = (evs, fin)"
  shows "loopResult (processBufferedFrames ep conf c w) c w (length fs) evs fin u"
  using assms
proof (induction fs arbitrary: st c w evs)
  case Nil
  then have u: "bufData (urx c) = u" by simp
  from Nil.prems(6) consider (wait) "g = []" "upIncomplete conf u"
    | (early) f where "g = [f]" "refused conf f" "wsParseHeader u = WS_OK (fst f)" "length (snd f) = unat (hPayloadLen (fst f))"
    by (auto simp: upTail_def)
  then show ?case
  proof cases
    case wait
    then have "processBufferedFrames ep conf c w = (0, c, w)"
      using upFrameStep_incomplete [of conf c ep w] u by (simp add: processBufferedFrames.simps [of ep conf c w])
    then show ?thesis using Nil wait
      by (auto simp: loopResult_def upQuiet_refl upDelivered_def)
  next
    case early
    obtain p where p: "clientStep conf st f = UpClose p"
      and ref: "upRefines (clientStep conf st f) [] c w (upFrameStep ep conf c w)"
      using upFrameStep_refused [OF Nil.prems(1,2), of f conf] refused_closes [OF early(2)] early u by blast
    obtain out c1 w1 where step: "upFrameStep ep conf c w = (out, c1, w1)" by (metis prod_cases3)
    have "u \<noteq> []" using early(3) by (auto simp: wsParseHeader_def)
    then have "bufLen (urx c) \<noteq> 0" using u by (metis length_0_conv length_bufData)
    then have "processBufferedFrames ep conf c w = (0, c1, w1)"
      using ref p step by (simp add: processBufferedFrames.simps [of ep conf c w] upRefines_def)
    then show ?thesis using loopResult_closed [of p "[]" c w out c1 w1] ref p step Nil.prems(3,8) early(1) by simp
  qed
next
  case (Cons f fs)
  obtain h p where f: "f = (h, p)" by (cases f)
  let ?r = "concat (map frame_encode fs) @ u"
  obtain out c1 w1 where step: "upFrameStep ep conf c w = (out, c1, w1)" by (metis prod_cases3)
  have ref: "upRefines (clientStep conf st f) ?r c w (out, c1, w1)"
    using upFrameStep_refines [OF Cons.prems(1,2), of h p ?r conf ep] Cons.prems(4,5) step by (simp add: f)
  have "bufData (urx c) \<noteq> []" using Cons.prems(5) by (simp add: frame_encode_nonempty)
  then have some: "bufLen (urx c) \<noteq> 0" by (metis length_0_conv length_bufData)
  show ?case
  proof (cases "clientStep conf st f")
    case (UpClose pl)
    then have "processBufferedFrames ep conf c w = (0, c1, w1)"
      using ref some step by (simp add: upRefines_def processBufferedFrames.simps [of ep conf c w])
    then show ?thesis using loopResult_closed [of pl ?r c w out c1 w1] UpClose ref Cons.prems(3,8) by simp
  next
    case (UpNext st' ev)
    obtain evs' where rec: "clientReceive conf st' (fs @ g) = (evs', fin)"
      and evs: "evs = (case ev of None \<Rightarrow> [] | Some e \<Rightarrow> [e]) @ evs'"
      using Cons.prems(8) UpNext by (auto split: prod.splits option.splits)
    have r1: "clientRel st' c1" "bufData (urx c1) = ?r" "wrote (case ev of None \<Rightarrow> [] | Some e \<Rightarrow> [e]) c c1"
      and keeps: "stepKeeps c w c1 w1" "calm w1" using UpNext ref by (simp_all add: upRefines_def)
    note quiet = stepKeeps_quiet [OF keeps]
    have room: "queueSize (dataQueue w1) < confHigh conf" using Cons.prems(7) quiet by (simp add: queueSize_def)
    have inv1: "queueInv (dataQueue w1)" using quiet Cons.prems(3) by simp
    show ?thesis
    proof (cases "\<exists>op d. ev = Some (UpMsg op d)")
      case True
      then obtain op d where ev: "ev = Some (UpMsg op d)" by blast
      with UpNext ref have o: "out = UpComplete" "st' = None" "uopcode c1 = op" "bufData (umsg c1) = d"
        by (simp_all add: upRefines_def)
      obtain m w2 where pub: "publishReactorMessage ep conf c1 w1 = (0, c1, w2)" "upQuiet c1 w1 c1 w2"
        "queueInv (dataQueue w2)" "qcontents (dataQueue w2) = qcontents (dataQueue w1) @ [m]" "msgView m = (uid c1, op, d)"
        using publish_calm [OF keeps(2) inv1 room, of ep c1] o(3,4) by blast
      let ?c2 = "c1\<lparr>umsg := bufReset (umsg c1)\<rparr>"
      have loop: "processBufferedFrames ep conf c w = processBufferedFrames ep conf ?c2 w2"
        using some step o(1) pub(1) by (simp add: processBufferedFrames.simps [of ep conf c w])
      have q: "upQuiet c w ?c2 w2" using upQuiet_trans [OF conjunct1 [OF quiet] pub(2)] by (simp add: upQuiet_def)
      have "qsize (dataQueue w2) = Suc (qsize (dataQueue w))"
        using length_qcontents [OF pub(3)] length_qcontents [OF Cons.prems(3)] pub(4) quiet by simp
      then have "loopResult (processBufferedFrames ep conf ?c2 w2) ?c2 w2 (length fs) evs' fin u"
        using Cons.IH [OF _ _ pub(3) _ _ Cons.prems(6) _ rec [unfolded o(2)], of ?c2] r1 o(2) clientRel_bufReset [of c1] pub(2) Cons.prems(4,7)
        by (simp add: upQuiet_def)
      from loopResult_step [OF q pub(3) _ _ _ _ this, of "[m]" "[UpMsg op d]" 1] show ?thesis
        using loop evs ev pub(4,5) quiet r1(3) keeps(1) by (simp add: upDelivered_def wrote_def stepKeeps_def sameUp_fields)
    next
      case False
      then have out: "out = UpContinue" and none: "upDelivered (uid c) (case ev of None \<Rightarrow> [] | Some e \<Rightarrow> [e]) = []"
        using UpNext ref by (auto simp: upRefines_def upDelivered_def split: option.splits up_event.splits)
      have loop: "processBufferedFrames ep conf c w = processBufferedFrames ep conf c1 w1"
        using some step out by (simp add: processBufferedFrames.simps [of ep conf c w])
      have "loopResult (processBufferedFrames ep conf c1 w1) c1 w1 (length fs) evs' fin u"
        using Cons.IH [OF r1(1) keeps(2) inv1 _ r1(2) Cons.prems(6) _ rec] Cons.prems(4,7) quiet by simp
      from loopResult_step [OF conjunct1 [OF quiet] inv1 _ _ _ r1(3) this, of "[]" 1] show ?thesis
        using loop evs none quiet by simp
    qed
  qed
qed

subsection \<open>Any segmentation\<close>

lemma upIncomplete_prefix:
  assumes "upIncomplete conf (u @ x)"
  shows "upIncomplete conf u"
proof (cases "wsParseHeader u = WS_NEED_MORE")
  case False
  with assms show ?thesis using wsParseHeader_mono [OF False, of x]
    by (auto simp: upIncomplete_def split: WsRc_t.splits)
qed (simp add: upIncomplete_def)

lemma frame_header:
  assumes "frame_valid f"
  shows "wsParseHeader (frame_encode f @ r) = WS_OK (fst f)"
    and "length (frame_encode f) = hHeaderLen (fst f) + unat (hPayloadLen (fst f))" and "length (snd f) = unat (hPayloadLen (fst f))"
  using assms wsParseHeader_encode [of "fst f"] hdr_encode_length [of "fst f"]
  by (simp_all add: frame_valid_def frame_encode_def)

lemma upIncomplete_no_frame: "frame_valid f \<Longrightarrow> \<not> upIncomplete conf (frame_encode f @ r)"
  using frame_header [of f] by (auto simp: upIncomplete_def)

lemma stream_cut:
  assumes "list_all frame_valid fs" and "upIncomplete conf rest" and "pre @ later = concat (map frame_encode fs) @ rest"
  shows "\<exists>fs1 fs2 u g. fs = fs1 @ fs2 \<and> pre = concat (map frame_encode fs1) @ u \<and>
    u @ later = concat (map frame_encode fs2) @ rest \<and> upTail conf u g \<and> (g = [] \<or> g = [hd fs2] \<and> fs2 \<noteq> [])"
  using assms
proof (induction fs arbitrary: pre)
  case Nil
  then have "upTail conf pre []" using upIncomplete_prefix [of conf pre later] by (simp add: upTail_def)
  then show ?case using Nil by (intro exI [of _ "[]"] exI [of _ pre] conjI) simp_all
next
  case (Cons f fs)
  have f: "frame_valid f" and eq: "pre @ later = frame_encode f @ concat (map frame_encode fs) @ rest" using Cons.prems by simp_all
  show ?case
  proof (cases "length (frame_encode f) \<le> length pre")
    case True
    then obtain pre' where pre: "pre = frame_encode f @ pre'"
      using eq by (metis append_eq_append_conv_if append_take_drop_id)
    then have "pre' @ later = concat (map frame_encode fs) @ rest" using eq by simp
    from Cons.IH [OF _ Cons.prems(2) this] Cons.prems(1) obtain fs1 fs2 u g where
      "fs = fs1 @ fs2 \<and> pre' = concat (map frame_encode fs1) @ u \<and> u @ later = concat (map frame_encode fs2) @ rest \<and>
       upTail conf u g \<and> (g = [] \<or> g = [hd fs2] \<and> fs2 \<noteq> [])" by auto
    then show ?thesis using pre by (intro exI [of _ "f # fs1"] exI [of _ fs2] exI [of _ u] exI [of _ g]) auto
  next
    case False
    have "\<exists>g. upTail conf pre g \<and> (g = [] \<or> g = [f])"
    proof (cases "wsParseHeader pre = WS_NEED_MORE")
      case True
      then show ?thesis by (simp add: upTail_def upIncomplete_def)
    next
      case less: False
      then have "wsParseHeader pre = WS_OK (fst f)"
        using wsParseHeader_mono [OF less, of later] frame_header(1) [OF f] eq by simp
      then have "upTail conf pre (if refused conf f then [f] else [])" using False frame_header(2,3) [OF f]
        by (cases f) (auto simp: upTail_def upIncomplete_def refused_def not_le)
      then show ?thesis by (metis (full_types))
    qed
    then obtain g where "upTail conf pre g" "g = [] \<or> g = [f]" by blast
    then show ?thesis using Cons.prems by (intro exI [of _ "[]"] exI [of _ "f # fs"] exI [of _ pre] exI [of _ g]) auto
  qed
qed

lemma clientReceive_refused: "refused conf f \<Longrightarrow> snd (clientReceive conf st (fs @ [f])) = None"
  by (auto simp: clientReceive_append refused_closes split: prod.split option.split)

text \<open>One call of the frame loop on a prefix of the stream: either the connection closes, and what follows does
  not matter, or the receiver stands before the remaining frames.\<close>

lemma processBufferedFrames_prefix:
  assumes "clientRel st c" and "calm w" and "queueInv (dataQueue w)" and "list_all frame_valid fs" and "upIncomplete conf rest"
    and "bufData (urx c) @ later = concat (map frame_encode fs) @ rest"
    and "qsize (dataQueue w) + length fs \<le> confHigh conf" and "clientReceive conf st fs = (evs, fin)"
  obtains (closes) u where "loopResult (processBufferedFrames ep conf c w) c w (length fs) evs None u" and "fin = None"
  | (goes_on) fs1 fs2 st' evs1 evs2 u where "fs = fs1 @ fs2" and "u @ later = concat (map frame_encode fs2) @ rest"
      and "upIncomplete conf u" and "loopResult (processBufferedFrames ep conf c w) c w (length fs1) evs1 (Some st') u"
      and "clientReceive conf st' fs2 = (evs2, fin)" and "evs = evs1 @ evs2"
proof -
  obtain fs1 fs2 u g where cut: "fs = fs1 @ fs2" "bufData (urx c) = concat (map frame_encode fs1) @ u"
    "u @ later = concat (map frame_encode fs2) @ rest" "upTail conf u g" "g = [] \<or> g = [hd fs2] \<and> fs2 \<noteq> []"
    using stream_cut [OF assms(4-6)] by blast
  obtain evs1 fin1 where rec1: "clientReceive conf st (fs1 @ g) = (evs1, fin1)" by fastforce
  have v1: "list_all frame_valid fs1" using assms(4) cut(1) by simp
  have room: "qsize (dataQueue w) + length fs1 \<le> confHigh conf" using assms(7) cut(1) by simp
  note res = processBufferedFrames_receives [OF assms(1-3) v1 cut(2,4) room rec1, of ep]
  obtain gs where whole: "fs = (fs1 @ g) @ gs" using cut(1,5) by (cases fs2) auto
  show thesis
  proof (cases fin1)
    case None
    then have "evs = evs1" "fin = None" using assms(8) rec1 unfolding whole clientReceive_append by simp_all
    moreover have "length fs1 \<le> length fs" using cut(1) by simp
    ultimately show thesis using res None closes by (auto simp: loopResult_def)
  next
    case (Some st')
    have g: "g = []"
    proof (rule ccontr)
      assume "g \<noteq> []"
      then obtain f where "g = [f]" "refused conf f" using cut(4) by (auto simp: upTail_def)
      then show False using clientReceive_refused [of conf f st fs1] rec1 Some by simp
    qed
    then have whole1: "clientReceive conf st fs1 = (evs1, Some st')" using rec1 Some by simp
    obtain evs2 fin2 where rec2: "clientReceive conf st' fs2 = (evs2, fin2)" by fastforce
    then have "evs = evs1 @ evs2" "fin = fin2"
      using assms(8) whole1 unfolding cut(1) clientReceive_append by simp_all
    then show thesis using goes_on cut res Some rec2 g by (simp add: upTail_def)
  qed
qed

lemma os_recv_calm:
  assumes "os_recv fd k (w :: 'a world_scheme) = (r, w')" and "calm w"
  shows "upQuiet c w c w'" and "dataQueue w' = dataQueue w"
  using assms by (auto simp: os_recv_def upQuiet_def calm_def split: list.splits rx_res.splits if_splits)

lemma loopResult_weaken: "loopResult q c w n evs fin u \<Longrightarrow> n \<le> m \<Longrightarrow> loopResult q c w m evs fin u"
  by (auto simp: loopResult_def)

lemma loopResult_none: "loopResult q c w n evs None u = loopResult q c w n evs None v"
  by (simp add: loopResult_def)

lemma loopResult_append:
  assumes "loopResult (rc, c1, w1) c w n1 evs1 fin1 v" and "loopResult q c1 w1 n2 evs2 fin u"
  shows "loopResult q c w (n1 + n2) (evs1 @ evs2) fin u"
proof -
  from assms(1) obtain ms where "qcontents (dataQueue w1) = qcontents (dataQueue w) @ ms"
    "map msgView ms = upDelivered (uid c) evs1" "length ms \<le> n1" "upQuiet c w c1 w1" "queueInv (dataQueue w1)" "wrote evs1 c c1"
    by (auto simp: loopResult_def)
  then show ?thesis using loopResult_step [OF _ _ _ _ _ _ assms(2)] by blast
qed

lemma upRecvLoop_receives:
  assumes "clientRel st c" and "calm w" and "queueInv (dataQueue w)" and "list_all frame_valid fs" and "upIncomplete conf rest"
    and "bufData (urx c) @ rx_bytes (rxs w (ufd c)) = concat (map frame_encode fs) @ rest" and "upIncomplete conf (bufData (urx c))"
    and "data_only (rxs w (ufd c))" and "qsize (dataQueue w) + length fs \<le> confHigh conf" and "clientReceive conf st fs = (evs, fin)"
  shows "loopResult (upRecvLoop ep conf c w) c w (length fs) evs fin rest"
  using assms
proof (induction "rx_weight (rxs w (ufd c))" arbitrary: st c w fs evs rule: less_induct)
  case less
  obtain r w1 where rcv: "os_recv (ufd c) 8192 w = (r, w1)" by fastforce
  note quiet = os_recv_calm [OF rcv less.prems(2)]
  from os_recv_data_only [OF rcv less.prems(8)]
  consider (empty) "rxs w (ufd c) = []" "r = RxAgain" "w1 = w" | (data) bs where "r = RxData bs" "bs \<noteq> []" "data_only (rxs w1 (ufd c))"
    by auto
  then show ?case
  proof cases
    case empty
    then have loop: "upRecvLoop ep conf c w = (0, c, w)" using rcv by (simp add: upRecvLoop.simps [of ep conf c w])
    have eq: "bufData (urx c) = concat (map frame_encode fs) @ rest" using less.prems(6) empty by simp
    have "fs = []"
    proof (cases fs)
      case (Cons f gs)
      then show ?thesis using upIncomplete_no_frame [of f conf "concat (map frame_encode gs) @ rest"] less.prems(4,7) eq by simp
    qed
    then show ?thesis using loop eq less.prems by (auto simp: loopResult_def upQuiet_refl upDelivered_def)
  next
    case data
    have bytes: "rx_bytes (rxs w (ufd c)) = bs @ rx_bytes (rxs w1 (ufd c))" using os_recv_bytes [of "ufd c" 8192 w bs w1] rcv data by simp
    have calm1: "calm w1" using quiet by (simp add: upQuiet_def)
    obtain b w2 where app: "bufAppend (urx c) bs w1 = (b, w2)" by fastforce
    have inv: "bufInv (urx c)" using less.prems(1) by (simp add: clientRel_def)
    have b: "w2 = w1" "bufData b = bufData (urx c) @ bs" "bufInv b"
      using bufAppend_calm [OF app] bufAppend_view_cases [OF app inv] bufInv_bufAppend [OF app inv] calm1 by (simp_all add: calm_def)
    let ?c = "c\<lparr>urx := b\<rparr>"
    obtain rc c1 w3 where pbf: "processBufferedFrames ep conf ?c w1 = (rc, c1, w3)" by (metis prod_cases3)
    have keep: "rxs w3 = rxs w1" "ufd c1 = ufd c" using processBufferedFrames_rx [OF pbf] by simp_all
    have loop: "upRecvLoop ep conf c w = (if rc < 0 then (-1, c1, w3)
        else if rc = 1 \<or> readPaused c1 \<or> ustate c1 \<noteq> UPSTREAM_OPEN then (0, c1, w3) else upRecvLoop ep conf c1 w3)"
      using rcv data app b(1) pbf by (simp add: upRecvLoop.simps [of ep conf c w])
    have rel: "clientRel st ?c" using less.prems(1) b(3) by (simp add: clientRel_def)
    have inv1: "queueInv (dataQueue w1)" using quiet less.prems(3) by simp
    have pre: "bufData (urx ?c) @ rx_bytes (rxs w1 (ufd c)) = concat (map frame_encode fs) @ rest"
      using less.prems(6) bytes b(2) by simp
    have room: "qsize (dataQueue w1) + length fs \<le> confHigh conf" using less.prems(9) quiet by simp
    have base: "upQuiet c w ?c w1" using quiet(1) [of c] by (simp add: upQuiet_def)
    have lift: "loopResult q c w n es f v" if "loopResult q ?c w1 n es f v" for q n es f v
      using that upQuiet_trans [OF base] quiet(2) by (auto simp: loopResult_def wrote_def split: prod.splits)
    show ?thesis
    proof (rule processBufferedFrames_prefix [OF rel calm1 inv1 less.prems(4,5) pre room less.prems(10), of ep])
      fix u
      assume closes: "loopResult (processBufferedFrames ep conf ?c w1) ?c w1 (length fs) evs None u" "fin = None"
      then have "upRecvLoop ep conf c w = (0, c1, w3)" using loop pbf by (simp add: loopResult_def)
      moreover have "rc = 0" using closes(1) pbf by (simp add: loopResult_def)
      ultimately show ?thesis using lift [OF closes(1)] closes(2) pbf loopResult_none [of _ c w _ evs u rest] by simp
    next
      fix fs1 fs2 st' evs1 evs2 u
      assume goes_on: "fs = fs1 @ fs2" "u @ rx_bytes (rxs w1 (ufd c)) = concat (map frame_encode fs2) @ rest"
        "upIncomplete conf u" "loopResult (processBufferedFrames ep conf ?c w1) ?c w1 (length fs1) evs1 (Some st') u"
        "clientReceive conf st' fs2 = (evs2, fin)" "evs = evs1 @ evs2"
      have res1: "loopResult (rc, c1, w3) c w (length fs1) evs1 (Some st') u" using lift goes_on(4) pbf by simp
      then have r1: "rc = 0" "clientRel st' c1" "bufData (urx c1) = u" "calm w3" "queueInv (dataQueue w3)"
        "qsize (dataQueue w3) \<le> qsize (dataQueue w) + length fs1"
        using length_qcontents [OF less.prems(3)] length_qcontents [of "dataQueue w3"] by (auto simp: loopResult_def upQuiet_def)
      have weight: "rx_weight (rxs w3 (ufd c1)) < rx_weight (rxs w (ufd c))"
        using os_recv_weight [of "ufd c" 8192 w bs w1] rcv data keep by simp
      have go: "upRecvLoop ep conf c w = upRecvLoop ep conf c1 w3" using loop r1(1,2) by (simp add: clientRel_def)
      have "loopResult (upRecvLoop ep conf c1 w3) c1 w3 (length fs2) evs2 fin rest"
        using less.hyps [OF weight r1(2,4,5) _ less.prems(5) _ _ _ _ goes_on(5)] goes_on(1-3) less.prems(4,9) r1(3,6) keep data(3)
        by simp
      from loopResult_append [OF res1 this] show ?thesis using go goes_on(1,6) by simp
    qed
  qed
qed

lemma readUpstreamFrames_main:
  assumes "clientRel st c" and "calm w" and "queueInv (dataQueue w)" and "list_all frame_valid fs" and "upIncomplete conf rest"
    and "bufData (urx c) @ rx_bytes (rxs w (ufd c)) = concat (map frame_encode fs) @ rest"
    and "data_only (rxs w (ufd c))" and "qsize (dataQueue w) + length fs \<le> confHigh conf" and "clientReceive conf st fs = (evs, fin)"
  shows "loopResult (readUpstreamFrames ep conf c w) c w (length fs) evs fin rest"
proof -
  obtain rc c1 w1 where pbf: "processBufferedFrames ep conf c w = (rc, c1, w1)" by (metis prod_cases3)
  note keep = processBufferedFrames_rx [OF pbf]
  have read: "readUpstreamFrames ep conf c w = (if rc < 0 then (-1, c1, w1)
      else if rc = 1 \<or> ustate c1 \<noteq> UPSTREAM_OPEN \<or> readPaused c1 then (0, c1, w1) else upRecvLoop ep conf c1 w1)"
    using pbf by (simp add: readUpstreamFrames_def)
  show ?thesis
  proof (rule processBufferedFrames_prefix [OF assms(1-6,8,9), of ep])
    fix u
    assume closes: "loopResult (processBufferedFrames ep conf c w) c w (length fs) evs None u" "fin = None"
    then have "readUpstreamFrames ep conf c w = (0, c1, w1)" "rc = 0" using read pbf by (simp_all add: loopResult_def)
    then show ?thesis using closes pbf loopResult_none [of _ c w _ evs u rest] by simp
  next
    fix fs1 fs2 st' evs1 evs2 u
    assume goes_on: "fs = fs1 @ fs2" "u @ rx_bytes (rxs w (ufd c)) = concat (map frame_encode fs2) @ rest"
      "upIncomplete conf u" "loopResult (processBufferedFrames ep conf c w) c w (length fs1) evs1 (Some st') u"
      "clientReceive conf st' fs2 = (evs2, fin)" "evs = evs1 @ evs2"
    then have res1: "loopResult (rc, c1, w1) c w (length fs1) evs1 (Some st') u" using pbf by simp
    then have r1: "rc = 0" "clientRel st' c1" "bufData (urx c1) = u" "calm w1" "queueInv (dataQueue w1)"
      "qsize (dataQueue w1) \<le> qsize (dataQueue w) + length fs1"
      using length_qcontents [OF assms(3)] length_qcontents [of "dataQueue w1"] by (auto simp: loopResult_def upQuiet_def)
    have "readUpstreamFrames ep conf c w = upRecvLoop ep conf c1 w1" using read r1(1,2) by (simp add: clientRel_def)
    moreover have "loopResult (upRecvLoop ep conf c1 w1) c1 w1 (length fs2) evs2 fin rest"
      using upRecvLoop_receives [OF r1(2,4,5) _ assms(5) _ _ _ _ goes_on(5)] goes_on(1-3) assms(4,7,8) r1(3,6) keep by simp
    ultimately show ?thesis using loopResult_append [OF res1] goes_on(1,6) by simp
  qed
qed

subsection \<open>Properties\<close>

text \<open>C5: An upstream client is a correct WebSocket receiver, however the network cuts the stream. Let the bytes
  left in the buffer and those that arrived be a sequence of well-formed frames followed by an incomplete
  one, with room in the queue. Then \<open>readUpstreamFrames\<close> does what the abstract client does with these
  frames: it appends exactly the messages they carry (reassembled, in order, under the client's id) to the
  data queue, adds exactly the masked pongs and the masked close frame to the output, starts closing if and
  only if the abstract client closes, otherwise waits in its state with the incomplete bytes kept, and
  leaves the rest of the program's state alone.\<close>

theorem readUpstreamFrames_receives:
  assumes "clientRel st c" and "calm w" and "queueInv (dataQueue w)" and "list_all frame_valid fs" and "upIncomplete conf rest"
    and "bufData (urx c) @ rx_bytes (rxs w (ufd c)) = concat (map frame_encode fs) @ rest"
    and "data_only (rxs w (ufd c))" and "qsize (dataQueue w) + length fs \<le> confHigh conf"
  shows "case clientReceive conf st fs of (evs, fin) \<Rightarrow> case readUpstreamFrames ep conf c w of (rc, c', w') \<Rightarrow>
    rc = 0 \<and> upQuiet c w c' w' \<and>
    map msgView (qcontents (dataQueue w')) = map msgView (qcontents (dataQueue w)) @ upDelivered (uid c) evs \<and>
    (\<exists>bs. bufData (utx c') = bufData (utx c) @ bs \<and> answers evs bs) \<and>
    (case fin of None \<Rightarrow> ustate c' = UPSTREAM_CLOSING | Some st' \<Rightarrow> clientRel st' c' \<and> bufData (urx c') = rest)"
proof -
  obtain evs fin where rec: "clientReceive conf st fs = (evs, fin)" by fastforce
  show ?thesis using readUpstreamFrames_main [OF assms rec, of ep] rec
    by (auto simp: loopResult_def wrote_def split: option.splits)
qed

text \<open>A text frame ``hi'' and a ping of the server, arriving in two pieces on descriptor 6.\<close>

definition open_client :: UpstreamClient_t where
  "open_client = client_zero\<lparr>uid := 1000000, ufd := 6, ustate := UPSTREAM_OPEN\<rparr>"

definition up_world :: world where
  "up_world = recv_world\<lparr>rxs := (\<lambda>_. [])(6 := [RxData [129], RxData [2, 104, 105, 137, 1, 120]])\<rparr>"

definition up_frames :: "(WsFrameHdr_t \<times> byte list) list" where
  "up_frames = [(server_hdr WS_OP_TEXT 2, [104, 105]), (server_hdr WS_OP_PING 1, [120])]"

lemma up_frames_encode:
  "list_all frame_valid up_frames" "concat (map frame_encode up_frames) = [129, 2, 104, 105, 137, 1, 120]"
  by code_simp+

lemma up_frames_receive:
  "clientReceive server_defaults None up_frames = ([UpMsg WS_OP_TEXT [104, 105], UpReply WS_OP_PONG [120]], Some None)"
proof -
  have v: "utf8_valid [104, 105]" by code_simp
  then show ?thesis using utf8_valid_prefix [OF v]
    by (simp add: up_frames_def clientStep_def server_hdr_def ws_op_defs upRes_def dataStep_def)
qed

lemma open_client_fields:
  "clientRel None open_client" "ufd open_client = 6" "uid open_client = 1000000" "bufData (urx open_client) = []"
  "bufData (utx open_client) = []"
  by (simp_all add: open_client_def client_zero_def clientRel_def)

lemma up_world_fields:
  "calm up_world" "dataQueue up_world = createQueue" "rxs up_world 6 = [RxData [129], RxData [2, 104, 105, 137, 1, 120]]"
  by (simp_all add: up_world_def recv_world_def calm_def os_idle_def os.defs conn_world.defs world.defs)

lemma length_up_frames: "length up_frames = 2"
  by (simp add: up_frames_def)

theorem readUpstreamFrames_receives_witness:
  "case readUpstreamFrames 3 server_defaults open_client up_world of (rc, c', w') \<Rightarrow>
    rc = 0 \<and> map msgView (qcontents (dataQueue w')) = [(1000000, WS_OP_TEXT, [104, 105])] \<and>
    (\<exists>mk. length mk = 4 \<and> bufData (utx c') = clientFrame mk WS_OP_PONG [120]) \<and> clientRel None c' \<and> bufData (urx c') = []"
proof -
  have "upIncomplete server_defaults []" by (simp add: upIncomplete_def wsParseHeader_def)
  then show ?thesis
    using readUpstreamFrames_receives [of None open_client up_world up_frames server_defaults "[]" 3] up_frames_encode
      open_client_fields up_world_fields
    by (simp add: up_frames_receive data_only_def upDelivered_def queueInv_create qsize_create length_up_frames
        split: prod.splits)
qed

end
