(* ===== verification/UpstreamSafety.thy ===== *)
theory UpstreamSafety
  imports UpstreamProofs Handlers
begin

section \<open>What the upstream reactor guarantees for every input\<close>

text \<open>
  For arbitrary bytes from the servers, arbitrary failures of \<open>epoll_ctl\<close>, \<open>send\<close>, \<open>recv\<close> and
  \<open>getrandom\<close>, and any events: the invariant \<open>upInv\<close> of a client, and what its operations do to the shared
  state (\<open>reactorKeeps\<close>): they add valid messages to the data queue, never beyond the high watermark.
\<close>

subsection \<open>One frame\<close>

lemma queueMaskedFrame_buf:
  assumes "queueMaskedFrame ep c op p s = (rc, c', s')" and "bufInv (utx c)"
  shows "bufInv (utx c')"
  using assms by (auto simp: queueMaskedFrame_def Let_def split: option.splits prod.splits if_splits dest!: bufInv_bufAppend)

text \<open>A client whose connection is being closed reads no more frames.\<close>

definition upClosed :: "UpstreamClient_t \<Rightarrow> bool" where
  "upClosed c \<longleftrightarrow> ustate c = UPSTREAM_CLOSING \<and> bufInv (urx c) \<and> bufInv (utx c) \<and> bufInv (umsg c) \<and> 0 \<le> ufd c \<and> \<not> readPaused c"

definition upOpen :: "UpstreamClient_t \<Rightarrow> bool" where
  "upOpen c \<longleftrightarrow> (\<exists>st. clientRel st c \<and> dataOp st)"

definition upMessage :: "ServerConfig_t \<Rightarrow> UpstreamClient_t \<Rightarrow> bool" where
  "upMessage conf c \<longleftrightarrow> clientRel None c \<and> uopcode c \<in> {WS_OP_TEXT, WS_OP_BIN} \<and> length (bufData (umsg c)) \<le> maxMessage conf \<and>
     (uopcode c = WS_OP_TEXT \<longrightarrow> utf8_valid (bufData (umsg c)))"

definition stepSafe :: "ServerConfig_t \<Rightarrow> UpstreamClient_t \<Rightarrow> 'a os_scheme \<Rightarrow> up_out \<times> UpstreamClient_t \<times> 'a os_scheme \<Rightarrow> bool" where
  "stepSafe conf c s q \<longleftrightarrow> (case q of (out, c', s') \<Rightarrow> stepKeeps c s c' s' \<and> (case out of
       UpReturn rc \<Rightarrow> upOpen c' \<or> upClosed c' | UpContinue \<Rightarrow> upOpen c' | UpComplete \<Rightarrow> upMessage conf c'))"

lemma upOpen_bufs: "upOpen c \<Longrightarrow> bufInv (urx c) \<and> bufInv (utx c) \<and> bufInv (umsg c) \<and> 0 \<le> ufd c \<and> \<not> readPaused c \<and> ustate c = UPSTREAM_OPEN"
  by (auto simp: upOpen_def clientRel_def uassembled_def)

lemma stepSafe_base: "stepSafe conf c1 s q \<Longrightarrow> stepKeeps c s c1 s \<Longrightarrow> stepSafe conf c s q"
  by (cases q) (auto simp: stepSafe_def intro: stepKeeps_trans)

lemma queueMaskedFrame_safe:
  assumes "queueMaskedFrame ep c op p s = (rc, c', s')" and "clientRel st c"
  shows "clientRel st c' \<and> stepKeeps c s c' s'"
proof -
  have "bufInv (utx c')" using queueMaskedFrame_buf [OF assms(1)] assms(2) by (simp add: clientRel_def)
  moreover have "c' = c\<lparr>utx := utx c'\<rparr>" by (rule queueMaskedFrame_keeps(2) [OF assms(1)])
  moreover have "clientRel st (c\<lparr>utx := utx c'\<rparr>)" using assms(2) calculation(1) by (simp add: clientRel_def)
  ultimately show ?thesis using queueMaskedFrame_keeps(1) [OF assms(1)] by simp
qed

lemma closing_safe:
  assumes "queueMaskedFrame ep (c\<lparr>ustate := UPSTREAM_CLOSING\<rparr>) op p s = (rc, c', s')"
    and "bufInv (urx c)" "bufInv (utx c)" "bufInv (umsg c)" "0 \<le> ufd c" "\<not> readPaused c"
  shows "upClosed c' \<and> stepKeeps c s c' s'"
proof -
  let ?c = "c\<lparr>ustate := UPSTREAM_CLOSING\<rparr>"
  have k: "stepKeeps ?c s c' s'" "c' = ?c\<lparr>utx := utx c'\<rparr>" using queueMaskedFrame_keeps [OF assms(1)] .
  have "bufInv (utx c')" using queueMaskedFrame_buf [OF assms(1)] assms(3) by simp
  then have "upClosed (?c\<lparr>utx := utx c'\<rparr>)" using assms by (simp add: upClosed_def)
  moreover have "stepKeeps c s c' s'" using stepKeeps_trans [OF _ k(1), of c s] by simp
  ultimately show ?thesis using k(2) by simp
qed

lemma upFail_safe:
  assumes "bufInv (urx c)" "bufInv (utx c)" "bufInv (umsg c)" "0 \<le> ufd c" "\<not> readPaused c"
  shows "stepSafe conf c s (upFail ep c code s)"
proof -
  obtain rc c1 s1 where q: "queueMaskedFrame ep (c\<lparr>ustate := UPSTREAM_CLOSING\<rparr>) WS_OP_CLOSE
      [ucast (drop_bit 8 code), ucast code] s = (rc, c1, s1)" by (metis prod_cases3)
  show ?thesis using q closing_safe [OF q assms] by (simp add: stepSafe_def upFail_def beginClose_def)
qed

lemma upOpen_fail: "upOpen c \<Longrightarrow> stepSafe conf c s (upFail ep c code s)"
  using upOpen_bufs by (intro upFail_safe) blast+

lemma upOpen_consume: "upOpen c \<Longrightarrow> upOpen (c\<lparr>urx := bufConsume (urx c) n\<rparr>)"
  by (auto simp: upOpen_def clientRel_def bufInv_bufConsume)

lemma upControl_safe:
  assumes "upOpen c"
  shows "stepSafe conf c s (upControl ep h p n c s)"
proof -
  obtain st where st: "clientRel st c" "dataOp st" using assms by (auto simp: upOpen_def)
  have ping: "stepSafe conf c s (case queueMaskedFrame ep c WS_OP_PONG p s of (rc, c1, s1) \<Rightarrow>
      if rc \<noteq> 0 then (UpReturn (-1), c1, s1) else (UpContinue, c1\<lparr>urx := bufConsume (urx c1) n\<rparr>, s1))"
  proof -
    obtain rc c1 s1 where q: "queueMaskedFrame ep c WS_OP_PONG p s = (rc, c1, s1)" by (metis prod_cases3)
    from queueMaskedFrame_safe [OF q st(1)] st(2) have "upOpen c1" "stepKeeps c s c1 s1" by (auto simp: upOpen_def)
    then show ?thesis using q upOpen_consume [of c1] by (simp add: stepSafe_def)
  qed
  have close: "stepSafe conf c s (case queueMaskedFrame ep (c\<lparr>urx := bufConsume (urx c) n, ustate := UPSTREAM_CLOSING\<rparr>)
      WS_OP_CLOSE p s of (rc, c2, s1) \<Rightarrow> (UpReturn (if rc \<noteq> 0 then -1 else 0), c2, s1))"
  proof -
    let ?c = "c\<lparr>urx := bufConsume (urx c) n\<rparr>"
    obtain rc c2 s1 where q: "queueMaskedFrame ep (?c\<lparr>ustate := UPSTREAM_CLOSING\<rparr>) WS_OP_CLOSE p s = (rc, c2, s1)"
      by (metis prod_cases3)
    have "upClosed c2 \<and> stepKeeps ?c s c2 s1" using closing_safe [OF q] upOpen_bufs [OF assms] by (simp add: bufInv_bufConsume)
    then show ?thesis using q stepKeeps_trans [of c s ?c s c2 s1] by (simp add: stepSafe_def)
  qed
  have pong: "stepSafe conf c s (UpContinue, c\<lparr>urx := bufConsume (urx c) n\<rparr>, s)"
    using upOpen_consume [OF assms] by (simp add: stepSafe_def)
  show ?thesis using close by (simp add: upControl_def Let_def ping pong upOpen_fail [OF assms])
qed

lemma dataStep_sound:
  "dataStep conf fin op acc p = RNext st ev \<Longrightarrow> op \<in> {WS_OP_TEXT, WS_OP_BIN} \<Longrightarrow> dataOp st"
  "dataStep conf fin op acc p = RNext st (Some (EvMsg o' d)) \<Longrightarrow> op \<in> {WS_OP_TEXT, WS_OP_BIN} \<Longrightarrow>
     o' \<in> {WS_OP_TEXT, WS_OP_BIN} \<and> length d \<le> maxMessage conf \<and> (o' = WS_OP_TEXT \<longrightarrow> utf8_valid d)"
  by (auto simp: dataStep_def dataOp_def split: if_splits)

lemma upDataOpen_safe:
  assumes "clientRel (Some (op, acc)) c" and "op \<in> {WS_OP_TEXT, WS_OP_BIN}" and "mallocs s = []"
  shows "stepSafe conf c s (upDataOpen ep conf fin p n c s)"
proof -
  note cases = upDataOpen_cases [OF assms(1,3), where conf = conf and fin = fin and p = p and ep = ep and tot = n]
  show ?thesis
  proof (cases "dataStep conf fin op acc p")
    case (RClose code)
    then obtain c2 where c2: "upDataOpen ep conf fin p n c s = upFail ep c2 code s" "stepKeeps c s c2 s" "utx c2 = utx c"
      "bufInv (urx c2)" "bufInv (umsg c2)" using cases by auto
    have "0 \<le> ufd c2" "\<not> readPaused c2" using assms(1) c2(2) by (simp_all add: stepKeeps_def sameUp_fields clientRel_def)
    moreover have "bufInv (utx c2)" using assms(1) c2(3) by (simp add: clientRel_def)
    ultimately show ?thesis
      using stepSafe_base [OF upFail_safe [OF c2(4) _ c2(5)] c2(2)] c2(1) by simp
  next
    case (RNext st' ev)
    then obtain c2 where c2: "upDataOpen ep conf fin p n c s = (if ev = None then UpContinue else UpComplete, c2, s)"
      "clientRel st' c2" "stepKeeps c s c2 s" "ev \<noteq> None \<longrightarrow> st' = None \<and> ev = Some (EvMsg (uopcode c2) (bufData (umsg c2)))"
      using cases by auto
    show ?thesis
    proof (cases ev)
      case None
      then show ?thesis using RNext c2 dataStep_sound(1) [OF RNext assms(2)] by (auto simp: stepSafe_def upOpen_def)
    next
      case (Some e)
      then have ev: "st' = None" "ev = Some (EvMsg (uopcode c2) (bufData (umsg c2)))" using c2(4) by blast+
      have "upMessage conf c2"
        unfolding upMessage_def using c2(2) ev(1) dataStep_sound(2) [OF RNext [unfolded ev(2)] assms(2)] by blast
      then show ?thesis using c2(1,3) Some by (simp add: stepSafe_def)
    qed
  qed
qed

lemma upFrameStep_safe:
  assumes "upOpen c" and "mallocs s = []"
  shows "stepSafe conf c s (upFrameStep ep conf c s)"
proof -
  obtain st where st: "clientRel st c" "dataOp st" using assms(1) by (auto simp: upOpen_def)
  note fail = upOpen_fail [OF assms(1), of conf s ep]
  have here: "stepSafe conf c s (UpReturn rc, c, s)" for rc using assms(1) by (simp add: stepSafe_def)
  have data: "stepSafe conf c s (upData ep conf h p n c s)" if "hdr_valid h" for h p n
  proof (cases "ufrag c")
    case True
    then obtain op acc where s: "st = Some (op, acc)" "op \<in> {WS_OP_TEXT, WS_OP_BIN}"
      using st by (cases st) (auto simp: clientRel_def dataOp_def)
    then show ?thesis using True fail upDataOpen_safe [OF st(1) [unfolded s(1)] s(2) assms(2)] by (auto simp: upData_def)
  next
    case False
    define c1 where "c1 = c\<lparr>uopcode := hOpcode h, ufrag := True, umsg := bufReset (umsg c), uutf8 := wsUtf8Reset\<rparr>"
    have new: "clientRel (Some (hOpcode h, [])) c1" "stepKeeps c s c1 s"
      using upOpen_bufs [OF assms(1)] by (auto simp: c1_def clientRel_def bufInv_bufReset bufReset_view)
    have "stepSafe conf c s (upDataOpen ep conf fin p n c1 s)" if "hOpcode h \<in> {WS_OP_TEXT, WS_OP_BIN}" for fin
      using stepSafe_base [OF upDataOpen_safe [OF new(1) that assms(2)] new(2)] .
    then show ?thesis using False fail by (auto simp: upData_def c1_def)
  qed
  show ?thesis
  proof (cases "wsParseHeader (bufData (urx c))")
    case (WS_OK h)
    show ?thesis
      by (simp add: upFrameStep_def WS_OK Let_def fail here upControl_safe [OF assms(1)] data [OF wsParseHeader_sound(1) [OF WS_OK]])
  qed (simp_all add: upFrameStep_def fail here)
qed

subsection \<open>The invariant of a client\<close>

text \<open>Nothing of an earlier connection is left.\<close>

definition upFresh :: "UpstreamClient_t \<Rightarrow> bool" where
  "upFresh c \<longleftrightarrow> bufData (urx c) = [] \<and> bufData (utx c) = [] \<and> bufData (umsg c) = [] \<and> \<not> ufrag c \<and> \<not> readPaused c"

definition upBufs :: "UpstreamClient_t \<Rightarrow> bool" where
  "upBufs c \<longleftrightarrow> bufInv (urx c) \<and> bufInv (utx c) \<and> bufInv (umsg c) \<and> reconnectAttempt c \<le> 10 \<and> -1 \<le> ufd c"

definition upInv :: "ServerConfig_t \<Rightarrow> UpstreamClient_t \<Rightarrow> bool" where
  "upInv conf c \<longleftrightarrow> upBufs c \<and> (readPaused c \<longleftrightarrow> upending c \<noteq> None) \<and>
     (\<forall>m. upending c = Some m \<longrightarrow> msgOk conf (uid c) m) \<and>
     (case ustate c of
        UPSTREAM_DISCONNECTED \<Rightarrow> ufd c = -1 \<and> upFresh c
      | UPSTREAM_CONNECTING \<Rightarrow> upFresh c
      | UPSTREAM_HANDSHAKE \<Rightarrow> 0 \<le> ufd c \<and> \<not> ufrag c \<and> \<not> readPaused c
      | UPSTREAM_OPEN \<Rightarrow> 0 \<le> ufd c \<and> (\<exists>st. uassembled st c \<and> dataOp st)
      | UPSTREAM_CLOSING \<Rightarrow> 0 \<le> ufd c \<and> \<not> readPaused c)"

definition sameId :: "UpstreamClient_t \<Rightarrow> UpstreamClient_t \<Rightarrow> bool" where
  "sameId c c' \<longleftrightarrow> uid c' = uid c \<and> uchost c' = uchost c \<and> ucport c' = ucport c \<and> ucpath c' = ucpath c"

definition reactorKeeps :: "ServerConfig_t \<Rightarrow> 'a world_scheme \<Rightarrow> 'a world_scheme \<Rightarrow> bool" where
  "reactorKeeps conf w w' \<longleftrightarrow> conns w' = conns w \<and> regHead w' = regHead w \<and> nextId w' = nextId w \<and> ingest w' = ingest w \<and>
     ctrlQueue w' = ctrlQueue w \<and> agg w' = agg w \<and> world.more w' = world.more w \<and> mallocs w' = [] \<and>
     queueInv (dataQueue w') \<and> qshutdown (dataQueue w') = qshutdown (dataQueue w) \<and>
     (\<exists>ms. qcontents (dataQueue w') = qcontents (dataQueue w) @ ms \<and> list_all (msgValid conf) ms) \<and>
     qsize (dataQueue w') \<le> max (qsize (dataQueue w)) (confHigh conf)"

text \<open>An operation on a client: \<open>ok\<close> says that the client need not be disconnected.\<close>

definition opSafe :: "ServerConfig_t \<Rightarrow> bool \<Rightarrow> UpstreamClient_t \<Rightarrow> 'a world_scheme \<Rightarrow> UpstreamClient_t \<Rightarrow> 'a world_scheme \<Rightarrow> bool" where
  "opSafe conf ok c w c' w' \<longleftrightarrow> upBufs c' \<and> sameId c c' \<and> reactorKeeps conf w w' \<and> (ok \<longrightarrow> upInv conf c')"

lemma sameId_refl [simp]: "sameId c c"
  by (simp add: sameId_def)

lemma sameId_trans: "sameId a b \<Longrightarrow> sameId b c \<Longrightarrow> sameId a c"
  by (simp add: sameId_def)

lemma sameUp_id: "sameUp c c' \<Longrightarrow> sameId c c'"
  by (simp add: sameId_def sameUp_fields)

lemma push_data_shutdown: "qshutdown (dataQueue (snd (push_data m w))) = qshutdown (dataQueue w)"
proof -
  obtain ok w1 where al: "os_alloc w = (ok, w1)" by fastforce
  then have "os.more w1 = os.more w" by (auto simp: os_alloc_def split: list.splits)
  from os_more_world [OF this] show ?thesis by (simp add: push_data_def push_def al qsize_pushLocked)
qed

lemma reactorKeeps_trans:
  assumes "reactorKeeps conf a b" and "reactorKeeps conf b c"
  shows "reactorKeeps conf a c"
proof -
  from assms obtain ms ns where "qcontents (dataQueue b) = qcontents (dataQueue a) @ ms" "list_all (msgValid conf) ms"
    "qcontents (dataQueue c) = qcontents (dataQueue b) @ ns" "list_all (msgValid conf) ns"
    unfolding reactorKeeps_def by (elim exE conjE) (rule that)
  then have "qcontents (dataQueue c) = qcontents (dataQueue a) @ ms @ ns \<and> list_all (msgValid conf) (ms @ ns)" by simp
  moreover have "qsize (dataQueue c) \<le> max (qsize (dataQueue a)) (confHigh conf)" using assms by (auto simp: reactorKeeps_def)
  ultimately show ?thesis using assms unfolding reactorKeeps_def by (intro conjI exI [of _ "ms @ ns"]) simp_all
qed

lemma reactorKeeps_start: "reactorKeeps conf w w' \<Longrightarrow> mallocs w' = [] \<and> queueInv (dataQueue w')"
  by (simp add: reactorKeeps_def)

lemma reactorKeeps_os:
  assumes "os.more w' = os.more (w :: 'a world_scheme)" and "mallocs w' = []" and "queueInv (dataQueue w)"
  shows "reactorKeeps conf w w'"
  using os_more_world [OF assms(1)] assms(2,3) by (simp add: reactorKeeps_def exI [of _ "[]"])

lemma reactorKeeps_refl: "mallocs w = [] \<Longrightarrow> queueInv (dataQueue w) \<Longrightarrow> reactorKeeps conf w w"
  by (rule reactorKeeps_os) simp_all

lemma stepKeeps_reactor:
  "stepKeeps c (w :: 'a world_scheme) c' w' \<Longrightarrow> mallocs w = [] \<Longrightarrow> queueInv (dataQueue w) \<Longrightarrow> reactorKeeps conf w w'"
  by (rule reactorKeeps_os) (simp_all add: stepKeeps_def)

lemma opSafe_trans: "opSafe conf ok a u b v \<Longrightarrow> opSafe conf ok' b v c w \<Longrightarrow> opSafe conf ok' a u c w"
  unfolding opSafe_def using reactorKeeps_trans [of conf u v w] sameId_trans [of a b c] by blast

lemma opSafe_inv: "upInv conf c' \<Longrightarrow> sameId c c' \<Longrightarrow> reactorKeeps conf w w' \<Longrightarrow> opSafe conf ok c w c' w'"
  by (simp add: opSafe_def upInv_def)

lemma upOpen_inv: "upOpen c \<Longrightarrow> upending c = None \<Longrightarrow> reconnectAttempt c \<le> 10 \<Longrightarrow> upInv conf c"
  by (auto simp: upOpen_def clientRel_def upInv_def upBufs_def uassembled_def)

lemma upClosed_inv: "upClosed c \<Longrightarrow> upending c = None \<Longrightarrow> reconnectAttempt c \<le> 10 \<Longrightarrow> upInv conf c"
  by (simp add: upClosed_def upInv_def upBufs_def)

lemma upInv_open:
  "upInv conf c \<Longrightarrow> ustate c = UPSTREAM_OPEN \<Longrightarrow> \<not> readPaused c \<Longrightarrow> upOpen c \<and> upending c = None \<and> reconnectAttempt c \<le> 10"
  by (auto simp: upInv_def upBufs_def upOpen_def clientRel_def)

text \<open>Publishing a complete message: pushed below the watermark, otherwise the client is paused with it.\<close>

lemma publish_safe:
  assumes "upMessage conf c" and "upending c = None" and "reconnectAttempt c \<le> 10" and "mallocs w = []" and "queueInv (dataQueue w)"
    and "publishReactorMessage ep conf c w = (rc, c', w')"
  shows "opSafe conf True c w (c'\<lparr>umsg := bufReset (umsg c')\<rparr>) w'"
    and "rc \<noteq> -1 \<and> rc \<noteq> 1 \<Longrightarrow> upOpen (c'\<lparr>umsg := bufReset (umsg c')\<rparr>) \<and> upending c' = None \<and> reconnectAttempt c' \<le> 10"
    and "rc < 0 \<or> rc = 1 \<or> rc = 0"
proof -
  let ?r = "\<lambda>c. c\<lparr>umsg := bufReset (umsg c)\<rparr>"
  obtain m w1 where new: "msgNewData (uid c) (uopcode c) (bufData (umsg c)) w = (m, w1)" by fastforce
  obtain ts where m: "m = Some \<lparr>mkind = MSG_DATA, srcId = uid c, mopcode = uopcode c, mts = ts, mconn = None, mdata = bufData (umsg c)\<rparr>"
    using msgNewData_made [OF new assms(4)] by blast
  then obtain g where g: "m = Some g" "msgOk conf (uid c) g" using assms(1) by (simp add: upMessage_def msgOk_def)
  have w1: "os.more w1 = os.more w" "mallocs w1 = []" using msgNewData_quiet [OF new] assms(4) by (simp_all add: os_quiet_def)
  note keep1 = reactorKeeps_os [OF w1 assms(5), of conf] and inv1 = os_more_world(5) [OF w1(1)]
  have r: "upOpen (?r c)" using assms(1) clientRel_bufReset [of c] by (auto simp: upMessage_def upOpen_def dataOp_def)
  then have here: "upInv conf (?r c)" using upOpen_inv [of "?r c"] assms(2,3) by simp
  have un: "?r (c\<lparr>upending := None, readPaused := False\<rparr>) = ?r c" using assms(2) upOpen_bufs [OF r] by (cases c) simp
  show "opSafe conf True c w (?r c') w'" "rc \<noteq> -1 \<and> rc \<noteq> 1 \<Longrightarrow> upOpen (?r c') \<and> upending c' = None \<and> reconnectAttempt c' \<le> 10"
    "rc < 0 \<or> rc = 1 \<or> rc = 0"
  proof (atomize (full), cases "confHigh conf \<le> queueSize (dataQueue w1)")
    case True
    let ?p = "c\<lparr>upending := Some g, readPaused := True\<rparr>"
    obtain q w2 where up: "updateEvents ep ?p w1 = (q, w2)" by fastforce
    have "os.more w2 = os.more w1" "mallocs w2 = []" using updateEvents_os [OF up] w1 by simp_all
    then have keep: "reactorKeeps conf w w2" using reactorKeeps_trans [OF keep1 reactorKeeps_os] inv1 assms(5) by simp
    have paused: "upInv conf (?r ?p)"
      using assms(1,3) g(2) by (auto simp: upInv_def upBufs_def upMessage_def clientRel_def bufInv_bufReset dataOp_def intro!: exI [of _ None])
    have "(rc, c', w') = (if q \<noteq> 0 then (-1, c\<lparr>upending := None, readPaused := False\<rparr>, w2) else (1, ?p, w2))"
      using assms(6) new g(1) True up by (simp add: publishReactorMessage_def)
    then show "opSafe conf True c w (?r c') w' \<and> (rc \<noteq> -1 \<and> rc \<noteq> 1 \<longrightarrow> upOpen (?r c') \<and> upending c' = None \<and> reconnectAttempt c' \<le> 10) \<and>
        (rc < 0 \<or> rc = 1 \<or> rc = 0)"
      using here paused un keep opSafe_inv [of conf "?r c" c w w2 True] opSafe_inv [of conf "?r ?p" c w w2 True]
      by (cases "q = 0") (simp_all add: sameId_def)
  next
    case False
    have "queueInv (dataQueue w1)" using inv1 assms(5) by simp
    note p = push_room [OF w1(2) this, of g]
    let ?w2 = "snd (push_data g w1)"
    have size: "qsize (dataQueue ?w2) \<le> max (qsize (dataQueue w1)) (confHigh conf)"
      using p False length_qcontents [of "dataQueue ?w2"] length_qcontents [of "dataQueue w1"] inv1 assms(5)
      by (simp add: queueSize_def)
    have keep2: "reactorKeeps conf w1 ?w2"
      unfolding reactorKeeps_def using p size g(2) push_data_shutdown [of g w1] by (intro conjI exI [of _ "[g]"]) (auto simp: msgValid_def)
    have "(rc, c', w') = (0, c, ?w2)" using assms(6) new g(1) False by (simp add: publishReactorMessage_def)
    then show "opSafe conf True c w (?r c') w' \<and> (rc \<noteq> -1 \<and> rc \<noteq> 1 \<longrightarrow> upOpen (?r c') \<and> upending c' = None \<and> reconnectAttempt c' \<le> 10) \<and>
        (rc < 0 \<or> rc = 1 \<or> rc = 0)"
      using opSafe_inv [OF here _ reactorKeeps_trans [OF keep1 keep2], of c True] r assms(2,3) by (simp add: sameId_def)
  qed
qed

subsection \<open>Reading\<close>

lemma processBufferedFrames_safe:
  "upOpen c \<Longrightarrow> upending c = None \<Longrightarrow> reconnectAttempt c \<le> 10 \<Longrightarrow> mallocs w = [] \<Longrightarrow> queueInv (dataQueue w) \<Longrightarrow>
     processBufferedFrames ep conf c w = (rc, c', w') \<Longrightarrow> opSafe conf True c w c' w'"
proof (induction ep conf c w rule: processBufferedFrames.induct)
  case (1 ep conf c w)
  note start = "1.prems"(1-5)
  show ?case
  proof (cases "0 < bufLen (urx c)")
    case False
    then have "c' = c" "w' = w" using "1.prems"(6) by (simp_all add: processBufferedFrames.simps [of ep conf c w])
    then show ?thesis using opSafe_inv [OF upOpen_inv [OF start(1-3)] sameId_refl reactorKeeps_refl [OF start(4,5)]] by simp
  next
    case True
    obtain out c1 w1 where step: "upFrameStep ep conf c w = (out, c1, w1)" by (metis prod_cases3)
    have safe: "stepSafe conf c w (out, c1, w1)" using upFrameStep_safe [OF start(1,4), of conf ep] step by simp
    then have k: "stepKeeps c w c1 w1" by (simp add: stepSafe_def)
    have keep: "reactorKeeps conf w w1" by (rule stepKeeps_reactor [OF k start(4,5)])
    note next1 = reactorKeeps_start [OF keep]
    have up: "sameUp c c1" using k by (simp add: stepKeeps_def)
    have same: "sameId c c1" "upending c1 = None" "reconnectAttempt c1 \<le> 10"
      using sameUp_id [OF up] sameUp_fields [OF up] start(2,3) by simp_all
    note loop = "1.prems"(6) [unfolded processBufferedFrames.simps [of ep conf c w]]
    show ?thesis
    proof (cases out)
      case (UpReturn q)
      then have "c' = c1" "w' = w1" "upOpen c1 \<or> upClosed c1" using True step loop safe by (simp_all add: stepSafe_def)
      then show ?thesis using opSafe_inv [OF _ same(1) keep] upOpen_inv upClosed_inv same(2,3) by blast
    next
      case UpContinue
      then have "opSafe conf True c1 w1 c' w'"
        using "1.IH"(1) [OF True step [symmetric] refl UpContinue] True step loop safe next1 same by (simp add: stepSafe_def)
      then show ?thesis using same(1) reactorKeeps_trans [OF keep] sameId_trans by (auto simp: opSafe_def)
    next
      case UpComplete
      obtain q c2 w2 where pub: "publishReactorMessage ep conf c1 w1 = (q, c2, w2)" by (metis prod_cases3)
      have "upMessage conf c1" using safe UpComplete by (simp add: stepSafe_def)
      note p = publish_safe [OF this same(2,3) conjunct1 [OF next1] conjunct2 [OF next1] pub]
      let ?c2 = "c2\<lparr>umsg := bufReset (umsg c2)\<rparr>"
      have "opSafe conf True ?c2 w2 c' w' \<or> (c' = ?c2 \<and> w' = w2)"
      proof (cases "q < 0 \<or> q = 1")
        case True
        then show ?thesis using \<open>0 < bufLen (urx c)\<close> step UpComplete pub loop by (auto split: if_splits)
      next
        case False
        then have "q = 0" "processBufferedFrames ep conf ?c2 w2 = (rc, c', w')"
          using True step UpComplete pub loop p(3) by (auto split: if_splits)
        moreover have "mallocs w2 = []" "queueInv (dataQueue w2)" using p(1) reactorKeeps_start by (auto simp: opSafe_def)
        ultimately show ?thesis
          using "1.IH"(2) [OF True step [symmetric] refl UpComplete pub [symmetric] refl] False p(2) by simp
      qed
      then have "opSafe conf True c1 w1 c' w'" using p(1) opSafe_trans by blast
      then show ?thesis using same(1) reactorKeeps_trans [OF keep] sameId_trans by (auto simp: opSafe_def)
    qed
  qed
qed

lemma os_recv_reactor:
  assumes "os_recv fd k (w :: 'a world_scheme) = (r, w1)" and "mallocs w = []" and "queueInv (dataQueue w)"
  shows "reactorKeeps conf w w1"
  using os_recv_frame [OF assms(1)] assms(2,3) by (intro reactorKeeps_os) simp_all

lemma upRecvLoop_safe:
  "upOpen c \<Longrightarrow> upending c = None \<Longrightarrow> reconnectAttempt c \<le> 10 \<Longrightarrow> mallocs w = [] \<Longrightarrow> queueInv (dataQueue w) \<Longrightarrow>
     upRecvLoop ep conf c w = (rc, c', w') \<Longrightarrow> opSafe conf True c w c' w'"
proof (induction ep conf c w rule: upRecvLoop.induct)
  case (1 ep conf c w)
  note start = "1.prems"(1-5)
  obtain r w1 where rcv: "os_recv (ufd c) 8192 w = (r, w1)" by fastforce
  note keep = os_recv_reactor [OF rcv start(4,5), of conf] and here = upOpen_inv [OF start(1-3), of conf]
  note next1 = reactorKeeps_start [OF keep] and stop = opSafe_inv [OF here sameId_refl keep]
  note loop = "1.prems"(6) [unfolded upRecvLoop.simps [of ep conf c w]]
  show ?case
  proof (cases r)
    case (RxData bs)
    show ?thesis
    proof (cases "bs = []")
      case False
      obtain b w2 where app: "bufAppend (urx c) bs w1 = (b, w2)" by fastforce
      obtain q c1 w3 where pbf: "processBufferedFrames ep conf (c\<lparr>urx := b\<rparr>) w2 = (q, c1, w3)" by (metis prod_cases3)
      have b: "w2 = w1" "bufInv b"
        using bufAppend_calm [OF app] bufInv_bufAppend [OF app] next1 upOpen_bufs [OF start(1)] by simp_all
      have "upOpen (c\<lparr>urx := b\<rparr>)" using start(1) b(2) by (auto simp: upOpen_def clientRel_def)
      then have "opSafe conf True (c\<lparr>urx := b\<rparr>) w1 c1 w3"
        using processBufferedFrames_safe [OF _ _ _ _ _ pbf] start(2,3) next1 b(1) by simp
      then have s1: "opSafe conf True c w c1 w3" using reactorKeeps_trans [OF keep] by (auto simp: opSafe_def sameId_def)
      have "upRecvLoop ep conf c1 w3 = (rc, c', w') \<and> \<not> (q < 0 \<or> q = 1 \<or> readPaused c1 \<or> ustate c1 \<noteq> UPSTREAM_OPEN) \<or> (c' = c1 \<and> w' = w3)"
        using loop rcv RxData False app pbf by (auto split: if_splits)
      then show ?thesis
      proof
        assume go: "upRecvLoop ep conf c1 w3 = (rc, c', w') \<and> \<not> (q < 0 \<or> q = 1 \<or> readPaused c1 \<or> ustate c1 \<noteq> UPSTREAM_OPEN)"
        have "upOpen c1 \<and> upending c1 = None \<and> reconnectAttempt c1 \<le> 10" using s1 go upInv_open by (auto simp: opSafe_def)
        moreover have "mallocs w3 = []" "queueInv (dataQueue w3)" using s1 reactorKeeps_start by (auto simp: opSafe_def)
        ultimately have "opSafe conf True c1 w3 c' w'"
          using "1.IH"(1) [OF rcv [symmetric] RxData False app [symmetric] pbf [symmetric] refl] go by simp
        then show ?thesis using s1 opSafe_trans by blast
      qed (use s1 in simp)
    qed (use loop rcv RxData stop in simp)
  next
    case RxIntr
    then have "opSafe conf True c w1 c' w'" using "1.IH"(2) [OF rcv [symmetric] RxIntr] start next1 loop rcv by simp
    then show ?thesis using opSafe_trans [OF stop] by blast
  qed (use loop rcv stop in simp_all)
qed

lemma readUpstreamFrames_safe:
  assumes "upInv conf c" and "ustate c = UPSTREAM_OPEN" and "\<not> readPaused c" and "mallocs w = []" and "queueInv (dataQueue w)"
    and "readUpstreamFrames ep conf c w = (rc, c', w')"
  shows "opSafe conf True c w c' w'"
proof -
  note o = upInv_open [OF assms(1-3)]
  obtain q c1 w1 where pbf: "processBufferedFrames ep conf c w = (q, c1, w1)" by (metis prod_cases3)
  have s1: "opSafe conf True c w c1 w1" using processBufferedFrames_safe [OF _ _ _ assms(4,5) pbf] o by simp
  show ?thesis
  proof (cases "q < 0 \<or> q = 1 \<or> ustate c1 \<noteq> UPSTREAM_OPEN \<or> readPaused c1")
    case True
    then have "c' = c1 \<and> w' = w1" using assms(6) pbf by (auto simp: readUpstreamFrames_def split: if_splits)
    then show ?thesis using s1 by simp
  next
    case False
    then have "upRecvLoop ep conf c1 w1 = (rc, c', w')" using assms(6) pbf by (simp add: readUpstreamFrames_def)
    moreover have "upOpen c1 \<and> upending c1 = None \<and> reconnectAttempt c1 \<le> 10" using s1 False upInv_open by (auto simp: opSafe_def)
    moreover have "mallocs w1 = []" "queueInv (dataQueue w1)" using s1 reactorKeeps_start by (auto simp: opSafe_def)
    ultimately have "opSafe conf True c1 w1 c' w'" using upRecvLoop_safe by blast
    then show ?thesis using s1 opSafe_trans by blast
  qed
qed

subsection \<open>Disconnecting, the handshake and writing\<close>

lemma bumpAttempt_le: "n \<le> 10 \<Longrightarrow> bumpAttempt n \<le> 10"
  by (simp add: bumpAttempt_def inc_le)

lemma upstreamDisconnect_safe:
  fixes w :: "'a world_scheme"
  assumes "upBufs c" and "mallocs w = []" and "queueInv (dataQueue w)" and "upstreamDisconnect ep c w = (c', w')"
  shows "opSafe conf True c w c' w' \<and> ustate c' = UPSTREAM_DISCONNECTED"
proof -
  obtain n w1 where now: "nowMs (if 0 \<le> ufd c then os_close (ufd c) (snd (os_epoll_ctl ep EPOLL_CTL_DEL (ufd c) [] w)) else w) = (n, w1)"
    by fastforce
  have "os.more w1 = os.more w" "mallocs w1 = []"
    using now assms(2) by (auto simp: nowMs_def os_monotonic_def os_close_def os_epoll_ctl_def Let_def split: if_splits list.splits)
  note keep = reactorKeeps_os [OF this assms(3), of conf]
  have c': "c' = c\<lparr>ufd := if 0 \<le> ufd c then -1 else ufd c, urx := bufReset (urx c), utx := bufReset (utx c),
      umsg := bufReset (umsg c), ufrag := False, readPaused := False, upending := None, ustate := UPSTREAM_DISCONNECTED,
      reconnectAttempt := bumpAttempt (reconnectAttempt c), reconnectAtMs := n + reconnectDelayMs (reconnectAttempt c)\<rparr>"
    and w': "w' = w1" using assms(4) now by (simp_all add: upstreamDisconnect_def Let_def)
  have "upInv conf c'" using assms(1) by (simp add: upInv_def c' upBufs_def upFresh_def bufInv_bufReset bufReset_view bumpAttempt_le)
  then show ?thesis using opSafe_inv [OF _ _ keep, of c' c True] by (simp add: sameId_def c' w')
qed

text \<open>An operation that failed, and the disconnection that follows.\<close>

lemma drop_safe:
  assumes "opSafe conf ok c w c1 w1" and "upstreamDisconnect ep c1 w1 = (c', w')"
  shows "opSafe conf True c w c' w'"
proof -
  have "upBufs c1" "mallocs w1 = []" "queueInv (dataQueue w1)" using assms(1) reactorKeeps_start by (auto simp: opSafe_def)
  from upstreamDisconnect_safe [OF this assms(2), of conf] assms(1) show ?thesis using opSafe_trans by blast
qed

lemma updateEvents_reactor:
  assumes "updateEvents ep c (w :: 'a world_scheme) = (rc, w')" and "mallocs w = []" and "queueInv (dataQueue w)"
  shows "reactorKeeps conf w w'" and "rc = 0 \<Longrightarrow> 0 \<le> ufd c"
  using updateEvents_os [OF assms(1)] assms by (auto intro: reactorKeeps_os simp: updateEvents_def split: if_splits)

lemma queueHandshake_safe:
  fixes w :: "'a world_scheme"
  assumes "upInv conf c" and "ustate c = UPSTREAM_CONNECTING" and "mallocs w = []" and "queueInv (dataQueue w)"
    and "queueHandshake ep c w = (rc, c', w')"
  shows "opSafe conf (rc = 0) c w c' w'"
proof -
  obtain r w1 where rnd: "randomBytes 16 w = (r, w1)" by fastforce
  have keep: "reactorKeeps conf w w1" using randomBytes_os [OF rnd] assms(3,4) by (intro reactorKeeps_os) simp_all
  note next1 = reactorKeeps_start [OF keep]
  have bufs: "upBufs c" "\<not> ufrag c" "\<not> readPaused c" "upending c = None"
    using assms(1,2) by (auto simp: upInv_def upFresh_def)
  have fail: "opSafe conf False c w (c\<lparr>expectedAccept := a\<rparr>) w1" "opSafe conf False c w c w1" for a
    using keep bufs(1) by (simp_all add: opSafe_def upBufs_def sameId_def)
  obtain b w2 where app: "bufAppend (bufReset (utx c)) (handshakeText (ucpath c) (uchost c) (ucport c) (base64Encode (the r))) w1 = (b, w2)"
    by fastforce
  have b: "w2 = w1" "bufInv b" using bufAppend_calm [OF app] bufInv_bufAppend [OF app] next1 bufs(1) by (simp_all add: upBufs_def bufInv_bufReset)
  let ?c = "\<lambda>a. c\<lparr>expectedAccept := a, utx := b, ustate := UPSTREAM_HANDSHAKE\<rparr>"
  have ok: "opSafe conf (q = 0) c w (?c a) w3" if up: "updateEvents ep (?c a) w1 = (q, w3)" for a q w3
  proof -
    have k: "reactorKeeps conf w w3" using reactorKeeps_trans [OF keep updateEvents_reactor(1) [OF up]] next1 by simp
    have "upInv conf (?c a)" if "q = 0"
      using updateEvents_reactor(2) [OF up _ _ that] next1 bufs b(2) by (simp add: upInv_def upBufs_def)
    then show ?thesis using k bufs(1) b(2) by (simp add: opSafe_def upBufs_def sameId_def)
  qed
  show ?thesis
    using assms(5) rnd app b(1) fail ok by (auto simp: queueHandshake_def Let_def split: option.splits if_splits prod.splits)
qed

lemma processHandshakeResponse_safe:
  fixes w :: "'a world_scheme"
  assumes "upInv conf c" and "ustate c = UPSTREAM_HANDSHAKE" and "mallocs w = []" and "queueInv (dataQueue w)"
    and "processHandshakeResponse ep conf c w = (rc, c', w')"
  shows "opSafe conf (rc = 0) c w c' w' \<and> (ustate c' = UPSTREAM_HANDSHAKE \<or> ustate c' = UPSTREAM_OPEN) \<and> \<not> readPaused c'"
proof -
  have same: "opSafe conf ok c w c w" for ok using opSafe_inv [OF assms(1) sameId_refl reactorKeeps_refl [OF assms(3,4)]] .
  have bufs: "upBufs c" "\<not> ufrag c" "\<not> readPaused c" "upending c = None" "0 \<le> ufd c"
    using assms(1,2) by (auto simp: upInv_def)
  let ?c = "\<lambda>n. c\<lparr>urx := bufConsume (urx c) n, ustate := UPSTREAM_OPEN, reconnectAttempt := 0\<rparr>"
  have "upInv conf (?c n)" for n
    using bufs by (auto simp: upInv_def upBufs_def bufInv_bufConsume dataOp_def intro!: exI [of _ None])
  then have ok: "opSafe conf True c w (?c n) w2" if "updateEvents ep (?c n) w = (q, w2)" for n q w2
    using opSafe_inv [OF _ _ updateEvents_reactor(1) [OF that assms(3,4)]] by (simp add: sameId_def)
  then have ok': "opSafe conf (q = 0) c w (?c n) w2" if "updateEvents ep (?c n) w = (q, w2)" for n q w2
    using that by (auto simp: opSafe_def)
  show ?thesis
    using assms(5) same ok' bufs(3) assms(2) by (auto simp: processHandshakeResponse_def Let_def split: option.splits if_splits prod.splits)
qed

lemma hsRecvLoop_safe:
  "hsRecvLoop fd b (w :: 'a world_scheme) = (rc, b', w') \<Longrightarrow> bufInv b \<Longrightarrow> mallocs w = [] \<Longrightarrow> queueInv (dataQueue w) \<Longrightarrow>
     bufInv b' \<and> reactorKeeps conf w w'"
proof (induction fd b w rule: hsRecvLoop.induct)
  case (1 fd b w)
  obtain r w1 where rcv: "os_recv fd 4096 w = (r, w1)" by fastforce
  note keep = os_recv_reactor [OF rcv "1.prems"(3,4), of conf]
  note next1 = reactorKeeps_start [OF keep] and loop = "1.prems"(1) [unfolded hsRecvLoop.simps [of fd b w]]
  show ?case
  proof (cases r)
    case (RxData bs)
    show ?thesis
    proof (cases "bs = []")
      case False
      obtain b1 w2 where app: "bufAppend b bs w1 = (b1, w2)" by fastforce
      have b1: "w2 = w1" "bufInv b1" using bufAppend_calm [OF app] bufInv_bufAppend [OF app "1.prems"(2)] next1 by simp_all
      have "hsRecvLoop fd b1 w2 = (rc, b', w')" using loop rcv RxData False app by simp
      from "1.IH"(1) [OF rcv [symmetric] RxData False app [symmetric] this b1(2)] next1 b1(1)
      show ?thesis using reactorKeeps_trans [OF keep] by simp
    qed (use loop rcv RxData keep "1.prems"(2) in simp)
  next
    case RxIntr
    then have "bufInv b' \<and> reactorKeeps conf w1 w'" using "1.IH"(2) [OF rcv [symmetric] RxIntr] "1.prems"(2) next1 loop rcv by simp
    then show ?thesis using reactorKeeps_trans [OF keep] by blast
  qed (use loop rcv keep "1.prems"(2) in simp_all)
qed

lemma readHandshake_safe:
  fixes w :: "'a world_scheme"
  assumes "upInv conf c" and "ustate c = UPSTREAM_HANDSHAKE" and "mallocs w = []" and "queueInv (dataQueue w)"
    and "readHandshake ep conf c w = (rc, c', w')"
  shows "opSafe conf (rc = 0) c w c' w' \<and> (ustate c' = UPSTREAM_HANDSHAKE \<or> ustate c' = UPSTREAM_OPEN) \<and> \<not> readPaused c'"
proof -
  obtain q b w1 where rcv: "hsRecvLoop (ufd c) (urx c) w = (q, b, w1)" by (metis prod_cases3)
  have "bufInv (urx c)" using assms(1) by (simp add: upInv_def upBufs_def)
  from hsRecvLoop_safe [OF rcv this assms(3,4), of conf] have b: "bufInv b" and keep: "reactorKeeps conf w w1" by blast+
  let ?c = "c\<lparr>urx := b\<rparr>"
  have inv: "upInv conf ?c" using assms(1,2) b by (auto simp: upInv_def upBufs_def)
  have first: "opSafe conf ok c w ?c w1" for ok using opSafe_inv [OF inv _ keep] by (simp add: sameId_def)
  show ?thesis
  proof (cases "q = 0")
    case True
    then have "processHandshakeResponse ep conf ?c w1 = (rc, c', w')" using assms(5) rcv by (simp add: readHandshake_def)
    from processHandshakeResponse_safe [OF inv _ _ _ this] reactorKeeps_start [OF keep] assms(2)
    show ?thesis using opSafe_trans [OF first] by simp
  next
    case False
    then have "c' = ?c" "w' = w1" using assms(5) rcv by (simp_all add: readHandshake_def)
    moreover have "\<not> readPaused c" using assms(1,2) by (auto simp: upInv_def)
    ultimately show ?thesis using assms(2) first by simp
  qed
qed

lemma upFlushLoop_safe:
  "upFlushLoop fd b (w :: 'a world_scheme) = (rc, b', w') \<Longrightarrow> bufInv b \<Longrightarrow>
     bufInv b' \<and> (\<exists>n. bufData b' = drop n (bufData b)) \<and> os.more w' = os.more w \<and> mallocs w' = mallocs w"
proof (induction fd b w rule: upFlushLoop.induct)
  case (1 fd b w)
  note loop = "1.prems"(1) [unfolded upFlushLoop.simps [of fd b w]]
  have none: "\<exists>n. bufData b = drop n (bufData b)" by (rule exI [of _ 0]) simp
  show ?case
  proof (cases "0 < bufLen b")
    case True
    obtain r w1 where snd: "os_send fd (bufData b) w = (r, w1)" by fastforce
    note fr = os_send_frame [OF snd]
    show ?thesis
    proof (cases r)
      case (IoN n)
      show ?thesis
      proof (cases "0 < n")
        case sent: True
        have "upFlushLoop fd (bufConsume b n) w1 = (rc, b', w')" using loop True snd IoN sent by simp
        from "1.IH"(1) [OF True snd [symmetric] IoN sent this] "1.prems"(2) fr show ?thesis
          by (auto simp: bufInv_bufConsume bufConsume_view)
      qed (use loop True snd IoN fr "1.prems"(2) none in simp)
    next
      case IoIntr
      have "upFlushLoop fd b w1 = (rc, b', w')" using loop True snd IoIntr by simp
      from "1.IH"(2) [OF True snd [symmetric] IoIntr this "1.prems"(2)] fr show ?thesis by simp
    qed (use loop True snd fr "1.prems"(2) none in simp_all)
  qed (use loop "1.prems"(2) none in simp)
qed

lemma upInv_tx:
  assumes "upInv conf c" and "bufInv b" and "\<exists>n. bufData b = drop n (bufData (utx c))"
  shows "upInv conf (c\<lparr>utx := b\<rparr>)"
  using assms by (auto simp: upInv_def upBufs_def upFresh_def split: UpstreamState_t.splits)

lemma upWritable_safe:
  fixes w :: "'a world_scheme"
  assumes "upInv conf c" and "mallocs w = []" and "queueInv (dataQueue w)" and "upWritable ep events c w = (ok, c', w')"
  shows "opSafe conf True c w c' w' \<and> readPaused c' = readPaused c"
proof (cases "EPOLLOUT \<in> set events \<and> ustate c \<noteq> UPSTREAM_CONNECTING")
  case True
  obtain q b w1 where fl: "upFlushLoop (ufd c) (utx c) w = (q, b, w1)" by (metis prod_cases3)
  have "bufInv (utx c)" using assms(1) by (simp add: upInv_def upBufs_def)
  from upFlushLoop_safe [OF fl this] have b: "bufInv b" "\<exists>n. bufData b = drop n (bufData (utx c))"
    and w1: "os.more w1 = os.more w" "mallocs w1 = []" using assms(2) by simp_all
  note keep = reactorKeeps_os [OF w1 assms(3), of conf]
  let ?c = "c\<lparr>utx := b\<rparr>"
  have inv: "upInv conf ?c" using upInv_tx [OF assms(1) b] .
  obtain q2 w2 where up: "updateEvents ep ?c w1 = (q2, w2)" by fastforce
  have keep2: "reactorKeeps conf w w2"
    using reactorKeeps_trans [OF keep updateEvents_reactor(1) [OF up]] reactorKeeps_start [OF keep] by simp
  have "c' = ?c \<and> (w' = w1 \<or> w' = w2)"
    using assms(4) True fl up by (auto simp: upWritable_def flushUpstreamTx_def Let_def split: if_splits)
  then show ?thesis using opSafe_inv [OF inv _ keep, of c True] opSafe_inv [OF inv _ keep2, of c True] by (auto simp: sameId_def)
next
  case False
  then show ?thesis
    using assms opSafe_inv [OF assms(1) sameId_refl reactorKeeps_refl [OF assms(2,3)]] by (auto simp: upWritable_def)
qed

subsection \<open>Events\<close>

lemma upReadable_safe:
  fixes w :: "'a world_scheme"
  assumes "upInv conf c" and "mallocs w = []" and "queueInv (dataQueue w)" and "readPaused c \<Longrightarrow> EPOLLIN \<notin> set events"
    and "upReadable ep conf events c w = (ok, c', w')"
  shows "opSafe conf ok c w c' w'"
proof -
  have same: "opSafe conf True c w c w" using opSafe_inv [OF assms(1) sameId_refl reactorKeeps_refl [OF assms(2,3)]] .
  obtain rc c1 w1 where first: "(if EPOLLIN \<in> set events \<and> ustate c = UPSTREAM_HANDSHAKE then readHandshake ep conf c w else (0, c, w)) = (rc, c1, w1)"
    by (metis prod_cases3)
  have s1: "opSafe conf (rc = 0) c w c1 w1 \<and> (EPOLLIN \<in> set events \<longrightarrow> \<not> readPaused c1)"
  proof (cases "EPOLLIN \<in> set events \<and> ustate c = UPSTREAM_HANDSHAKE")
    case True
    then show ?thesis using readHandshake_safe [OF assms(1) _ assms(2,3), of ep rc c1 w1] first by simp
  next
    case False
    then have "c1 = c" "w1 = w" using first by auto
    then show ?thesis using same assms(4) by (auto simp: opSafe_def)
  qed
  show ?thesis
  proof (cases "rc = 0")
    case False
    then show ?thesis using assms(5) first s1 by (auto simp: upReadable_def Let_def opSafe_def)
  next
    case True
    then have inv1: "upInv conf c1" "mallocs w1 = []" "queueInv (dataQueue w1)" and step1: "opSafe conf True c w c1 w1"
      using s1 reactorKeeps_start by (auto simp: opSafe_def)
    obtain q c2 w2 where second: "(if EPOLLIN \<in> set events \<and> ustate c1 = UPSTREAM_OPEN then readUpstreamFrames ep conf c1 w1 else (0, c1, w1)) = (q, c2, w2)"
      by (metis prod_cases3)
    have "opSafe conf True c1 w1 c2 w2"
    proof (cases "EPOLLIN \<in> set events \<and> ustate c1 = UPSTREAM_OPEN")
      case True
      then show ?thesis using readUpstreamFrames_safe [OF inv1(1) _ _ inv1(2,3), of ep q c2 w2] second s1 by simp
    next
      case False
      then have "c2 = c1" "w2 = w1" using second by auto
      then show ?thesis using opSafe_inv [OF inv1(1) sameId_refl reactorKeeps_refl [OF inv1(2,3)]] by simp
    qed
    then have "opSafe conf True c w c2 w2" using opSafe_trans step1 by blast
    moreover have "c' = c2" "w' = w2" using assms(5) first second True by (auto simp: upReadable_def Let_def split: if_splits)
    ultimately show ?thesis by (simp add: opSafe_def)
  qed
qed

text \<open>The kernel reports no input on a descriptor that is not registered for it.\<close>

lemma handleUpstreamEvent_safe:
  fixes w :: "'a world_scheme"
  assumes "upInv conf c" and "mallocs w = []" and "queueInv (dataQueue w)" and "readPaused c \<Longrightarrow> EPOLLIN \<notin> set events"
    and "handleUpstreamEvent ep conf err events c w = (c', w')"
  shows "opSafe conf True c w c' w'"
proof -
  have same: "opSafe conf True c w c w" using opSafe_inv [OF assms(1) sameId_refl reactorKeeps_refl [OF assms(2,3)]] .
  obtain q c1 w1 where hs: "queueHandshake ep c w = (q, c1, w1)" by (metis prod_cases3)
  obtain ok2 c2 w2 where wr: "upWritable ep events c w = (ok2, c2, w2)" by (metis prod_cases3)
  obtain ok3 c3 w3 where rd: "upReadable ep conf events c2 w2 = (ok3, c3, w3)" by (metis prod_cases3)
  note s2 = upWritable_safe [OF assms(1-3) wr]
  then have inv2: "upInv conf c2" "mallocs w2 = []" "queueInv (dataQueue w2)" using reactorKeeps_start by (auto simp: opSafe_def)
  have s3: "opSafe conf ok3 c w c3 w3" using opSafe_trans [OF conjunct1 [OF s2] upReadable_safe [OF inv2 _ rd]] s2 assms(4) by simp
  consider (err) "EPOLLERR \<in> set events" | (conn) "EPOLLERR \<notin> set events" "EPOLLOUT \<in> set events \<and> ustate c = UPSTREAM_CONNECTING"
    | (rest) "EPOLLERR \<notin> set events" "\<not> (EPOLLOUT \<in> set events \<and> ustate c = UPSTREAM_CONNECTING)" by blast
  then show ?thesis
  proof cases
    case err
    then show ?thesis using assms(5) drop_safe [OF same] by (simp add: handleUpstreamEvent_def)
  next
    case conn
    have s1: "opSafe conf (q = 0) c w c1 w1" using queueHandshake_safe [OF assms(1) _ assms(2,3) hs] conn by simp
    have "upstreamDisconnect ep c w = (c', w') \<or> upstreamDisconnect ep c1 w1 = (c', w') \<or> (q = 0 \<and> c' = c1 \<and> w' = w1)"
      using assms(5) conn hs by (auto simp: handleUpstreamEvent_def split: if_splits)
    then show ?thesis using drop_safe [OF same] drop_safe [OF s1] s1 by auto
  next
    case rest
    then have "upstreamDisconnect ep c2 w2 = (c', w') \<or> upstreamDisconnect ep c3 w3 = (c', w') \<or> (ok3 \<and> c' = c3 \<and> w' = w3)"
      using assms(5) wr rd by (auto simp: handleUpstreamEvent_def split: if_splits)
    then show ?thesis using drop_safe [OF conjunct1 [OF s2]] drop_safe [OF s3] s3 by auto
  qed
qed

subsection \<open>The thread's other steps\<close>

lemma msgOk_valid: "msgOk conf i m \<Longrightarrow> msgValid conf m"
  by (auto simp: msgValid_def)

lemma push_data_reactor:
  assumes "mallocs w = []" and "queueInv (dataQueue w)" and "\<not> confHigh conf \<le> queueSize (dataQueue w)" and "msgValid conf m"
  shows "reactorKeeps conf w (snd (push_data m w))"
proof -
  note p = push_room [OF assms(1,2), of m]
  have "qsize (dataQueue (snd (push_data m w))) \<le> max (qsize (dataQueue w)) (confHigh conf)"
    using p assms(3) length_qcontents [of "dataQueue (snd (push_data m w))"] length_qcontents [OF assms(2)]
    by (simp add: queueSize_def)
  with p assms(4) push_data_shutdown [of m w] show ?thesis unfolding reactorKeeps_def by (intro conjI exI [of _ "[m]"]) auto
qed

lemma resumeLoop_safe:
  fixes w :: "'a world_scheme"
  shows "resumeLoop ep conf cs w = (cs', w') \<Longrightarrow> list_all (upInv conf) cs \<Longrightarrow> mallocs w = [] \<Longrightarrow> queueInv (dataQueue w) \<Longrightarrow>
    list_all (upInv conf) cs' \<and> list_all2 sameId cs cs' \<and> reactorKeeps conf w w'"
proof (induction ep conf cs w arbitrary: cs' w' rule: resumeLoop.induct)
  case (1 ep conf w)
  then show ?case by (simp add: reactorKeeps_refl)
next
  case (2 ep conf c cs w)
  have c: "upInv conf c" and cs: "list_all (upInv conf) cs" using "2.prems"(2) by simp_all
  show ?case
  proof (cases "readPaused c \<and> \<not> confHigh conf \<le> queueSize (dataQueue w)")
    case False
    show ?thesis
    proof (cases "readPaused c")
      case True
      then have "cs' = c # cs" "w' = w" using "2.prems"(1) False by simp_all
      then show ?thesis using c cs reactorKeeps_refl [OF "2.prems"(3,4)] by (simp add: list_all2_refl)
    next
      case False
      obtain cs2 w2 where rest: "resumeLoop ep conf cs w = (cs2, w2)" by fastforce
      from "2.IH"(1) [OF _ rest cs "2.prems"(3,4)] False have "list_all (upInv conf) cs2 \<and> list_all2 sameId cs cs2 \<and> reactorKeeps conf w w2"
        by simp
      then show ?thesis using "2.prems"(1) False rest c by auto
    qed
  next
    case True
    then obtain m where m: "upending c = Some m" "msgOk conf (uid c) m" using c by (auto simp: upInv_def)
    let ?w1 = "snd (push_data m w)" and ?c1 = "c\<lparr>upending := None, readPaused := False\<rparr>"
    have k1: "reactorKeeps conf w ?w1" using push_data_reactor [OF "2.prems"(3,4) _ msgOk_valid [OF m(2)]] True by simp
    have open1: "ustate c = UPSTREAM_OPEN" using c True by (auto simp: upInv_def upFresh_def split: UpstreamState_t.splits)
    then have o: "upOpen ?c1" "upending ?c1 = None" "reconnectAttempt ?c1 \<le> 10"
      using c by (auto simp: upInv_def upBufs_def upOpen_def clientRel_def)
    obtain q w2 where up: "updateEvents ep ?c1 ?w1 = (q, w2)" by fastforce
    have k2: "reactorKeeps conf w w2"
      using reactorKeeps_trans [OF k1 updateEvents_reactor(1) [OF up]] reactorKeeps_start [OF k1] by simp
    have s2: "opSafe conf True c w ?c1 w2" using opSafe_inv [OF upOpen_inv [OF o] _ k2] by (simp add: sameId_def)
    obtain p c2 w3 where pbf: "processBufferedFrames ep conf ?c1 w2 = (p, c2, w3)" by (metis prod_cases3)
    have s3: "opSafe conf True c w c2 w3"
      using opSafe_trans [OF s2 processBufferedFrames_safe [OF o _ _ pbf]] reactorKeeps_start [OF k2] by simp
    define r where "r = (if q \<noteq> 0 then upstreamDisconnect ep ?c1 w2 else if p < 0 then upstreamDisconnect ep c2 w3 else (c2, w3))"
    obtain c3 w4 where r: "r = (c3, w4)" by fastforce
    have s4: "opSafe conf True c w c3 w4"
      using drop_safe [OF s2, of ep] drop_safe [OF s3, of ep] s3 r by (auto simp: r_def split: if_splits)
    obtain cs2 w5 where rest: "resumeLoop ep conf cs w4 = (cs2, w5)" by fastforce
    have res: "cs' = c3 # cs2" "w' = w5" using "2.prems"(1) True m(1) up pbf r rest by (simp_all add: r_def split: if_splits)
    have "mallocs w4 = []" "queueInv (dataQueue w4)" using s4 reactorKeeps_start by (auto simp: opSafe_def)
    moreover have "(if q \<noteq> 0 then upstreamDisconnect ep ?c1 w2 else case processBufferedFrames ep conf ?c1 w2 of
        (rc, c2, w3) \<Rightarrow> if rc < 0 then upstreamDisconnect ep c2 w3 else (c2, w3)) = (c3, w4)"
      using r pbf by (simp add: r_def split: if_splits)
    ultimately have "list_all (upInv conf) cs2 \<and> list_all2 sameId cs cs2 \<and> reactorKeeps conf w4 w5"
      using "2.IH"(2) [of ?w1 ?c1] True m(1) up rest cs by simp
    then show ?thesis using s4 res reactorKeeps_trans by (auto simp: opSafe_def)
  qed
qed

lemma connectLoop_os: "connectLoop rs s = (fd, s1) \<Longrightarrow> os.more s1 = os.more s \<and> mallocs s1 = mallocs s"
  by (induction rs s rule: connectLoop.induct) (auto simp: os_close_def)

lemma upstreamConnect_safe:
  fixes w :: "'a world_scheme"
  assumes "upInv conf c" and "ustate c = UPSTREAM_DISCONNECTED" and "mallocs w = []" and "queueInv (dataQueue w)"
    and "upstreamConnect ep addrs c w = (rc, c', w')"
  shows "opSafe conf True c w c' w'"
proof (cases addrs)
  case None
  then show ?thesis using assms(5) opSafe_inv [OF assms(1) sameId_refl reactorKeeps_refl [OF assms(3,4)]] by (simp add: upstreamConnect_def)
next
  case (Some rs)
  obtain fd w1 where loop: "connectLoop rs w = (fd, w1)" by fastforce
  have w1: "os.more w1 = os.more w" "mallocs w1 = []" using connectLoop_os [OF loop] assms(3) by simp_all
  have c1: "upInv conf (c\<lparr>ufd := f, ustate := UPSTREAM_CONNECTING\<rparr>)" if "-1 \<le> f" for f
    using assms(1,2) that by (auto simp: upInv_def upBufs_def upFresh_def)
  have w': "os.more w' = os.more w \<and> mallocs w' = []"
    using assms(5) Some loop w1 by (auto simp: upstreamConnect_def Let_def os_epoll_ctl_def os_close_def split: if_splits list.splits)
  then have keep: "reactorKeeps conf w w'" using assms(4) by (intro reactorKeeps_os) simp_all
  have "c' = c \<or> 0 \<le> fd \<and> c' = c\<lparr>ufd := fd, ustate := UPSTREAM_CONNECTING\<rparr> \<or> c' = c\<lparr>ufd := -1, ustate := UPSTREAM_CONNECTING\<rparr>"
    using assms(5) Some loop by (auto simp: upstreamConnect_def Let_def split: if_splits prod.splits)
  then show ?thesis using opSafe_inv [OF _ _ keep, of c' c True] c1 assms(1) by (auto simp: sameId_def)
qed

lemma reconnectLoop_safe:
  fixes w :: "'a world_scheme"
  shows "reconnectLoop ep now ans cs w = (cs', w') \<Longrightarrow> list_all (upInv conf) cs \<Longrightarrow> mallocs w = [] \<Longrightarrow> queueInv (dataQueue w) \<Longrightarrow>
    list_all (upInv conf) cs' \<and> list_all2 sameId cs cs' \<and> reactorKeeps conf w w'"
proof (induction ep now ans cs w arbitrary: cs' w' rule: reconnectLoop.induct)
  case (1 ep now ans w)
  then show ?case by (simp add: reactorKeeps_refl)
next
  case (2 ep now ans c cs w)
  have c: "upInv conf c" and cs: "list_all (upInv conf) cs" using "2.prems"(2) by simp_all
  show ?case
  proof (cases "ustate c \<noteq> UPSTREAM_DISCONNECTED \<or> now < reconnectAtMs c")
    case True
    obtain cs2 w2 where rest: "reconnectLoop ep now ans cs w = (cs2, w2)" by fastforce
    from "2.IH"(1) [OF True rest cs "2.prems"(3,4)] show ?thesis using "2.prems"(1) True rest c by auto
  next
    case False
    obtain addrs as where ans: "(case ans of [] \<Rightarrow> (None, []) | a # as \<Rightarrow> (a, as)) = (addrs, as)" by fastforce
    obtain q c1 w1 where con: "upstreamConnect ep addrs c w = (q, c1, w1)" by (metis prod_cases3)
    have s1: "opSafe conf True c w c1 w1" using upstreamConnect_safe [OF c _ "2.prems"(3,4) con] False by simp
    then have w1: "mallocs w1 = []" "queueInv (dataQueue w1)" using reactorKeeps_start by (auto simp: opSafe_def)
    define c2 where "c2 = (if q \<noteq> 0 then c1\<lparr>reconnectAttempt := bumpAttempt (reconnectAttempt c1),
      reconnectAtMs := now + reconnectDelayMs (reconnectAttempt c1)\<rparr> else c1)"
    have c2: "upInv conf c2" "sameId c c2" using s1
      by (auto simp: c2_def opSafe_def upInv_def upBufs_def upFresh_def sameId_def bumpAttempt_le split: UpstreamState_t.splits)
    obtain cs2 w2 where rest: "reconnectLoop ep now as cs w1 = (cs2, w2)" by fastforce
    have "list_all (upInv conf) cs2 \<and> list_all2 sameId cs cs2 \<and> reactorKeeps conf w1 w2"
      using "2.IH"(2) [OF False ans [symmetric] refl con [symmetric] refl refl] rest cs w1 by simp
    moreover have "cs' = c2 # cs2" "w' = w2" using "2.prems"(1) False ans con rest by (simp_all add: c2_def)
    ultimately show ?thesis using c2 s1 reactorKeeps_trans by (auto simp: opSafe_def)
  qed
qed

definition reactorOk :: "ServerConfig_t \<Rightarrow> UpstreamReactor_t \<Rightarrow> bool" where
  "reactorOk conf r \<longleftrightarrow> list_all (upInv conf) (upClients r)"

definition sameClients :: "UpstreamReactor_t \<Rightarrow> UpstreamReactor_t \<Rightarrow> bool" where
  "sameClients r r' \<longleftrightarrow> list_all2 sameId (upClients r) (upClients r') \<and> upEpollfd r' = upEpollfd r"

lemma sameClients_trans: "sameClients a b \<Longrightarrow> sameClients b c \<Longrightarrow> sameClients a c"
  by (auto simp: sameClients_def intro: list_all2_trans [OF sameId_trans])

text \<open>The events are those of clients of the reactor, and no input is reported for a paused one.\<close>

fun upEventsOk :: "ServerConfig_t \<Rightarrow> (nat \<times> ep_flag list \<times> int option) list \<Rightarrow> UpstreamReactor_t \<Rightarrow> 'a world_scheme \<Rightarrow> bool" where
  "upEventsOk conf [] r w \<longleftrightarrow> True"
| "upEventsOk conf (e # es) r w \<longleftrightarrow> fst e < length (upClients r) \<and>
     \<not> (readPaused (upClients r ! fst e) \<and> EPOLLIN \<in> set (fst (snd e))) \<and>
     (case reactorEvent conf e (r, w) of (r', w') \<Rightarrow> upEventsOk conf es r' w')"

lemma reactorEvent_safe:
  fixes w :: "'a world_scheme"
  assumes "reactorOk conf r" and "mallocs w = []" and "queueInv (dataQueue w)" and "fst e < length (upClients r)"
    and "\<not> (readPaused (upClients r ! fst e) \<and> EPOLLIN \<in> set (fst (snd e)))" and "reactorEvent conf e (r, w) = (r', w')"
  shows "reactorOk conf r' \<and> sameClients r r' \<and> reactorKeeps conf w w'"
proof -
  obtain i events err where e: "e = (i, events, err)" by (metis prod_cases3)
  obtain c w1 where ev: "handleUpstreamEvent (upEpollfd r) conf err events (upClients r ! i) w = (c, w1)" by fastforce
  have "upInv conf (upClients r ! i)" using assms(1,4) by (simp add: reactorOk_def e list_all_length)
  then have s: "opSafe conf True (upClients r ! i) w c w1" using handleUpstreamEvent_safe [OF _ assms(2,3) _ ev] assms(5) e by simp
  have res: "r' = r\<lparr>upClients := (upClients r)[i := c]\<rparr>" "w' = w1" using assms(6) ev by (simp_all add: reactorEvent_def e)
  have "list_all2 sameId (upClients r) ((upClients r)[i := c])"
    using s assms(4) e by (auto simp: list_all2_conv_all_nth nth_list_update opSafe_def)
  then show ?thesis using s assms(1) res
    by (auto simp: reactorOk_def sameClients_def opSafe_def list_all_iff dest!: set_update_subset_insert [THEN subsetD])
qed

lemma reactorEvents_safe:
  fixes w :: "'a world_scheme"
  shows "upEventsOk conf es r w \<Longrightarrow> reactorOk conf r \<Longrightarrow> mallocs w = [] \<Longrightarrow> queueInv (dataQueue w) \<Longrightarrow>
    fold (reactorEvent conf) es (r, w) = (r', w') \<Longrightarrow> reactorOk conf r' \<and> sameClients r r' \<and> reactorKeeps conf w w'"
proof (induction es arbitrary: r w)
  case Nil
  then show ?case by (simp add: sameClients_def list_all2_refl reactorKeeps_refl)
next
  case (Cons e es)
  obtain r1 w1 where e: "reactorEvent conf e (r, w) = (r1, w1)" by fastforce
  have s: "reactorOk conf r1 \<and> sameClients r r1 \<and> reactorKeeps conf w w1"
    using reactorEvent_safe [OF Cons.prems(2-4) _ _ e] Cons.prems(1) by simp
  have "reactorOk conf r' \<and> sameClients r1 r' \<and> reactorKeeps conf w1 w'"
    using Cons.IH [of r1 w1] Cons.prems(1,5) s e reactorKeeps_start by auto
  then show ?case using s sameClients_trans reactorKeeps_trans by blast
qed

text \<open>What the kernel promises of the answers to one round.\<close>

definition roundOk :: "ServerConfig_t \<Rightarrow> connect_res list option list \<Rightarrow> reactor_wait \<Rightarrow> UpstreamReactor_t \<Rightarrow> 'a world_scheme \<Rightarrow> bool" where
  "roundOk conf ans wait r w = (case reconnectClients ans r w of (r1, w1) \<Rightarrow> case resumePausedClients conf r1 w1 of (r2, w2) \<Rightarrow>
     (case wait of WaitEvents es \<Rightarrow> upEventsOk conf es r2 w2 | _ \<Rightarrow> True))"

lemma reactorRound_safe:
  fixes w :: "'a world_scheme"
  assumes "reactorOk conf r" and "mallocs w = []" and "queueInv (dataQueue w)" and "roundOk conf ans wait r w"
    and "reactorRound conf ans wait r w = (on, r', w')"
  shows "reactorOk conf r' \<and> sameClients r r' \<and> reactorKeeps conf w w'"
proof -
  obtain now w0 where now: "nowMs w = (now, w0)" by fastforce
  have "os.more w0 = os.more w" "mallocs w0 = []"
    using now assms(2) by (auto simp: nowMs_def os_monotonic_def split: list.splits)
  then have k0: "reactorKeeps conf w w0" using assms(3) by (intro reactorKeeps_os)
  note n0 = reactorKeeps_start [OF k0]
  obtain cs w1 where con: "reconnectLoop (upEpollfd r) now ans (upClients r) w0 = (cs, w1)" by fastforce
  have c1: "list_all (upInv conf) cs \<and> list_all2 sameId (upClients r) cs \<and> reactorKeeps conf w0 w1"
    using reconnectLoop_safe [OF con] assms(1) n0 by (simp add: reactorOk_def)
  let ?r1 = "r\<lparr>upClients := cs\<rparr>"
  have r1: "reconnectClients ans r w = (?r1, w1)" using now con by (simp add: reconnectClients_def)
  have s1: "reactorOk conf ?r1" "sameClients r ?r1" "reactorKeeps conf w w1"
    using c1 reactorKeeps_trans [OF k0] by (simp_all add: reactorOk_def sameClients_def)
  note n1 = reactorKeeps_start [OF s1(3)]
  obtain r2 w2 where res: "resumePausedClients conf ?r1 w1 = (r2, w2)" by fastforce
  have s2: "reactorOk conf r2 \<and> sameClients ?r1 r2 \<and> reactorKeeps conf w1 w2"
  proof (cases "confLow conf < queueSize (dataQueue w1)")
    case True
    then have "r2 = ?r1" "w2 = w1" using res by (simp_all add: resumePausedClients_def)
    then show ?thesis using s1(1) n1 by (simp add: sameClients_def list_all2_refl reactorKeeps_refl)
  next
    case False
    obtain ds w3 where loop: "resumeLoop (upEpollfd r) conf cs w1 = (ds, w3)" by fastforce
    then have "r2 = r\<lparr>upClients := ds\<rparr>" "w2 = w3" using False res by (simp_all add: resumePausedClients_def)
    then show ?thesis using resumeLoop_safe [OF loop] c1 n1 by (simp add: reactorOk_def sameClients_def)
  qed
  have "reactorOk conf r' \<and> sameClients r2 r' \<and> reactorKeeps conf w2 w'"
  proof (cases wait)
    case (WaitEvents es)
    moreover obtain r3 w3 where "fold (reactorEvent conf) es (r2, w2) = (r3, w3)" by fastforce
    ultimately show ?thesis
      using assms(4,5) r1 res reactorEvents_safe [of conf es r2 w2 r3 w3] s2 reactorKeeps_start
      by (auto simp: reactorRound_def roundOk_def)
  qed (use assms(5) r1 res s2 reactorKeeps_start in \<open>auto simp: reactorRound_def sameClients_def list_all2_refl intro!: reactorKeeps_refl\<close>)
  then show ?thesis using s1 s2 sameClients_trans reactorKeeps_trans by blast
qed

fun roundsOk :: "ServerConfig_t \<Rightarrow> (bool \<times> connect_res list option list \<times> reactor_wait) list \<Rightarrow> UpstreamReactor_t \<Rightarrow>
    'a world_scheme \<Rightarrow> bool" where
  "roundsOk conf [] r w \<longleftrightarrow> True"
| "roundsOk conf ((stop, ans, wait) # rounds) r w \<longleftrightarrow> stop \<or> (roundOk conf ans wait r w \<and>
     (case reactorRound conf ans wait r w of (on, r1, w1) \<Rightarrow> roundsOk conf rounds r1 w1))"

lemma upstreamReactorThread_safe:
  fixes w :: "'a world_scheme"
  shows "upstreamReactorThread conf rounds r w = (r', w') \<Longrightarrow> reactorOk conf r \<Longrightarrow> mallocs w = [] \<Longrightarrow> queueInv (dataQueue w) \<Longrightarrow>
    roundsOk conf rounds r w \<Longrightarrow> reactorOk conf r' \<and> sameClients r r' \<and> reactorKeeps conf w w'"
proof (induction rounds arbitrary: r w)
  case Nil
  then show ?case by (simp add: sameClients_def list_all2_refl reactorKeeps_refl)
next
  case (Cons x rounds)
  obtain stop ans wait where x: "x = (stop, ans, wait)" by (metis prod_cases3)
  obtain on r1 w1 where round: "reactorRound conf ans wait r w = (on, r1, w1)" by (metis prod_cases3)
  show ?case
  proof (cases stop)
    case True
    then show ?thesis using Cons.prems x by (simp add: sameClients_def list_all2_refl reactorKeeps_refl)
  next
    case False
    have s: "reactorOk conf r1 \<and> sameClients r r1 \<and> reactorKeeps conf w w1"
      using reactorRound_safe [OF Cons.prems(2-4) _ round] Cons.prems(5) x False by simp
    have "reactorOk conf r' \<and> sameClients r1 r' \<and> reactorKeeps conf w1 w'"
    proof (cases on)
      case True
      then show ?thesis using Cons.IH [of r1 w1] Cons.prems(1,5) x False round s reactorKeeps_start by auto
    next
      case stop: False
      then show ?thesis using Cons.prems(1) x False round s reactorKeeps_start
        by (auto simp: sameClients_def list_all2_refl intro!: reactorKeeps_refl)
    qed
    then show ?thesis using s sameClients_trans reactorKeeps_trans by blast
  qed
qed

lemma sysInv_reactor:
  assumes "sysInv conf w" and "reactorKeeps conf w w'"
  shows "sysInv conf w' \<and> owned w' = owned w"
proof -
  obtain ms where "qcontents (dataQueue w') = qcontents (dataQueue w) @ ms" "list_all (msgValid conf) ms"
    using assms(2) unfolding reactorKeeps_def by (elim exE conjE) (rule that)
  then show ?thesis using assms sysInv_parts [of w' w] by (simp add: sysInv_def owned_def reactorKeeps_def)
qed

lemma upstreamAdd_ok:
  assumes "upstreamAdd r host prt path s = (rc, r', s')" and "reactorOk conf r"
  shows "reactorOk conf r'"
  using assms by (auto simp: upstreamAdd_def Let_def reactorOk_def upInv_def upBufs_def upFresh_def client_zero_def bufInv_def buf_empty_def
      bufData_def split: if_splits prod.splits)

subsection \<open>The reconnect delay\<close>










subsection \<open>Where the reactor loses a client or a message\<close>

text \<open>When \<open>epoll_ctl\<close> refuses the new socket, the client stays in the connecting state without a descriptor,
  which no later round of \<open>reconnectClients\<close> leaves.\<close>

lemma upstreamConnect_stuck:
  assumes "ep_rets s = False # es" and "0 \<le> fd"
  shows "\<exists>s'. upstreamConnect ep (Some (ConnectStarted fd # rs)) c s = (-1, c\<lparr>ufd := -1, ustate := UPSTREAM_CONNECTING\<rparr>, s')"
  using assms by (simp add: upstreamConnect_def os_epoll_ctl_def)

lemma reconnectLoop_stuck:
  "reconnectLoop ep now ans cs s = (cs', s') \<Longrightarrow> i < length cs \<Longrightarrow> ustate (cs ! i) = UPSTREAM_CONNECTING \<Longrightarrow>
     length cs' = length cs \<and> cs' ! i = cs ! i"
proof (induction ep now ans cs s arbitrary: cs' s' i rule: reconnectLoop.induct)
  case (2 ep now ans c cs s)
  have len: "length ds = length es" if "reconnectLoop ep now as es v = (ds, v')" for as es ds and v v' :: "'a os_scheme"
    using that by (induction ep now as es v arbitrary: ds v' rule: reconnectLoop.induct) (auto simp: Let_def split: if_splits prod.splits)
  then show ?case using "2.prems" "2.IH" by (cases i) (auto simp: Let_def split: if_splits prod.splits list.splits)
qed simp

text \<open>A hang-up while a client is paused drops the message it holds.\<close>

lemma hangup_loses_message:
  assumes "readPaused c" and "ustate c = UPSTREAM_OPEN" and "handleUpstreamEvent ep conf err [EPOLLRDHUP] c w = (c', w')"
  shows "upending c' = None \<and> dataQueue w' = dataQueue w"
proof -
  have "upending c' = None" "os.more w' = os.more w"
    using assms(3) by (auto simp: handleUpstreamEvent_def upWritable_def upReadable_def upstreamDisconnect_def Let_def nowMs_def
        os_monotonic_def os_close_def os_epoll_ctl_def split: if_splits list.splits prod.splits)
  then show ?thesis using os_more_world(5) by blast
qed

subsection \<open>Properties\<close>

text \<open>C6: The reactor keeps its clients and the shared state intact, whatever the servers send and however the
  system calls answer: through any number of rounds, every client satisfies its invariant (consistent
  buffers and message assembly, paused exactly while it holds a message, which is valid, at most ten
  steps of backoff, no descriptor while disconnected, nothing left of an old connection when a new one
  starts), the clients and their addresses stay the same, the reactor only appends valid messages to the
  data queue, never beyond the high watermark, and the invariant of the whole server is preserved.\<close>

theorem reactor_invariant:
  assumes "sysInv conf w" and "mallocs w = []" and "reactorOk conf r" and "roundsOk conf rounds r w"
  shows "case upstreamReactorThread conf rounds r w of (r', w') \<Rightarrow>
    reactorOk conf r' \<and> sameClients r r' \<and> reactorKeeps conf w w' \<and> sysInv conf w'"
proof -
  obtain r' w' where t: "upstreamReactorThread conf rounds r w = (r', w')" by fastforce
  have "queueInv (dataQueue w)" using assms(1) by (simp add: sysInv_def)
  from upstreamReactorThread_safe [OF t assms(3,2) this assms(4)] sysInv_reactor [OF assms(1)] show ?thesis by (simp add: t)
qed



text \<open>One client for descriptor 6, connecting; its socket becomes writable.\<close>

definition sample_client :: UpstreamClient_t where
  "sample_client = client_zero\<lparr>uid := 1000000, ufd := 6, ustate := UPSTREAM_CONNECTING, uchost := bytes ''h'', ucport := 80,
     ucpath := bytes ''/feed''\<rparr>"

definition up_reactor :: UpstreamReactor_t where
  "up_reactor = \<lparr>upEpollfd = 3, upClients = [sample_client], upCapacity = 4, upNextId = 1000001\<rparr>"

definition up_rounds :: "(bool \<times> connect_res list option list \<times> reactor_wait) list" where
  "up_rounds = [(False, [], WaitEvents [(0, [EPOLLOUT], Some 0)]), (True, [], WaitIntr)]"

lemma up_rounds_ok: "roundsOk server_defaults up_rounds up_reactor recv_world"
proof -
  have c: "ustate sample_client = UPSTREAM_CONNECTING" "\<not> readPaused sample_client"
    by (simp_all add: sample_client_def client_zero_def)
  have r: "reconnectClients [] up_reactor recv_world = (up_reactor, recv_world)"
    by (simp add: reconnectClients_def nowMs_def os_monotonic_def recv_world_def os_idle_def os.defs conn_world.defs world.defs
        up_reactor_def c)
  have p: "resumePausedClients server_defaults up_reactor recv_world = (up_reactor, recv_world)"
    by (simp add: resumePausedClients_def recv_world_fields queueSize_def qsize_create up_reactor_def c)
  have e: "upEventsOk server_defaults [(0, [EPOLLOUT], Some 0)] up_reactor recv_world"
    by (simp add: up_reactor_def c split: prod.split)
  then show ?thesis by (simp add: up_rounds_def roundOk_def r p split: prod.split)
qed

theorem reactor_invariant_witness:
  "case upstreamReactorThread server_defaults up_rounds up_reactor recv_world of (r', w') \<Rightarrow>
    reactorOk server_defaults r' \<and> sameClients up_reactor r' \<and> reactorKeeps server_defaults recv_world w' \<and>
    sysInv server_defaults w'"
proof (rule reactor_invariant [OF sysInv_recv_world _ _ up_rounds_ok])
  show "mallocs recv_world = []" by (simp add: recv_world_fields)
  show "reactorOk server_defaults up_reactor"
    by (simp add: reactorOk_def up_reactor_def upInv_def upBufs_def upFresh_def sample_client_def client_zero_def)
qed

end
