(* ===== verification/Effects.thy ===== *)
theory Effects
  imports System UpstreamSafety
begin

section \<open>Which thread touches which queue\<close>

text \<open>
  The workers and the aggregator never put anything into the queue of the listeners, and no thread but the
  main one marks a queue as shut down: the frame facts behind the order in which \<open>main\<close> stops the threads.
  They hold for all inputs and all answers of the system, the failing ones included.
\<close>

definition queuesKept :: "'a world_scheme \<Rightarrow> 'a world_scheme \<Rightarrow> bool" where
  "queuesKept w w' \<longleftrightarrow> ingest w' = ingest w \<and> qshutdown (dataQueue w') = qshutdown (dataQueue w) \<and>
     qshutdown (ctrlQueue w') = qshutdown (ctrlQueue w)"

lemma queuesKept_refl [intro!]: "queuesKept w w"
  by (simp add: queuesKept_def)

lemma queuesKept_trans: "queuesKept a b \<Longrightarrow> queuesKept b c \<Longrightarrow> queuesKept a c"
  by (simp add: queuesKept_def)

lemma queuesKept_same: "ingest w' = ingest w \<Longrightarrow> dataQueue w' = dataQueue w \<Longrightarrow> ctrlQueue w' = ctrlQueue w \<Longrightarrow> queuesKept w w'"
  by (simp add: queuesKept_def)

lemma queuesKept_more: "os.more w' = os.more w \<Longrightarrow> queuesKept w w'"
  using world_more [of w' w] by (simp add: queuesKept_def)

lemma queuesKept_conn: "conn_world.more w' = conn_world.more w \<Longrightarrow> queuesKept w w'"
  using conn_more_world [of w' w] by (simp add: queuesKept_def)

lemma queuesKept_upd [simp]: "queuesKept w (upd_conn c f w')  = queuesKept w w'" "queuesKept w (upd_agg g w') = queuesKept w w'"
  by (simp_all add: queuesKept_def)

lemma qshutdown_push [simp]: "qshutdown (pushLocked x q) = qshutdown q"
  by (simp add: pushLocked_def Let_def split: option.split)

lemma qshutdown_trypop: "trypop q = Some (x, q') \<Longrightarrow> qshutdown q' = qshutdown q"
  by (auto simp: trypop_def popHeadLocked_def Let_def split: if_splits option.splits)

lemma connClose_kept: "queuesKept w (connClose c w)"
proof -
  have "conn_world.more (connDestroy c v) = conn_world.more v" for v :: "'a world_scheme"
    by (simp add: connDestroy_def connFreeResources_def registryRemove_more)
  moreover have "conn_world.more (os_close fd v) = conn_world.more v" for fd and v :: "'a world_scheme"
    by (simp add: os_close_def)
  moreover have "conn_world.more (snd (os_epoll_ctl ep op fd evs v)) = conn_world.more v" for ep op fd evs and v :: "'a world_scheme"
    by (simp add: os_epoll_ctl_def Let_def split: list.split)
  ultimately show ?thesis by (intro queuesKept_conn) (simp add: connClose_def Let_def split: option.split)
qed

lemma epoll_kept [simp]: "queuesKept w (snd (os_epoll_ctl ep op fd evs w')) = queuesKept w w'"
  using world_more [OF os_epoll_ctl_world(1), of ep op fd evs w'] by (simp add: queuesKept_def)

lemma push_data_kept: "queuesKept w (snd (push_data m w))"
proof -
  obtain ok w1 where al: "os_alloc w = (ok, w1)" by fastforce
  then have "os.more w1 = os.more w" by (auto simp: os_alloc_def split: list.splits)
  from world_more [OF this] show ?thesis by (simp add: push_data_def push_def al queuesKept_def)
qed

subsection \<open>A worker\<close>

lemma parkListPush_kept: "queuesKept w (parkListPush c w)"
  by (simp add: parkListPush_def Let_def queuesKept_def split: option.split)

lemma parkConn_kept: "queuesKept w (parkConn c x m w)"
  using queuesKept_trans [OF _ parkListPush_kept [of "upd_conn c (\<lambda>_. x\<lparr>pendingMsg := Some m\<rparr>) w" c], of w]
  by (auto simp: parkConn_def)

lemma sendCloseAndMark_more: "sendCloseAndMark x code s = (x', s') \<Longrightarrow> os.more s' = os.more s"
  by (auto simp: sendCloseAndMark_def split: if_splits prod.splits option.splits dest!: frameNew_os bufAppend_frame)

lemma wsFail_more: "wsFail x code s = (out, x', s') \<Longrightarrow> os.more s' = os.more s"
  by (auto simp: wsFail_def split: prod.splits dest!: sendCloseAndMark_more)

lemma wsControl_more: "wsControl h payload tot x s = (out, x', s') \<Longrightarrow> os.more s' = os.more s"
  by (auto simp: wsControl_def split: if_splits prod.splits option.splits
      dest!: frameNew_os bufAppend_frame sendCloseAndMark_more)

lemma msgNewData_more: "msgNewData i opc p s = (m, s') \<Longrightarrow> os.more s' = os.more s"
  by (auto simp: msgNewData_def os_alloc_def os_realtime_def split: list.splits if_splits)

lemma wsData_more: "wsData conf h payload tot x s = (out, x', s') \<Longrightarrow> os.more s' = os.more s"
  by (auto simp: wsData_def wsDataOpen_def Let_def split: if_splits prod.splits
      dest!: wsFail_more bufAppend_frame msgNewData_more)

lemma wsFrameStep_more: "wsFrameStep conf x s = (out, x', s') \<Longrightarrow> os.more s' = os.more s"
  by (auto simp: wsFrameStep_def Let_def split: if_splits WsRc_t.splits dest!: wsFail_more wsControl_more wsData_more)

lemma wsLoop_kept: "wsLoop conf c x w = (park, x', w') \<Longrightarrow> queuesKept w w'"
proof (induction conf c x w arbitrary: park x' w' rule: wsLoop.induct)
  case (1 conf c x w)
  obtain out x1 w1 where step: "wsFrameStep conf x w = (out, x1, w1)" by (metis prod_cases3)
  have k: "queuesKept w w1" using wsFrameStep_more [OF step] by (rule queuesKept_more)
  show ?case
  proof (cases "closeAfterSend x")
    case True
    then show ?thesis using "1.prems" by (auto simp: wsLoop.simps [of conf c x w])
  next
    case False
    show ?thesis
    proof (cases out)
      case WsStop
      then show ?thesis using "1.prems" False step k by (simp add: wsLoop.simps [of conf c x w])
    next
      case WsMore
      then have "wsLoop conf c x1 w1 = (park, x', w')" using "1.prems" False step by (simp add: wsLoop.simps [of conf c x w])
      from "1.IH"(1) [OF False step [symmetric] refl WsMore this] k show ?thesis by (rule queuesKept_trans [rotated])
    next
      case (WsMsg m)
      note unf = wsLoop.simps [of conf c x w]
      show ?thesis
      proof (cases "confHigh conf \<le> queueSize (dataQueue w1)")
        case True
        then have "w' = parkConn c x1 m w1" using "1.prems" False step WsMsg by (auto simp: unf)
        then show ?thesis using queuesKept_trans [OF k parkConn_kept] by simp
      next
        case room: False
        then have "wsLoop conf c x1 (snd (push_data m w1)) = (park, x', w')" using "1.prems" False step WsMsg by (simp add: unf)
        from "1.IH"(2) [OF False step [symmetric] refl WsMsg room this]
        show ?thesis using queuesKept_trans [OF queuesKept_trans [OF k push_data_kept]] by blast
      qed
    qed
  qed
qed

lemma flushTx_more: "flushTx x s = (disp, x', s') \<Longrightarrow> os.more s' = os.more s"
  by (auto simp: flushTx_def split: prod.splits dest!: bufSend_frame)

lemma handleWsOpen_kept: "queuesKept w (snd (handleWsOpen conf c x w))"
proof -
  obtain rc b w1 where rcv: "bufRecv (cfd x) (rx x) 4096 (maxMessage conf + maxFrame conf) w = (rc, b, w1)"
    by (metis prod_cases3)
  obtain x2 w2 where mark: "(if rc = -2 then sendCloseAndMark (x\<lparr>rx := b\<rparr>) 1009 w1 else (x\<lparr>rx := b\<rparr>, w1)) = (x2, w2)"
    by fastforce
  obtain park x3 w3 where loop: "wsLoop conf c x2 w2 = (park, x3, w3)" by (metis prod_cases3)
  obtain disp x4 w4 where fl: "flushTx x3 w3 = (disp, x4, w4)" by (metis prod_cases3)
  have "os.more w1 = os.more w" using bufRecv_frame [OF rcv] by simp
  moreover have "os.more w2 = os.more w1" using mark sendCloseAndMark_more by (auto split: if_splits)
  ultimately have "queuesKept w w2" by (intro queuesKept_more) simp
  then have "queuesKept w w3" using queuesKept_trans wsLoop_kept [OF loop] by blast
  moreover have "queuesKept w w4" using calculation queuesKept_trans queuesKept_more [OF flushTx_more [OF fl]] by blast
  ultimately show ?thesis by (simp add: handleWsOpen_def rcv mark loop fl)
qed

lemma handOff_kept: "queuesKept w (snd (handOff c x w))"
proof -
  let ?w2 = "upd_conn c (\<lambda>_. x\<lparr>cepollfd := -1\<rparr>) (snd (os_epoll_ctl (cepollfd x) EPOLL_CTL_DEL (cfd x) [] w))"
  obtain m w3 where new: "msgNewSinkAdd c ?w2 = (m, w3)" by fastforce
  have "os.more w3 = os.more ?w2" using new by (auto simp: msgNewSinkAdd_def os_alloc_def split: list.splits if_splits)
  then have "queuesKept ?w2 w3" by (rule queuesKept_more)
  moreover have "queuesKept w ?w2" by auto
  ultimately have w3: "queuesKept w w3" using queuesKept_trans by blast
  have "queuesKept w3 w4" if "push_ctrl msg w3 = (rc, w4)" for msg rc w4
  proof -
    obtain ok v where al: "os_alloc w3 = (ok, v)" by fastforce
    then have "os.more v = os.more w3" by (auto simp: os_alloc_def split: list.splits)
    from world_more [OF this] that show ?thesis
      by (auto simp: push_ctrl_def push_def al queuesKept_def split: if_splits)
  qed
  then have "queuesKept w w4" if "push_ctrl msg w3 = (rc, w4)" for msg rc w4 using queuesKept_trans [OF w3] that by blast
  then show ?thesis using w3 by (simp add: handOff_def Let_def new split: option.split prod.split)
qed

lemma handleHandshakeSend_kept: "queuesKept w (snd (handleHandshakeSend conf c x w))"
proof -
  obtain disp x1 w1 where fl: "flushTx x w = (disp, x1, w1)" by (metis prod_cases3)
  note w1 = queuesKept_more [OF flushTx_more [OF fl]]
  then show ?thesis using queuesKept_trans [OF w1 handOff_kept] queuesKept_trans [OF w1 handleWsOpen_kept]
    by (simp add: handleHandshakeSend_def fl)
qed

lemma handleHandshakeRead_kept: "queuesKept w (snd (handleHandshakeRead conf c x w))"
proof -
  obtain rc b w1 where rcv: "bufRecv (cfd x) (rx x) 4096 (handshakeMax conf) w = (rc, b, w1)" by (metis prod_cases3)
  have m1: "os.more w1 = os.more w" using bufRecv_frame [OF rcv] by simp
  have send: "queuesKept w (snd (handleHandshakeSend conf c z v))" if "os.more v = os.more w1" for z v
  proof -
    have "queuesKept w v" using queuesKept_more that m1 by simp
    then show ?thesis using handleHandshakeSend_kept by (rule queuesKept_trans)
  qed
  have err: "os.more v = os.more w1" if "httpBuildError t n r e w1 = (b', v)" for t n r e b' v
    using that by (auto simp: httpBuildError_def dest!: bufAppend_frame)
  have reply: "os.more v = os.more w1" if "handshakeReply conf hr z w1 = (z', v)" for hr z z' v
    using handshakeReply_shape [OF that] bufAppend_frame by blast
  have "queuesKept w (snd (disp, upd_conn c f w1))" for disp :: Disposition_t and f using queuesKept_more [OF m1] by simp
  then show ?thesis using send err reply
    by (simp add: handleHandshakeRead_def rcv Let_def split: option.split prod.split)
qed

lemma handleConn_kept: "queuesKept w (handleConn conf c w)"
proof (cases "conns w c")
  case None
  then show ?thesis by (auto simp: handleConn_def)
next
  case (Some x)
  obtain disp w1 where h: "(case cstate x of ST_HANDSHAKE_READ \<Rightarrow> handleHandshakeRead conf c x w
      | ST_HANDSHAKE_SEND \<Rightarrow> handleHandshakeSend conf c x w | ST_WS_OPEN \<Rightarrow> handleWsOpen conf c x w) = (disp, w1)"
    by fastforce
  then have w1: "queuesKept w w1"
    using handleHandshakeRead_kept [of w conf c x] handleHandshakeSend_kept [of w conf c x] handleWsOpen_kept [of w conf c x]
    by (cases "cstate x") simp_all
  have "queuesKept w1 (applyDisposition c disp w1)"
    using connClose_kept by (auto simp: applyDisposition_def rearmEpoll_def split: option.split Disposition_t.split)
  then show ?thesis using queuesKept_trans [OF w1] Some h by (simp add: handleConn_def)
qed

subsection \<open>The aggregator\<close>

lemmas aggCtrlLoop_returned = aggCtrlLoop.raw_induct [rotated, consumes 1, case_names step]
  and aggPump_returned = aggPump.raw_induct [rotated, consumes 1, case_names step]
  and aggDataDrain_returned = aggDataDrain.raw_induct [rotated, consumes 1, case_names step]

lemma closeSink_kept: "queuesKept w (closeSink w)"
  using closeSink_ctrl by (intro queuesKept_same) auto

lemma sendClose_kept: "queuesKept w (sendCloseBestEffort fd code w)"
  by (rule queuesKept_more [OF sendCloseBestEffort_more])

lemma adoptSink_kept: "queuesKept w (adoptSink c w)"
proof -
  have "queuesKept w (closeSink (sendCloseBestEffort fd code w))" for fd code
    using queuesKept_trans [OF sendClose_kept closeSink_kept] .
  then show ?thesis by (auto simp: adoptSink_def Let_def split: option.split)
qed

lemma handleCtrl_kept: "queuesKept w (handleCtrl m w)"
  using adoptSink_kept by (auto simp: handleCtrl_def split: MsgKind_t.split option.split)

lemma aggCtrlLoop_kept: "aggCtrlLoop w = Some w' \<Longrightarrow> queuesKept w w'"
proof (induction rule: aggCtrlLoop_returned)
  case (step loop w w')
  show ?case
  proof (cases "trypop (ctrlQueue w)")
    case None
    then show ?thesis using step by auto
  next
    case (Some p)
    then obtain m q where p: "trypop (ctrlQueue w) = Some (m, q)" by (cases p) auto
    have "queuesKept w (w\<lparr>ctrlQueue := q\<rparr>)" using qshutdown_trypop [OF p] by (simp add: queuesKept_def)
    from queuesKept_trans [OF this handleCtrl_kept] have "queuesKept w (handleCtrl m (w\<lparr>ctrlQueue := q\<rparr>))" .
    moreover have "loop (handleCtrl m (w\<lparr>ctrlQueue := q\<rparr>)) = Some w'" using step(2) p by simp
    from step(1) [OF this] have "queuesKept (handleCtrl m (w\<lparr>ctrlQueue := q\<rparr>)) w'" .
    ultimately show ?thesis by (rule queuesKept_trans)
  qed
qed

lemma parkListPop_kept: "parkListPop w = Some (c, w') \<Longrightarrow> queuesKept w w'"
  using parkListPop_effect [of w c w'] by (auto intro: queuesKept_same)

lemma resumeParked_kept: "resumeParked c w = Some w' \<Longrightarrow> queuesKept w w'"
  using push_data_kept by (auto simp: resumeParked_def Let_def split: option.splits)

lemma pumpResume_kept: "pumpResume w = Some w' \<Longrightarrow> queuesKept w w'"
  using queuesKept_trans [OF parkListPop_kept resumeParked_kept]
  by (auto simp: pumpResume_def split: if_splits option.splits)

lemma sinkArm_kept: "queuesKept w (sinkArm w)"
  by (auto simp: sinkArm_def Let_def split: option.split)

text \<open>The pump also leaves the queue of the new sinks alone.\<close>

lemma pumpResume_ctrl: "pumpResume w = Some w' \<Longrightarrow> ctrlQueue w' = ctrlQueue w"
proof -
  have "resumeParked c v = Some v' \<Longrightarrow> ctrlQueue v' = ctrlQueue v" for c and v v' :: "'a world_scheme"
  proof -
    assume r: "resumeParked c v = Some v'"
    then obtain x m where "conns v c = Some x" "pendingMsg x = Some m" by (auto simp: resumeParked_def split: option.splits)
    from resumeParked_effect [OF this] r show ?thesis by auto
  qed
  then show "pumpResume w = Some w' \<Longrightarrow> ctrlQueue w' = ctrlQueue w"
    using parkListPop_effect(7) by (auto simp: pumpResume_def split: if_splits option.splits)
qed

lemma aggPump_kept: "aggPump w = Some w' \<Longrightarrow> queuesKept w w' \<and> ctrlQueue w' = ctrlQueue w"
proof (induction rule: aggPump_returned)
  case (step pump w w')
  obtain rc w1 where fl: "sinkFlush w = (rc, w1)" by fastforce
  have k1: "queuesKept w w1" "ctrlQueue w1 = ctrlQueue w" using sinkFlush_frame [OF fl] by (auto intro: queuesKept_same)
  have arm: "ctrlQueue (sinkArm v) = ctrlQueue v" for v :: "'a world_scheme"
    by (simp add: sinkArm_def Let_def epoll_inv(9) split: option.split)
  show ?case
  proof (cases "sink (agg w) = None \<or> rc \<le> 0")
    case True
    then show ?thesis using step(2) fl k1 arm queuesKept_trans [OF k1(1) closeSink_kept] queuesKept_trans [OF k1(1) sinkArm_kept]
      by (auto simp: closeSink_ctrl split: if_splits)
  next
    case False
    then obtain w2 where r: "pumpResume w1 = Some w2" using step(2) fl by (auto split: bind_splits)
    have k2: "queuesKept w w2" "ctrlQueue w2 = ctrlQueue w"
      using queuesKept_trans [OF k1(1) pumpResume_kept [OF r]] pumpResume_ctrl [OF r] k1(2) by simp_all
    show ?thesis
    proof (cases "trypop (dataQueue w2)")
      case None
      then show ?thesis using False step(2) fl r k2 arm queuesKept_trans [OF k2(1) sinkArm_kept] by auto
    next
      case (Some p)
      then obtain m q where p: "trypop (dataQueue w2) = Some (m, q)" by (cases p) auto
      let ?w3 = "pumpEncode m (w2\<lparr>dataQueue := q\<rparr>)"
      have "queuesKept w2 ?w3" using qshutdown_trypop [OF p] by (simp add: queuesKept_def pumpEncode_frame)
      then have k3: "queuesKept w ?w3" "ctrlQueue ?w3 = ctrlQueue w" using queuesKept_trans [OF k2(1)] k2(2) by (simp_all add: pumpEncode_frame)
      have "pump ?w3 = Some w'" using False step(2) fl r p by auto
      from step(1) [OF this] show ?thesis using queuesKept_trans [OF k3(1)] k3(2) by simp
    qed
  qed
qed

lemma drainOne_kept: "queuesKept w (drainOne m w)"
proof -
  obtain f a w1 where on: "aggOnMessage m (agg w) w = (f, a, w1)" by (metis prod_cases3)
  have "os.more w1 = os.more w" using aggOnMessage_os [OF on] by simp
  then have w1: "queuesKept w w1" by (rule queuesKept_more)
  have "queuesKept w w2" if "sinkFlushOne fd g pos w1 = (rc, slot, pos', w2)" for fd g pos rc slot pos' w2
    using queuesKept_trans [OF w1 queuesKept_more] sinkFlushOne_frame [OF that] by blast
  moreover have "queuesKept w (v\<lparr>agg := a\<rparr>) = queuesKept w v" for v by (simp add: queuesKept_def)
  ultimately show ?thesis using w1 by (auto simp: drainOne_def on split: option.split prod.split)
qed

lemma aggDataDrain_kept: "aggDataDrain w = Some w' \<Longrightarrow> queuesKept w w'"
proof (induction rule: aggDataDrain_returned)
  case (step loop w w')
  show ?case
  proof (cases "trypop (dataQueue w)")
    case None
    then show ?thesis using step by auto
  next
    case (Some p)
    then obtain m q where p: "trypop (dataQueue w) = Some (m, q)" by (cases p) auto
    have "queuesKept w (w\<lparr>dataQueue := q\<rparr>)" using qshutdown_trypop [OF p] by (simp add: queuesKept_def)
    from queuesKept_trans [OF this drainOne_kept] have "queuesKept w (drainOne m (w\<lparr>dataQueue := q\<rparr>))" .
    moreover have "loop (drainOne m (w\<lparr>dataQueue := q\<rparr>)) = Some w'" using step(2) p by simp
    from step(1) [OF this] have "queuesKept (drainOne m (w\<lparr>dataQueue := q\<rparr>)) w'" .
    ultimately show ?thesis by (rule queuesKept_trans)
  qed
qed

lemma aggRound_kept:
  assumes "aggRound w = Some (next, w')"
  shows "queuesKept w w'"
proof -
  obtain w1 where 1: "aggCtrlLoop w = Some w1" using assms by (auto simp: aggRound_def split: bind_splits)
  then obtain w2 where 2: "aggPump w1 = Some w2" using assms by (auto simp: aggRound_def split: bind_splits)
  have k: "queuesKept w w2" using queuesKept_trans [OF aggCtrlLoop_kept [OF 1]] aggPump_kept [OF 2] by blast
  have "queuesKept w2 w3" if "aggDrainForShutdown w2 = Some w3" for w3
    using that queuesKept_trans [OF aggCtrlLoop_kept aggDataDrain_kept] by (auto simp: aggDrainForShutdown_def split: bind_splits)
  then have "queuesKept w w3" if "aggDrainForShutdown w2 = Some w3" for w3 using queuesKept_trans [OF k] that by blast
  then show ?thesis using assms k 1 2 by (auto simp: aggRound_def Let_def split: if_splits)
qed

lemma sinkFrames_kept: "sinkFrames fd b w = (rc, b', w') \<Longrightarrow> queuesKept w w'"
proof (induction fd b w arbitrary: rc b' w' rule: sinkFrames.induct)
  case (1 fd b w)
  have pong: "queuesKept w v" if "frameNew op p w = (f, v)" for op p f v
    using frameNew_os [OF that] by (intro queuesKept_more) simp
  show ?case
  proof (cases "wsParseHeader (bufData b)")
    case WS_NEED_MORE
    then show ?thesis using "1.prems" by (subst (asm) sinkFrames.simps) auto
  next
    case WS_ERR_PROTO
    then show ?thesis using "1.prems" sendClose_kept by (subst (asm) sinkFrames.simps) auto
  next
    case (WS_OK h)
    define raw where "raw = take (unat (hPayloadLen h)) (drop (hHeaderLen h) (bufData b))"
    define payload where "payload = (if hMasked h then wsUnmask raw (hMaskKey h) else raw)"
    define b1 where "b1 = bufConsume (bufPatch b (hHeaderLen h) payload) (hHeaderLen h + unat (hPayloadLen h))"
    define w1 where "w1 = (if pendingCtrl (agg w) = None then
        (case frameNew WS_OP_PONG payload w of (f, w1) \<Rightarrow>
           upd_agg (\<lambda>a. a\<lparr>pendingCtrl := f, pendingCtrlOff := 0\<rparr>) w1) else w)"
    have w1: "queuesKept w w1" using pong by (auto simp: w1_def split: prod.split)
    have step: "sinkFrames fd b w = (if bufLen b < hHeaderLen h + unat (hPayloadLen h) then (1, b, w)
        else if hOpcode h = WS_OP_PING then sinkFrames fd b1 w1
        else if hOpcode h = WS_OP_CLOSE then (0, b1, sendCloseBestEffort fd 1000 w) else sinkFrames fd b1 w)"
      using WS_OK by (subst sinkFrames.simps) (simp add: Let_def raw_def payload_def b1_def w1_def)
    note ih = "1.IH" [OF WS_OK refl refl _ refl refl refl, folded raw_def, folded payload_def, folded b1_def w1_def]
    show ?thesis using "1.prems" step queuesKept_trans [OF w1] ih sendClose_kept by (auto split: if_splits)
  qed
qed

lemma sinkReadAndHandle_kept: "queuesKept w (snd (sinkReadAndHandle c w))"
proof (cases "conns w c")
  case None
  then show ?thesis by (auto simp: sinkReadAndHandle_def)
next
  case (Some x)
  obtain eof b w1 where rcv: "sinkRecv (cfd x) (rx x) w = (eof, b, w1)" by (metis prod_cases3)
  obtain rc b1 w2 where fr: "sinkFrames (cfd x) b w1 = (rc, b1, w2)" by (metis prod_cases3)
  have "queuesKept w w1" using sinkRecv_effect [OF rcv] by (intro queuesKept_more) simp
  then have "queuesKept w w2" using queuesKept_trans sinkFrames_kept [OF fr] by blast
  then show ?thesis using Some by (simp add: sinkReadAndHandle_def rcv fr)
qed

lemma aggEvent_kept: "queuesKept w (aggEvent e w)"
proof (cases e)
  case AEvTimer
  obtain now w1 where tm: "os_realtime w = (now, w1)" by fastforce
  have "os.more w1 = os.more w" using tm by (auto simp: os_realtime_def split: list.splits)
  from queuesKept_more [OF this] show ?thesis by (simp add: AEvTimer aggEvent_def tm aggOnTick_def)
next
  case (AEvConn c evs)
  obtain alive w1 where rd: "sinkReadAndHandle c w = (alive, w1)" by fastforce
  then have "queuesKept w w1" using sinkReadAndHandle_kept [of w c] by simp
  then show ?thesis using closeSink_kept queuesKept_trans [OF _ closeSink_kept] by (auto simp: AEvConn aggEvent_def rd)
qed (simp_all add: aggEvent_def queuesKept_def)

lemma aggEvents_kept: "queuesKept w (fold aggEvent evs w)"
proof (induction evs arbitrary: w)
  case (Cons e evs)
  show ?case using queuesKept_trans [OF aggEvent_kept Cons.IH] by simp
qed auto

lemma aggIterate_kept:
  assumes "aggIterate evs w = Some (on, w')"
  shows "queuesKept w w'"
proof -
  obtain "next" w1 where r: "aggRound w = Some (next, w1)" using assms by (auto simp: aggIterate_def)
  note k = aggRound_kept [OF r]
  show ?thesis using assms r k queuesKept_trans [OF k aggEvents_kept] by (cases "next") (auto simp: aggIterate_def)
qed

subsection \<open>The end of the aggregator\<close>

text \<open>
  \<open>aggFreeState\<close> takes the pending message of every parked source away, but keeps the sources, which \<open>main\<close>
  closes later.
\<close>

lemma aggFreeState_inv:
  "sysInv conf w \<Longrightarrow> \<exists>w'. aggFreeState w = Some w' \<and> sysInv conf w' \<and> set (owned w') \<subseteq> set (owned w) \<and> parked w' = [] \<and>
     queuesKept w w' \<and> agg_core (agg w') = agg_core (agg w)"
proof (induction "length (parked w)" arbitrary: w rule: less_induct)
  case less
  have pk: "parkInv w" using less.prems by (simp add: sysInv_def)
  show ?case
  proof (cases "parkListPop w")
    case None
    then show ?thesis using less.prems park.deq_None [OF pk] by (subst aggFreeState.simps) auto
  next
    case (Some p)
    then obtain c w1 where pop: "parkListPop w = Some (c, w1)" by (cases p) auto
    let ?f = "\<lambda>x :: Conn_t. x\<lparr>pendingMsg := None\<rparr>" and ?w = "upd_conn c (\<lambda>x. x\<lparr>pendingMsg := None\<rparr>) w1"
    note p = parkListPop_inv [OF less.prems pop]
    have "c \<notin> set (parked w1)" using p(3) by (simp add: owned_def)
    then have w: "sysInv conf ?w" "owned ?w = owned w1"
      using sysInv_upd [OF p(1), of c ?f] by (simp_all add: linksEq_def)
    have par: "parked w = c # parked w1" using park.deq_Some [OF pk pop] by simp
    have "parked ?w = parked w1" using parked_cong [of ?w w1] by (simp add: link_upd_other)
    then have "length (parked ?w) < length (parked w)" using par by simp
    from less.hyps [OF this w(1)] obtain w' where r: "aggFreeState ?w = Some w'" "sysInv conf w'"
      "set (owned w') \<subseteq> set (owned ?w)" "parked w' = []" "queuesKept ?w w'" "agg_core (agg w') = agg_core (agg ?w)" by blast
    have "queuesKept w ?w" using parkListPop_kept [OF pop] by simp
    from queuesKept_trans [OF this r(5)] have "queuesKept w w'" .
    moreover have "agg_core (agg w') = agg_core (agg w)" using r(6) parkListPop_effect(2) [OF pop] by simp
    ultimately show ?thesis using r w(2) p(4) pop by (subst aggFreeState.simps) auto
  qed
qed

lemma aggFinish_inv:
  assumes "sysInv conf w"
  shows "\<exists>w'. aggFinish tm w = Some w' \<and> sysInv conf w' \<and> parked w' = [] \<and> sink (agg w') = None \<and> queuesKept w w'"
proof -
  define w1 where "w1 = (case sink (agg w) of
      Some c \<Rightarrow> closeSink (sendCloseBestEffort (sinkFd c w) 1001 w) | None \<Rightarrow> w)"
  have w1: "sysInv conf w1 \<and> sink (agg w1) = None \<and> queuesKept w w1"
  proof (cases "sink (agg w)")
    case None
    then show ?thesis using assms by (auto simp: w1_def)
  next
    case (Some c)
    have "sysInv conf (sendCloseBestEffort (sinkFd c w) 1001 w)" using assms by (simp add: sendClose_inv)
    from closeSink_inv [OF this] queuesKept_trans [OF sendClose_kept closeSink_kept] Some
    show ?thesis by (auto simp: w1_def)
  qed
  then obtain w2 where w2: "aggFreeState w1 = Some w2" "sysInv conf w2" "parked w2 = []" "queuesKept w1 w2"
    "agg_core (agg w2) = agg_core (agg w1)" using aggFreeState_inv [of conf w1] by blast
  have sk: "sink (agg w2) = None" using agg_core_fields [OF w2(5)] w1 by simp
  define w3 where "w3 = (if tm \<noteq> -1 then os_close tm w2 else w2)"
  let ?w = "os_close (aepollfd (agg w3)) w3"
  have "os.more ?w = os.more w2" by (simp add: w3_def os_close_def)
  note e = sysInv_more [OF this] queuesKept_more [OF this] world_more [OF this]
  have "parked ?w = parked w2" using sysInv_parts(3) [of ?w w2] e by simp
  moreover have "aggFinish tm w = Some ?w" using w2(1) by (simp add: aggFinish_def w1_def [symmetric] w3_def Let_def)
  ultimately show ?thesis using e w2 w1 sk queuesKept_trans [of w w1 w2] queuesKept_trans [of w w2 ?w] by auto
qed

subsection \<open>A worker's turn\<close>

lemma workerStep_inv:
  assumes "sysInv conf w" and "mallocs w = []" and "workerStep conf w = (next, w')"
  shows "sysInv conf w' \<and> qshutdown (dataQueue w') = qshutdown (dataQueue w) \<and> qshutdown (ctrlQueue w') = qshutdown (ctrlQueue w) \<and>
    qshutdown (ingest w') = qshutdown (ingest w) \<and>
    (case next of WkNext \<Rightarrow> qsize (ingest w) = Suc (qsize (ingest w'))
     | WkExit \<Rightarrow> w' = w \<and> qshutdown (ingest w) \<and> qsize (ingest w) = 0
     | WkWait \<Rightarrow> w' = w \<and> \<not> qshutdown (ingest w))"
proof -
  have q: "queueInv (ingest w)" using assms(1) by (simp add: sysInv_def)
  have same: "w\<lparr>ingest := ingest w\<rparr> = w" by simp
  show ?thesis
  proof (cases "qsize (ingest w) = 0")
    case True
    then have "pop (ingest w) = (if qshutdown (ingest w) then PopNone else PopWait, ingest w)" by (simp add: pop_def)
    then show ?thesis using assms True same by (auto simp: workerStep_def split: if_splits)
  next
    case False
    then have "qcontents (ingest w) \<noteq> []" using length_qcontents [OF q] by auto
    then obtain c q1 where p: "popHeadLocked (ingest w) = Some (c, q1)" using popHeadLocked_None [OF q] by fastforce
    have q1: "qcontents (ingest w) = c # qcontents q1" "queueInv q1" "qshutdown q1 = qshutdown (ingest w)"
      using popHeadLocked_Some [OF q p] popHeadLocked_size [OF p] by simp_all
    let ?w = "w\<lparr>ingest := q1, totalRequests := totalRequests w + 1\<rparr>"
    have res: "next = WkNext" "w' = handleConn conf c ?w"
      using False p assms(3) by (simp_all add: workerStep_def pop_def)
    have parts: "regInv ?w = regInv w" "parkInv ?w = parkInv w" "parked ?w = parked w" "parkedOk conf ?w = parkedOk conf w"
      "connsInv ?w = connsInv w" by (rule sysInv_parts; simp)+
    then have inv: "sysInv conf ?w" and c: "c \<notin> set (owned ?w)"
      using assms(1) q1 by (auto simp: sysInv_def owned_def)
    have "mallocs ?w = []" using assms(2) by simp
    note h = handleConn_inv [OF inv this c] and k = handleConn_kept [of ?w conf c]
    have "qsize (ingest w) = Suc (qsize q1)" using length_qcontents [OF q] length_qcontents [OF q1(2)] q1(1) by simp
    then show ?thesis using h k q1(3) by (simp add: res queuesKept_def)
  qed
qed

end
