(* ===== verification/Options.thy ===== *)
theory Options
  imports Config Os
begin

section \<open>Command line options (src/src/options.c)\<close>

text \<open>
  \<open>parseArgs\<close> runs on the sequence of options \<open>getopt_long\<close> reports, with their arguments (that function
  permutes the arguments and accepts abbreviated long names; it is the C library's). Arguments are byte
  lists without the NUL. \<open>strtol\<close> and \<open>atoi\<close> are written out, with \<open>long\<close> of 64 bits and \<open>int\<close> of 32 (the
  GNU library's \<open>atoi\<close> converts the result of \<open>strtol\<close>). The messages on the terminal are left out.
\<close>

subsection \<open>The C library's conversions\<close>

definition isspace :: "byte \<Rightarrow> bool" where
  "isspace c \<longleftrightarrow> c = 32 \<or> (9 \<le> c \<and> c \<le> 13)"

definition isdigit :: "byte \<Rightarrow> bool" where
  "isdigit c \<longleftrightarrow> 48 \<le> c \<and> c \<le> 57"

definition digitsVal :: "byte list \<Rightarrow> nat" where
  "digitsVal ds = fold (\<lambda>d acc. 10 * acc + (unat d - 48)) ds 0"

definition LONG_MAX :: int where "LONG_MAX = 2 ^ 63 - 1"
definition LONG_MIN :: int where "LONG_MIN = - (2 ^ 63)"

text \<open>The value and what \<open>end\<close> points to.\<close>

definition strtol :: "byte list \<Rightarrow> int \<times> byte list" where
  "strtol s =
     (let r = dropWhile isspace s;
          neg = (r \<noteq> [] \<and> hd r = 45);
          t = (if r \<noteq> [] \<and> (hd r = 45 \<or> hd r = 43) then tl r else r);
          ds = takeWhile isdigit t;
          v = (if neg then - int (digitsVal ds) else int (digitsVal ds))
      in if ds = [] then (0, s) else (max LONG_MIN (min LONG_MAX v), dropWhile isdigit t))"

definition atoi :: "byte list \<Rightarrow> int" where
  "atoi s = sint (word_of_int (fst (strtol s)) :: 32 word)"

definition parsePositive :: "byte list \<Rightarrow> int" where
  "parsePositive s = (case strtol s of (v, e) \<Rightarrow>
     if length e = length s \<or> e \<noteq> [] \<or> v \<le> 0 then -1 else v)"

subsection \<open>Upstream addresses\<close>

definition ensureUpstreamCapacity :: "ServerConfig_t \<Rightarrow> 'a os_scheme \<Rightarrow> int \<times> ServerConfig_t \<times> 'a os_scheme" where
  "ensureUpstreamCapacity conf s =
     (if length (upstreams conf) < upstreamCapacity conf then (0, conf, s)
      else
        let newCapacity = (if upstreamCapacity conf = 0 then 4 else upstreamCapacity conf * 2)
        in case os_alloc s of (ok, s1) \<Rightarrow>
          if \<not> ok then (-1, conf, s1) else (0, conf\<lparr>upstreamCapacity := newCapacity\<rparr>, s1))"

text \<open>The host and the port text of what precedes the path: \<open>[host]:port\<close>, or split at the last colon.\<close>

definition splitAuthority :: "byte list \<Rightarrow> (byte list \<times> byte list) option" where
  "splitAuthority a =
     (if a \<noteq> [] \<and> hd a = 91 then
        if 93 \<notin> set a then None
        else
          let i = length (takeWhile (\<lambda>c. c \<noteq> 93) a)
          in if length a \<le> i + 1 \<or> a ! (i + 1) \<noteq> 58 then None
             else Some (take (i - 1) (drop 1 a), drop (i + 2) a)
      else if 58 \<notin> set a then None
      else
        let portText = rev (takeWhile (\<lambda>c. c \<noteq> 58) (rev a))
        in Some (take (length a - length portText - 1) a, portText))"

definition upstreamPort :: "byte list \<Rightarrow> int option" where
  "upstreamPort portText =
     (if length portText = 0 \<or> 16 \<le> length portText then None
      else case strtol portText of (v, e) \<Rightarrow>
        if length e = length portText \<or> e \<noteq> [] \<or> v < 1 \<or> 65535 < v then None else Some v)"

definition addUpstreamUrl ::
  "ServerConfig_t \<Rightarrow> byte list \<Rightarrow> 'a os_scheme \<Rightarrow> int \<times> ServerConfig_t \<times> 'a os_scheme" where
  "addUpstreamUrl conf url s =
     (if take 5 url \<noteq> bytes ''ws://'' then (-1, conf, s)
      else
        let p = drop 5 url; authority = takeWhile (\<lambda>c. c \<noteq> 47) p; slash = dropWhile (\<lambda>c. c \<noteq> 47) p
        in if p = [] then (-1, conf, s)
        else case splitAuthority authority of None \<Rightarrow> (-1, conf, s)
        | Some (host, portText) \<Rightarrow>
            if length host = 0 \<or> UPSTREAM_HOST_MAX \<le> length host then (-1, conf, s)
            else (case upstreamPort portText of None \<Rightarrow> (-1, conf, s)
            | Some pt \<Rightarrow>
                let path = (if slash \<noteq> [] then slash else [47])
                in if UPSTREAM_PATH_MAX \<le> length path then (-1, conf, s)
                   else (case ensureUpstreamCapacity conf s of (rc, conf1, s1) \<Rightarrow>
                     if rc \<noteq> 0 then (-1, conf1, s1)
                     else (0, conf1\<lparr>upstreams := upstreams conf1 @ [\<lparr>uhost = host, uport = pt, upath = path\<rparr>]\<rparr>, s1))))"

subsection \<open>The options\<close>

datatype getopt_res =
    OptPort "byte list" | OptWorkers "byte list" | OptListeners "byte list" | OptSinkPath "byte list"
  | OptHwm "byte list" | OptLwm "byte list" | OptMaxFrame "byte list" | OptMaxMessage "byte list"
  | OptTick "byte list" | OptUpstream "byte list" | OptHelp | OptUnknown

text \<open>
  One round of the \<open>while\<close> loop. The result is the value \<open>parseArgs\<close> returns at once (-1 is an error, 1 that
  the help was printed), or the configuration so far.
\<close>

definition setPositive :: "(nat \<Rightarrow> ServerConfig_t) \<Rightarrow> byte list \<Rightarrow> int + ServerConfig_t" where
  "setPositive put arg = (let v = parsePositive arg in if v < 0 then Inl (-1) else Inr (put (nat v)))"

definition setRange :: "int \<Rightarrow> (int \<Rightarrow> ServerConfig_t) \<Rightarrow> byte list \<Rightarrow> int + ServerConfig_t" where
  "setRange hi put arg = (let v = atoi arg in if v < 1 \<or> hi < v then Inl (-1) else Inr (put v))"

definition parseOption :: "getopt_res \<Rightarrow> ServerConfig_t \<Rightarrow> 'a os_scheme \<Rightarrow> (int + ServerConfig_t) \<times> 'a os_scheme" where
  "parseOption opt conf s = (case opt of
       OptPort arg \<Rightarrow> (setRange 65535 (\<lambda>v. conf\<lparr>port := v\<rparr>) arg, s)
     | OptWorkers arg \<Rightarrow> (setRange MAX_WORKERS (\<lambda>v. conf\<lparr>workers := v\<rparr>) arg, s)
     | OptListeners arg \<Rightarrow> (setRange MAX_LISTENERS (\<lambda>v. conf\<lparr>listeners := v\<rparr>) arg, s)
     | OptSinkPath arg \<Rightarrow> (if arg = [] \<or> hd arg \<noteq> 47 then Inl (-1) else Inr (conf\<lparr>sinkPath := arg\<rparr>), s)
     | OptHwm arg \<Rightarrow> (setPositive (\<lambda>v. conf\<lparr>confHigh := v\<rparr>) arg, s)
     | OptLwm arg \<Rightarrow> (setPositive (\<lambda>v. conf\<lparr>confLow := v\<rparr>) arg, s)
     | OptMaxFrame arg \<Rightarrow> (setPositive (\<lambda>v. conf\<lparr>maxFrame := v\<rparr>) arg, s)
     | OptMaxMessage arg \<Rightarrow> (setPositive (\<lambda>v. conf\<lparr>maxMessage := v\<rparr>) arg, s)
     | OptTick arg \<Rightarrow> (setPositive (\<lambda>v. conf\<lparr>tickMs := sint (of_nat v :: 32 word)\<rparr>) arg, s)
     | OptUpstream arg \<Rightarrow> (case addUpstreamUrl conf arg s of (rc, conf1, s1) \<Rightarrow>
         (if rc \<noteq> 0 then Inl (-1) else Inr conf1, s1))
     | OptHelp \<Rightarrow> (Inl 1, s)
     | OptUnknown \<Rightarrow> (Inl (-1), s))"

fun parseLoop :: "getopt_res list \<Rightarrow> ServerConfig_t \<Rightarrow> 'a os_scheme \<Rightarrow> (int + ServerConfig_t) \<times> 'a os_scheme" where
  "parseLoop [] conf s = (if confHigh conf \<le> confLow conf then Inl (-1) else Inr conf, s)"
| "parseLoop (opt # opts) conf s = (case parseOption opt conf s of
       (Inl rc, s1) \<Rightarrow> (Inl rc, s1)
     | (Inr conf1, s1) \<Rightarrow> parseLoop opts conf1 s1)"

definition parseArgs :: "getopt_res list \<Rightarrow> 'a os_scheme \<Rightarrow> (int + ServerConfig_t) \<times> 'a os_scheme" where
  "parseArgs opts s = parseLoop opts server_defaults s"

subsection \<open>Correctness\<close>

text \<open>What a successful start may rely on.\<close>

definition upstreamOk :: "UpstreamConfig_t \<Rightarrow> bool" where
  "upstreamOk u \<longleftrightarrow> 0 < length (uhost u) \<and> length (uhost u) < 256 \<and> 47 \<notin> set (uhost u) \<and>
     1 \<le> uport u \<and> uport u \<le> 65535 \<and> length (upath u) < 512 \<and> upath u \<noteq> [] \<and> hd (upath u) = 47"

definition optionsOk :: "ServerConfig_t \<Rightarrow> bool" where
  "optionsOk conf \<longleftrightarrow> 1 \<le> port conf \<and> port conf \<le> 65535 \<and> 1 \<le> workers conf \<and> workers conf \<le> 64 \<and>
     1 \<le> listeners conf \<and> listeners conf \<le> 16 \<and> sinkPath conf \<noteq> [] \<and> hd (sinkPath conf) = 47 \<and>
     handshakeMax conf = 8192 \<and> 0 < maxFrame conf \<and> maxFrame conf < 2 ^ 63 \<and>
     0 < maxMessage conf \<and> maxMessage conf < 2 ^ 63 \<and> 0 < confHigh conf \<and> 0 < confLow conf \<and>
     list_all upstreamOk (upstreams conf) \<and> length (upstreams conf) \<le> upstreamCapacity conf"

lemma strtol_range: "strtol s = (v, e) \<Longrightarrow> - (2 ^ 63) \<le> v \<and> v < 2 ^ 63"
  by (auto simp: strtol_def Let_def LONG_MAX_def LONG_MIN_def split: if_splits)

lemma parsePositive_range: "0 < parsePositive s \<or> parsePositive s = -1" "parsePositive s < 2 ^ 63"
  using strtol_range [of s] by (auto simp: parsePositive_def split: prod.splits)

lemma setPositive_Inr:
  "setPositive put arg = Inr c \<longleftrightarrow> (\<exists>v. 0 < v \<and> v < 2 ^ 63 \<and> int v = parsePositive arg \<and> c = put v)"
  using parsePositive_range [of arg]
  by (auto simp: setPositive_def Let_def nat_less_iff intro!: exI [of _ "nat (parsePositive arg)"]) (metis nat_int)

lemma setRange_Inr: "setRange hi put arg = Inr c \<longleftrightarrow> (\<exists>v. 1 \<le> v \<and> v \<le> hi \<and> v = atoi arg \<and> c = put v)"
  by (auto simp: setRange_def Let_def)

lemma split_at: "c \<notin> set xs \<Longrightarrow> takeWhile (\<lambda>d. d \<noteq> c) (xs @ c # ys) = xs \<and> dropWhile (\<lambda>d. d \<noteq> c) (xs @ c # ys) = c # ys"
  by (induction xs) auto

text \<open>The two forms of an authority.\<close>

lemma splitAuthority_bracket:
  assumes "93 \<notin> set h"
  shows "splitAuthority (91 # h @ 93 # 58 # pt) = Some (h, pt)"
proof -
  have "takeWhile (\<lambda>c. c \<noteq> 93) (91 # h @ 93 # 58 # pt) = 91 # h" using assms split_at [of 93 h "58 # pt"] by simp
  then show ?thesis by (simp add: splitAuthority_def nth_append Let_def)
qed

lemma splitAuthority_colon:
  assumes "h = [] \<or> hd h \<noteq> 91" and "58 \<notin> set pt"
  shows "splitAuthority (h @ 58 # pt) = Some (h, pt)"
proof -
  have "takeWhile (\<lambda>c. c \<noteq> 58) (rev (h @ 58 # pt)) = rev pt" using assms(2) split_at [of 58 "rev pt" "rev h"] by simp
  moreover have "hd (h @ 58 # pt) \<noteq> 91" using assms(1) by (cases h) auto
  ultimately show ?thesis by (simp add: splitAuthority_def Let_def)
qed

lemma splitAuthority_sub:
  assumes "splitAuthority a = Some (h, pt)"
  shows "set h \<subseteq> set a"
proof -
  have "set (take k (drop j a)) \<subseteq> set a" for k j by (meson order.trans set_drop_subset set_take_subset)
  from this [of _ 1] this [of _ 0] assms show ?thesis
    by (auto simp: splitAuthority_def Let_def split: if_splits)
qed

lemma upstreamPort_range: "upstreamPort pt = Some v \<Longrightarrow> 1 \<le> v \<and> v \<le> 65535"
  by (auto simp: upstreamPort_def split: if_splits prod.splits)

lemma ensureUpstreamCapacity_ok:
  assumes "ensureUpstreamCapacity conf s = (0, conf', s')" and "length (upstreams conf) \<le> upstreamCapacity conf"
  shows "\<exists>n. conf' = conf\<lparr>upstreamCapacity := n\<rparr> \<and> length (upstreams conf) < n"
  using assms by (intro exI [of _ "upstreamCapacity conf'"])
    (auto simp: ensureUpstreamCapacity_def Let_def split: if_splits prod.splits)

lemma dropWhile_slash: "dropWhile (\<lambda>c. c \<noteq> x) p \<noteq> [] \<Longrightarrow> hd (dropWhile (\<lambda>c. c \<noteq> x) p) = x"
  using hd_dropWhile [of "\<lambda>c. c \<noteq> x" p] by simp

lemma addUpstreamUrl_ok:
  assumes "addUpstreamUrl conf url s = (0, conf', s')" and "length (upstreams conf) \<le> upstreamCapacity conf"
  shows "\<exists>u n. conf' = conf\<lparr>upstreams := upstreams conf @ [u], upstreamCapacity := n\<rparr> \<and> upstreamOk u \<and>
    length (upstreams conf) < n"
proof -
  define a where "a = takeWhile (\<lambda>c. c \<noteq> 47) (drop 5 url)"
  define sl where "sl = dropWhile (\<lambda>c. c \<noteq> 47) (drop 5 url)"
  define path where "path = (if sl \<noteq> [] then sl else [47])"
  obtain h pt v conf1 s1 where c: "splitAuthority a = Some (h, pt)" "0 < length h" "length h < 256"
    "upstreamPort pt = Some v" "length path < 512" "ensureUpstreamCapacity conf s = (0, conf1, s1)"
    "conf' = conf1\<lparr>upstreams := upstreams conf1 @ [\<lparr>uhost = h, uport = v, upath = path\<rparr>]\<rparr>"
    using assms(1) by (auto simp: addUpstreamUrl_def Let_def a_def sl_def path_def UPSTREAM_HOST_MAX_def
        UPSTREAM_PATH_MAX_def split: if_splits option.splits prod.splits)
  have "47 \<notin> set a" by (auto simp: a_def dest: set_takeWhileD)
  then have "47 \<notin> set h" using splitAuthority_sub [OF c(1)] by auto
  moreover have "path \<noteq> []" "hd path = 47" using dropWhile_slash [of 47 "drop 5 url"] by (simp_all add: path_def sl_def)
  ultimately have "upstreamOk \<lparr>uhost = h, uport = v, upath = path\<rparr>"
    using c upstreamPort_range [OF c(4)] by (simp add: upstreamOk_def)
  then show ?thesis using ensureUpstreamCapacity_ok [OF c(6) assms(2)] c(7) by (cases conf) auto
qed

lemma parseOption_ok:
  assumes "parseOption opt conf s = (Inr conf', s')" and "optionsOk conf"
  shows "optionsOk conf'"
proof (cases opt)
  case (OptUpstream arg)
  obtain c1 where "addUpstreamUrl conf arg s = (0, c1, s')" "conf' = c1"
    using assms(1) OptUpstream by (auto simp: parseOption_def split: prod.splits if_splits)
  with addUpstreamUrl_ok [of conf arg s c1 s'] assms(2) show ?thesis by (auto simp: optionsOk_def)
qed (use assms in \<open>(clarsimp simp: parseOption_def optionsOk_def setPositive_Inr setRange_Inr MAX_WORKERS_def
    MAX_LISTENERS_def split: if_splits)+\<close>)

lemma parseLoop_ok:
  "parseLoop opts conf s = (Inr conf', s') \<Longrightarrow> optionsOk conf \<Longrightarrow> optionsOk conf' \<and> confLow conf' < confHigh conf'"
proof (induction opts arbitrary: conf s)
  case (Cons opt opts)
  then show ?case using parseOption_ok [of opt conf s] by (auto split: prod.splits sum.splits)
qed (auto split: if_splits)

lemma optionsOk_defaults: "optionsOk server_defaults"
  by (simp add: optionsOk_def server_defaults_def bytes_def)

text \<open>Printing a number and reading it back.\<close>

lemma digitsVal_snoc: "digitsVal (ds @ [d]) = 10 * digitsVal ds + (unat d - 48)"
  by (simp add: digitsVal_def)

lemma digitsVal_dec: "digitsVal (dec n) = n"
proof (induction n rule: dec.induct)
  case (1 n)
  show ?case
  proof (cases "n < 10")
    case True
    then show ?thesis by (subst dec.simps) (simp add: digitsVal_def unat_digit)
  next
    case False
    then show ?thesis using 1 by (subst dec.simps) (simp add: digitsVal_snoc unat_digit)
  qed
qed

lemma isdigit_dec: "c \<in> set (dec n) \<Longrightarrow> isdigit c"
  using dec_digits [of n] by (auto simp: isdigit_def word_le_nat_alt)

lemma strtol_dec:
  assumes "int n \<le> LONG_MAX"
  shows "strtol (dec n) = (int n, [])"
proof -
  obtain c cs where d: "dec n = c # cs" using dec_not_Nil [of n] by (cases "dec n") auto
  then have "isdigit c" using isdigit_dec [of c n] by simp
  then have c: "\<not> isspace c" "c \<noteq> 45" "c \<noteq> 43"
    by (auto simp: isdigit_def isspace_def word_le_nat_alt)
  have "takeWhile isdigit (dec n) = dec n" "dropWhile isdigit (dec n) = []" using isdigit_dec by auto
  moreover have "dropWhile isspace (dec n) = dec n" "hd (dec n) = c" using c d by simp_all
  ultimately show ?thesis using c assms 
    by (simp add: strtol_def Let_def digitsVal_dec LONG_MIN_def del: takeWhile_eq_all_conv dropWhile_eq_Nil_conv)
qed

text \<open>Evaluation of concrete arguments.\<close>

lemmas strtol_eval = strtol_def bytes_def isspace_def isdigit_def digitsVal_def LONG_MAX_def LONG_MIN_def
lemmas option_eval = strtol_eval atoi_def parseArgs_def parseOption_def setRange_def setPositive_def parsePositive_def
  server_defaults_def MAX_WORKERS_def MAX_LISTENERS_def
lemmas url_eval = addUpstreamUrl_def splitAuthority_def upstreamPort_def ensureUpstreamCapacity_def os_alloc_def
  os_idle_def UPSTREAM_HOST_MAX_def UPSTREAM_PATH_MAX_def

subsection \<open>Properties\<close>

text \<open>C22: A configuration that \<open>parseArgs\<close> accepts is well formed whatever the arguments were: the port, the
  numbers of threads and the limits are in range, the low watermark is below the high one, the sink path
  starts with a slash, and every upstream has a host, a port and a path that fit their arrays.\<close>

theorem parseArgs_wellformed:
  assumes "parseArgs opts s = (Inr conf, s')"
  shows "optionsOk conf \<and> confLow conf < confHigh conf"
  using parseLoop_ok [OF assms [unfolded parseArgs_def] optionsOk_defaults] .

theorem parseArgs_wellformed_witness:
  "case fst (parseArgs [OptPort (bytes ''8080''), OptUpstream (bytes ''ws://[::1]:33335/feed''), OptHwm (bytes '' +200'')] os_idle) of
     Inl _ \<Rightarrow> False
   | Inr conf \<Rightarrow> optionsOk conf \<and> confLow conf < confHigh conf \<and> port conf = 8080 \<and>
       upstreams conf = [\<lparr>uhost = bytes ''::1'', uport = 33335, upath = bytes ''/feed''\<rparr>]"
proof -
  define opts where "opts = [OptPort (bytes ''8080''), OptUpstream (bytes ''ws://[::1]:33335/feed''), OptHwm (bytes '' +200'')]"
  have "(case fst (parseArgs opts os_idle) of Inl _ \<Rightarrow> False | Inr conf \<Rightarrow> port conf = 8080 \<and>
       upstreams conf = [\<lparr>uhost = bytes ''::1'', uport = 33335, upath = bytes ''/feed''\<rparr>])"
    unfolding opts_def by (simp add: option_eval url_eval Let_def)
  with parseArgs_wellformed [of opts os_idle] show ?thesis
    unfolding opts_def [symmetric] by (cases "parseArgs opts os_idle") (auto split: sum.splits)
qed

text \<open>How an upstream is written: \<open>ws://host:port/path\<close>, with brackets around a host that contains a colon.\<close>

definition urlText :: "UpstreamConfig_t \<Rightarrow> byte list" where
  "urlText u = bytes ''ws://'' @
     (if 58 \<in> set (uhost u) then [91] @ uhost u @ [93] else uhost u) @ [58] @ dec (nat (uport u)) @ upath u"

text \<open>C39: Every upstream can be given on the command line: the URL written for a host name, an IPv4 or a bracketed
  IPv6 address, a port and a path is read back as exactly that upstream, appended to those before it
  (or -1 when memory is exhausted, with the list unchanged).\<close>

theorem addUpstreamUrl_roundtrip:
  assumes "upstreamOk u" and "93 \<notin> set (uhost u)" and "hd (uhost u) \<noteq> 91"
  shows "case addUpstreamUrl conf (urlText u) s of (rc, conf', s') \<Rightarrow>
    rc = 0 \<and> upstreams conf' = upstreams conf @ [u] \<or>
    rc = -1 \<and> upstreams conf' = upstreams conf \<and> mallocs s \<noteq> []"
proof -
  let ?pt = "dec (nat (uport u))"
  define a where "a = (if 58 \<in> set (uhost u) then [91] @ uhost u @ [93] else uhost u) @ [58] @ ?pt"
  have u: "0 < length (uhost u)" "length (uhost u) < 256" "47 \<notin> set (uhost u)" "1 \<le> uport u" "uport u \<le> 65535"
    "length (upath u) < 512" "upath u \<noteq> []" "hd (upath u) = 47" using assms(1) by (simp_all add: upstreamOk_def)
  then obtain p where p: "upath u = 47 # p" by (cases "upath u") auto
  have eq: "\<lparr>uhost = uhost u, uport = uport u, upath = upath u\<rparr> = u" by (cases u) simp
  have dig: "\<not> isdigit 58" "\<not> isdigit 47" by (simp_all add: isdigit_def word_le_nat_alt)
  then have pt: "58 \<notin> set ?pt" "47 \<notin> set ?pt" using isdigit_dec by blast+
  have "length ?pt \<le> 5" using u by (intro length_dec) simp_all
  moreover have "strtol ?pt = (uport u, [])" using strtol_dec [of "nat (uport u)"] u by (simp add: LONG_MAX_def)
  ultimately have port: "upstreamPort ?pt = Some (uport u)" using u by (simp add: upstreamPort_def)
  have auth: "splitAuthority a = Some (uhost u, ?pt)"
    using splitAuthority_bracket [OF assms(2), of ?pt] splitAuthority_colon [of "uhost u" ?pt] assms(3) pt(1)
    by (simp add: a_def)
  have "47 \<notin> set a" using u pt by (auto simp: a_def)
  from split_at [OF this, of p] have "takeWhile (\<lambda>c. c \<noteq> 47) (a @ upath u) = a" "dropWhile (\<lambda>c. c \<noteq> 47) (a @ upath u) = upath u"
    by (simp_all add: p)
  moreover have "urlText u = bytes ''ws://'' @ a @ upath u" by (simp add: urlText_def a_def)
  moreover have "length (bytes ''ws://'') = 5" by simp
  ultimately have "addUpstreamUrl conf (urlText u) s = (case ensureUpstreamCapacity conf s of (rc, conf1, s1) \<Rightarrow>
      if rc \<noteq> 0 then (-1, conf1, s1)
      else (0, conf1\<lparr>upstreams := upstreams conf1 @ [\<lparr>uhost = uhost u, uport = uport u, upath = upath u\<rparr>]\<rparr>, s1))"
    using auth port u by (simp add: addUpstreamUrl_def Let_def UPSTREAM_HOST_MAX_def UPSTREAM_PATH_MAX_def)
  then show ?thesis unfolding eq
    by (auto simp: ensureUpstreamCapacity_def Let_def os_alloc_def split: prod.splits list.splits if_splits)
qed

definition loopback_upstream :: UpstreamConfig_t where
  "loopback_upstream = \<lparr>uhost = bytes ''::1'', uport = 33335, upath = bytes ''/feed''\<rparr>"

theorem addUpstreamUrl_roundtrip_witness:
  "urlText loopback_upstream = bytes ''ws://[::1]:33335/feed'' \<and>
   (case addUpstreamUrl server_defaults (urlText loopback_upstream) os_idle of (rc, conf', s') \<Rightarrow>
      rc = 0 \<and> upstreams conf' = [loopback_upstream])"
proof -
  have "upstreamOk loopback_upstream" "93 \<notin> set (uhost loopback_upstream)" "hd (uhost loopback_upstream) \<noteq> 91"
    by (simp_all add: upstreamOk_def loopback_upstream_def bytes_def)
  from addUpstreamUrl_roundtrip [OF this, of server_defaults os_idle]
  have "case addUpstreamUrl server_defaults (urlText loopback_upstream) os_idle of (rc, conf', s') \<Rightarrow>
      rc = 0 \<and> upstreams conf' = [loopback_upstream]"
    by (simp add: server_defaults_def os_idle_def split: prod.splits)
  moreover have "urlText loopback_upstream = bytes ''ws://[::1]:33335/feed''"
    by (simp add: urlText_def loopback_upstream_def bytes_def dec.simps)
  ultimately show ?thesis by simp
qed

text \<open>The conversions wrap around: a tick period of \<open>2 ^ 32 + 1\<close> milliseconds is accepted and stored as 1,
  \<open>2 ^ 31\<close> is stored as a negative number, and \<open>--port 4294967376\<close> is accepted as port 80.\<close>

lemma parseArgs_truncates:
  "map_sum id tickMs (fst (parseArgs [OptTick (bytes ''4294967297'')] os_idle)) = Inr 1 \<and>
   map_sum id tickMs (fst (parseArgs [OptTick (bytes ''2147483648'')] os_idle)) = Inr (- 2147483648) \<and>
   map_sum id port (fst (parseArgs [OptPort (bytes ''4294967376'')] os_idle)) = Inr 80"
  by (simp add: option_eval)

end
