(* ===== verification/Startup.thy ===== *)
theory Startup
  imports Effects Options
begin

section \<open>Starting the server and its threads (src/src/server.c, listener.c, agg.c)\<close>

text \<open>
  What each thread does before its loop, and \<open>main\<close> up to \<open>sigwait\<close>. The answers of the system calls that
  have no script of their own (sockets, \<open>pthread_create\<close>, \<open>eventfd\<close>, \<open>timerfd_create\<close>, the logger's file) are
  fields of records, one per caller; the loggers' messages are left out.
\<close>

subsection \<open>A listener before its loop\<close>

record listen_env =
  leSocket :: int
  leReuse :: bool
  leBind :: bool
  leListen :: bool
  leNonblock :: bool
  leEpoll :: int

text \<open>
  The new value of \<open>larg->epollfd\<close> and, unless the thread returns at once, the listening socket with the
  answer of the last \<open>epoll_ctl\<close>, the one that registers the eventfd of the shutdown. The code does not
  look at that answer, but it decides what the kernel will report to the thread (theory Server).
\<close>

definition listenerSetup :: "listen_env \<Rightarrow> int \<Rightarrow> 'a os_scheme \<Rightarrow> int \<times> (int \<times> int) option \<times> 'a os_scheme" where
  "listenerSetup e shutfd s =
     (if leSocket e < 0 then (-1, None, s)
      else if \<not> leReuse e then (-1, None, os_close (leSocket e) s)
      else if \<not> leBind e then (-1, None, os_close (leSocket e) s)
      else if \<not> leListen e then (-1, None, os_close (leSocket e) s)
      else if \<not> leNonblock e then (-1, None, os_close (leSocket e) s)
      else if leEpoll e = -1 then (-1, None, os_close (leSocket e) s)
      else case os_epoll_ctl (leEpoll e) EPOLL_CTL_ADD (leSocket e) [EPOLLIN, EPOLLET] s of (rc, s1) \<Rightarrow>
        if rc = -1 then (leEpoll e, None, os_close (leSocket e) s1)
        else case os_epoll_ctl (leEpoll e) EPOLL_CTL_ADD shutfd [EPOLLIN] s1 of (rc2, s2) \<Rightarrow>
          (leEpoll e, Some (leSocket e, rc2), s2))"

subsection \<open>The aggregator before its loop\<close>

record agg_env =
  aeEpoll :: int
  aeDataFd :: int
  aeCtrlFd :: int
  aeTimer :: int

text \<open>The period of the timer.\<close>

definition DEFAULT_TICK_MS :: int where "DEFAULT_TICK_MS = 1000"

definition tickSpec :: "ServerConfig_t \<Rightarrow> timespec" where
  "tickSpec conf = (let ms = (if 0 < tickMs conf then tickMs conf else DEFAULT_TICK_MS)
     in \<lparr>tv_sec = nat (ms div 1000), tv_nsec = nat (ms mod 1000 * 1000000)\<rparr>)"

text \<open>The timer's descriptor (-1 without one) and period, unless the thread returns at once.\<close>

definition aggStart :: "ServerConfig_t \<Rightarrow> agg_env \<Rightarrow> 'a world_scheme \<Rightarrow> (int \<times> timespec) option \<times> 'a world_scheme" where
  "aggStart conf e w =
     (if aeEpoll e = -1 then (None, w)
      else
        let ep = aeEpoll e;
            w1 = upd_agg (\<lambda>a. a\<lparr>aepollfd := ep\<rparr>) w;
            (dataFd, qd) = queueEnableNotify (aeDataFd e) (dataQueue w1);
            w2 = w1\<lparr>dataQueue := qd\<rparr>;
            (ctrlFd, qc) = queueEnableNotify (aeCtrlFd e) (ctrlQueue w2);
            w3 = w2\<lparr>ctrlQueue := qc\<rparr>
        in if dataFd = -1 \<or> ctrlFd = -1 then (None, os_close ep w3)
        else
          let w4 = snd (os_epoll_ctl ep EPOLL_CTL_ADD dataFd [EPOLLIN] w3);
              w5 = snd (os_epoll_ctl ep EPOLL_CTL_ADD ctrlFd [EPOLLIN] w4);
              w6 = (if aeTimer e \<noteq> -1 then snd (os_epoll_ctl ep EPOLL_CTL_ADD (aeTimer e) [EPOLLIN] w5) else w5)
          in (Some (aeTimer e, tickSpec conf), w6))"

subsection \<open>The upstream reactor\<close>

text \<open>The loop over the configured servers, with its counter \<open>added\<close>.\<close>

fun addUpstreams :: "UpstreamConfig_t list \<Rightarrow> nat \<Rightarrow> UpstreamReactor_t \<Rightarrow> 'a os_scheme \<Rightarrow> nat \<times> UpstreamReactor_t \<times> 'a os_scheme" where
  "addUpstreams [] added r s = (added, r, s)"
| "addUpstreams (u # us) added r s = (case upstreamAdd r (uhost u) (uport u) (upath u) s of (rc, r1, s1) \<Rightarrow>
     if rc \<noteq> 0 then addUpstreams us added r1 s1 else addUpstreams us (added + 1) r1 s1)"

text \<open>\<open>upstream\<close> and \<open>upstreamOk\<close>; the arguments are the answers of \<open>epoll_create1\<close> and \<open>pthread_create\<close>.\<close>

definition startReactor :: "ServerConfig_t \<Rightarrow> int \<Rightarrow> bool \<Rightarrow> 'a os_scheme \<Rightarrow> (UpstreamReactor_t option \<times> bool) \<times> 'a os_scheme" where
  "startReactor conf epfd thread s =
     (if upstreams conf = [] then ((None, False), s)
      else case upstreamCreate epfd s of
          (None, s1) \<Rightarrow> ((None, False), s1)
        | (Some r, s1) \<Rightarrow> (case addUpstreams (upstreams conf) 0 r s1 of (added, r1, s2) \<Rightarrow>
            if added = 0 then ((None, False), upstreamDestroy r1 s2)
            else if \<not> thread then ((None, False), upstreamDestroy r1 s2)
            else ((Some r1, True), s2)))"

subsection \<open>The shared state\<close>

record start_env =
  seLogger :: bool
  seSigmask :: bool
  seEventfd :: int
  seWorkers :: "nat \<Rightarrow> bool"
  seListeners :: "nat \<Rightarrow> bool"
  seAgg :: bool
  seReactorFd :: int
  seReactor :: bool

text \<open>\<open>createQueue\<close> when memory or the mutex cannot be had.\<close>

definition newQueue :: "'a os_scheme \<Rightarrow> 'q Queue_t option \<times> 'a os_scheme" where
  "newQueue s = (case os_alloc s of (ok, s1) \<Rightarrow> (if ok then Some createQueue else None, s1))"

text \<open>The state when \<open>main\<close> reaches its first \<open>pthread_create\<close>, or what an early exit leaves.\<close>

definition serverInit :: "ServerConfig_t \<Rightarrow> start_env \<Rightarrow> os \<Rightarrow> os + server_world" where
  "serverInit conf e s =
     (if \<not> seLogger e then Inl s
      else if \<not> seSigmask e then Inl s
      else
        let (q, s1) = newQueue s; (d, s2) = newQueue s1; (c, s3) = newQueue s2
        in case (q, d, c) of
            (Some q, Some d, Some c) \<Rightarrow>
              if seEventfd e = -1 then Inl s3
              else
                let (w, s4) = os_alloc s3; (l, s5) = os_alloc s4; (a, s6) = os_alloc s5
                in if \<not> w \<or> \<not> l \<or> \<not> a then Inl (os_close (seEventfd e) s6)
                else Inr (world.extend (conn_world.extend (os.extend s6 (conn_world.fields (\<lambda>_. None) None 1))
                       (world.fields q d c (aggInit (confHigh conf) (confLow conf)))) (server_world.fields 0))
          | _ \<Rightarrow> Inl s3)"

subsection \<open>Main up to the wait for a signal\<close>

text \<open>
  Where a listener and the aggregator are. A listener in its loop has its socket, and the kernel's knowledge
  whether the eventfd of the shutdown is registered with its epoll descriptor. A thread that
  \<open>pthread_create\<close> could not create counts as over: \<open>main\<close> does not wait for it.
\<close>

datatype listener_at = LisStart | LisLoop int bool | LisDone

datatype agg_at = AggStart | AggLoop int | AggDone

datatype main_pc = M_Wait | M_JoinReactor | M_JoinListeners | M_JoinWorkers | M_JoinAgg | M_Exit

record Server =
  sconf :: ServerConfig_t
  sw :: server_world
  largs :: "int list"
  lisAt :: "listener_at list"
  workersMade :: "bool list"
  workersUp :: "bool list"
  aggAt :: agg_at
  upReactor :: "UpstreamReactor_t option"
  reactorUp :: bool
  shutdownFlag :: bool
  shutdownfd :: int
  eventReady :: bool
  mainAt :: main_pc

definition EXIT_SUCCESS :: int where "EXIT_SUCCESS = 0"
definition EXIT_FAILURE :: int where "EXIT_FAILURE = 1"

definition initWorkerPool :: "ServerConfig_t \<Rightarrow> start_env \<Rightarrow> bool list" where
  "initWorkerPool conf e = map (seWorkers e) [0..<nat (workers conf)]"

definition initListenerPool :: "ServerConfig_t \<Rightarrow> start_env \<Rightarrow> int list \<times> listener_at list" where
  "initListenerPool conf e =
     (replicate (nat (listeners conf)) (-1),
      map (\<lambda>i. if seListeners e i then LisStart else LisDone) [0..<nat (listeners conf)])"

text \<open>An early return's exit code, or the state in which \<open>main\<close> waits.\<close>

definition serverMain :: "getopt_res list \<Rightarrow> start_env \<Rightarrow> os \<Rightarrow> (int \<times> os) + Server" where
  "serverMain opts e s = (case parseArgs opts s of
       (Inl rc, s1) \<Rightarrow> Inl (if rc = 1 then EXIT_SUCCESS else EXIT_FAILURE, s1)
     | (Inr conf, s1) \<Rightarrow> (case serverInit conf e s1 of
         Inl s2 \<Rightarrow> Inl (EXIT_FAILURE, s2)
       | Inr w \<Rightarrow>
           let ws = initWorkerPool conf e;
               (ls, lat) = initListenerPool conf e;
               ((up, upOk), w1) = startReactor conf (seReactorFd e) (seReactor e) w
           in Inr \<lparr>sconf = conf, sw = w1, largs = ls, lisAt = lat, workersMade = ws, workersUp = ws,
                   aggAt = (if seAgg e then AggStart else AggDone), upReactor = up, reactorUp = upOk,
                   shutdownFlag = False, shutdownfd = seEventfd e, eventReady = False, mainAt = M_Wait\<rparr>))"

end
