(* ===== verification/Server.thy ===== *)
theory Server
  imports Startup
begin

section \<open>The server: its threads until the end (src/src/server.c)\<close>

text \<open>
  \<open>main\<close> after the signal, and the server as a step relation: one turn of a listener, a worker, the
  aggregator or the reactor, one step of \<open>main\<close>, or the environment changing what the system calls will
  answer. Every state that can be reached from a start keeps the invariants, \<open>main\<close> stops the threads in an
  order in which nobody writes to a queue whose readers are gone, and its clean-up never touches freed memory.
  That the server comes to its end is shown in theory ServerLiveness.
\<close>

subsection \<open>Main after the signal\<close>

definition closeListenerFds :: "int list \<Rightarrow> 'a os_scheme \<Rightarrow> 'a os_scheme" where
  "closeListenerFds = fold (\<lambda>fd s. if 0 \<le> fd then os_close fd s else s)"

text \<open>The clean-up; \<open>None\<close> is the use of a dangling pointer.\<close>

definition serverCleanup :: "Server \<Rightarrow> Server option" where
  "serverCleanup z =
     (let w1 = closeListenerFds (largs z) (sw z)
      in case registryDestroyAll w1 of None \<Rightarrow> None
       | Some w2 \<Rightarrow>
           let w3 = os_close (shutdownfd z) w2
           in case deleteQueueWith (ingest w3) w3 of None \<Rightarrow> None
            | Some (_, q, w4) \<Rightarrow>
                let w5 = w4\<lparr>ingest := q\<rparr>
                in case deleteQueueWith (dataQueue w5) w5 of None \<Rightarrow> None
                 | Some (_, d, w6) \<Rightarrow>
                     let w7 = w6\<lparr>dataQueue := d\<rparr>
                     in case deleteQueueWith (ctrlQueue w7) w7 of None \<Rightarrow> None
                      | Some (_, c, w8) \<Rightarrow>
                          Some (z\<lparr>sconf := (sconf z)\<lparr>upstreams := [], upstreamCapacity := 0\<rparr>,
                                  sw := w8\<lparr>ctrlQueue := c\<rparr>, mainAt := M_Exit\<rparr>))"

datatype main_res = MainBlocked | MainFault | MainGo Server

text \<open>
  From one wait to the next; the argument says whether \<open>write\<close> to the eventfd succeeds. The loops over
  \<open>pthread_join\<close> go on when all the threads are over.
\<close>

definition mainStep :: "bool \<Rightarrow> Server \<Rightarrow> main_res" where
  "mainStep written z = (case mainAt z of
       M_Wait \<Rightarrow> MainGo (z\<lparr>shutdownFlag := True, eventReady := written, mainAt := M_JoinReactor\<rparr>)
     | M_JoinReactor \<Rightarrow>
         if reactorUp z then MainBlocked
         else MainGo (z\<lparr>sw := (case upReactor z of Some r \<Rightarrow> upstreamDestroy r (sw z) | None \<Rightarrow> sw z),
                        upReactor := None, mainAt := M_JoinListeners\<rparr>)
     | M_JoinListeners \<Rightarrow>
         if list_ex (\<lambda>l. l \<noteq> LisDone) (lisAt z) then MainBlocked
         else MainGo (z\<lparr>sw := (sw z)\<lparr>ingest := shutdownQueue (ingest (sw z))\<rparr>, mainAt := M_JoinWorkers\<rparr>)
     | M_JoinWorkers \<Rightarrow>
         if list_ex (\<lambda>up. up) (workersUp z) then MainBlocked
         else MainGo (z\<lparr>sw := (sw z)\<lparr>dataQueue := shutdownQueue (dataQueue (sw z)),
                                        ctrlQueue := shutdownQueue (ctrlQueue (sw z))\<rparr>, mainAt := M_JoinAgg\<rparr>)
     | M_JoinAgg \<Rightarrow>
         if aggAt z \<noteq> AggDone then MainBlocked
         else (case serverCleanup z of None \<Rightarrow> MainFault | Some z' \<Rightarrow> MainGo z')
     | M_Exit \<Rightarrow> MainBlocked)"

subsection \<open>The steps\<close>

text \<open>
  The first argument of the step relation says whether calls may fail. A step without failures answers every
  call of the turn with success: the scripts hold no failure (\<open>noFailure\<close>), and neither do the answers that
  a step is given directly (\<open>listenOk\<close>, \<open>levSucceeds\<close>, \<open>aggOk\<close>, \<open>roundSucceeds\<close>).
\<close>

definition noFailure :: "'a os_scheme \<Rightarrow> bool" where
  "noFailure s \<longleftrightarrow> mallocs s = [] \<and> ep_rets s = [] \<and> (\<forall>fd. RxErr \<notin> set (rxs s fd) \<and> IoErr \<notin> set (txs s fd)) \<and>
     RndErr \<notin> set (rands s)"

definition listenOk :: "listen_env \<Rightarrow> bool" where
  "listenOk e \<longleftrightarrow> 0 \<le> leSocket e \<and> leReuse e \<and> leBind e \<and> leListen e \<and> leNonblock e \<and> leEpoll e \<noteq> -1"

fun levSucceeds :: "listen_event \<Rightarrow> bool" where
  "levSucceeds (LevListen rs) \<longleftrightarrow> list_all (\<lambda>r. case r of
       AcceptFd fd nonblock mem ip \<Rightarrow> nonblock \<and> mem \<noteq> None | AcceptAgain \<Rightarrow> True | AcceptErr \<Rightarrow> False) rs"
| "levSucceeds e \<longleftrightarrow> True"

definition aggOk :: "agg_env \<Rightarrow> bool" where
  "aggOk e \<longleftrightarrow> aeEpoll e \<noteq> -1 \<and> aeDataFd e \<noteq> -1 \<and> aeCtrlFd e \<noteq> -1 \<and> aeTimer e \<noteq> -1"

definition roundSucceeds :: "connect_res list option list \<Rightarrow> reactor_wait \<Rightarrow> UpstreamReactor_t \<Rightarrow> bool" where
  "roundSucceeds ans wait r \<longleftrightarrow> length (upClients r) \<le> length ans \<and>
     list_all (\<lambda>a. case a of Some (ConnectStarted fd # _) \<Rightarrow> True | _ \<Rightarrow> False) ans \<and>
     (case wait of WaitErr \<Rightarrow> False | WaitIntr \<Rightarrow> True | WaitEvents es \<Rightarrow> list_all (\<lambda>(i, evs, err). err \<noteq> None) es)"

text \<open>
  Is the eventfd registered with the epoll descriptor a listener has just created? It is if the listener's calls
  (the end of the log) added it there and the kernel did not refuse.
\<close>

definition wakeable :: "int \<Rightarrow> int \<Rightarrow> int \<Rightarrow> 'a os_scheme \<Rightarrow> 'a os_scheme \<Rightarrow> bool" where
  "wakeable ep shutfd rc s s' \<longleftrightarrow> rc = 0 \<and> watched ep shutfd (drop (length (ep_log s)) (ep_log s'))"

text \<open>
  What a rule asks of an event is what the kernel promises: \<open>levOk\<close> for a listener (which is told of the
  shutdown only if the eventfd is registered and has been written) and \<open>roundOk\<close> for the reactor. The workers
  and the reactor run with a working allocator.
\<close>

inductive sstep :: "bool \<Rightarrow> Server \<Rightarrow> Server \<Rightarrow> bool" for fails where
  listener_start:
    "i < length (lisAt z) \<Longrightarrow> lisAt z ! i = LisStart \<Longrightarrow> listenerSetup e (shutdownfd z) (sw z) = (ep, sock, w') \<Longrightarrow>
     fails \<or> noFailure (sw z) \<and> listenOk e \<Longrightarrow>
     sstep fails z (z\<lparr>sw := w', largs := (largs z)[i := ep],
       lisAt := (lisAt z)[i := (case sock of None \<Rightarrow> LisDone
         | Some (fd, rc) \<Rightarrow> LisLoop fd (wakeable ep (shutdownfd z) rc (sw z) w'))]\<rparr>)"
| listener_event:
    "i < length (lisAt z) \<Longrightarrow> lisAt z ! i = LisLoop fd reg \<Longrightarrow>
     levOk (largs z ! i) (reg \<and> eventReady z) e (sw z) \<Longrightarrow> listenerEvent (largs z ! i) e (sw z) = (on, w') \<Longrightarrow>
     fails \<or> noFailure (sw z) \<and> levSucceeds e \<Longrightarrow>
     sstep fails z (z\<lparr>sw := (if on then w' else os_close fd w'),
       lisAt := (lisAt z)[i := (if on then LisLoop fd reg else LisDone)]\<rparr>)"
| listener_failure:
    "fails \<Longrightarrow> i < length (lisAt z) \<Longrightarrow> lisAt z ! i = LisLoop fd reg \<Longrightarrow>
     sstep fails z (z\<lparr>sw := os_close fd (sw z), lisAt := (lisAt z)[i := LisDone]\<rparr>)"
| worker:
    "i < length (workersUp z) \<Longrightarrow> workersUp z ! i \<Longrightarrow> mallocs (sw z) = [] \<Longrightarrow>
     workerStep (sconf z) (sw z) = (next, w') \<Longrightarrow> fails \<or> noFailure (sw z) \<Longrightarrow>
     sstep fails z (z\<lparr>sw := w', workersUp := (workersUp z)[i := (next \<noteq> WkExit)]\<rparr>)"
| agg_start:
    "aggAt z = AggStart \<Longrightarrow> aggStart (sconf z) e (sw z) = (started, w') \<Longrightarrow> fails \<or> noFailure (sw z) \<and> aggOk e \<Longrightarrow>
     sstep fails z (z\<lparr>sw := w', aggAt := (case started of None \<Rightarrow> AggDone | Some (tm, _) \<Rightarrow> AggLoop tm)\<rparr>)"
| agg_round:
    "aggAt z = AggLoop tm \<Longrightarrow> aggIterate evs (sw z) = Some (True, w') \<Longrightarrow> fails \<or> noFailure (sw z) \<Longrightarrow>
     sstep fails z (z\<lparr>sw := w'\<rparr>)"
| agg_stop:
    "aggAt z = AggLoop tm \<Longrightarrow> aggIterate evs (sw z) = Some (False, w1) \<Longrightarrow> aggFinish tm w1 = Some w' \<Longrightarrow>
     fails \<or> noFailure (sw z) \<Longrightarrow> sstep fails z (z\<lparr>sw := w', aggAt := AggDone\<rparr>)"
| agg_failure:
    "fails \<Longrightarrow> aggAt z = AggLoop tm \<Longrightarrow> aggRound (sw z) = Some (AggWait, w1) \<Longrightarrow> aggFinish tm w1 = Some w' \<Longrightarrow>
     sstep fails z (z\<lparr>sw := w', aggAt := AggDone\<rparr>)"
| reactor_round:
    "reactorUp z \<Longrightarrow> \<not> shutdownFlag z \<Longrightarrow> upReactor z = Some r \<Longrightarrow> mallocs (sw z) = [] \<Longrightarrow>
     roundOk (sconf z) ans wait r (sw z) \<Longrightarrow> reactorRound (sconf z) ans wait r (sw z) = (on, r', w') \<Longrightarrow>
     fails \<or> noFailure (sw z) \<and> roundSucceeds ans wait r \<Longrightarrow>
     sstep fails z (z\<lparr>sw := w', upReactor := Some r', reactorUp := on\<rparr>)"
| reactor_stop:
    "reactorUp z \<Longrightarrow> shutdownFlag z \<Longrightarrow> sstep fails z (z\<lparr>reactorUp := False\<rparr>)"
| main: "mainStep written z = MainGo z' \<Longrightarrow> fails \<or> written \<Longrightarrow> sstep fails z z'"
| env: "os.more w' = os.more (sw z) \<Longrightarrow> closed w' = closed (sw z) \<Longrightarrow> sstep fails z (z\<lparr>sw := w'\<rparr>)"

inductive_cases sstepE: "sstep fails z z'"

lemmas sstep_cases = sstepE [consumes 1, case_names listener_start listener_event listener_failure worker agg_start
    agg_round agg_stop agg_failure reactor_round reactor_stop main env]

inductive sreach :: "Server \<Rightarrow> bool" where
  start: "serverMain opts e s = Inr z \<Longrightarrow> sreach z"
| step: "sreach z \<Longrightarrow> sstep True z z' \<Longrightarrow> sreach z'"

subsection \<open>The invariant of the threads\<close>

fun stage :: "main_pc \<Rightarrow> nat" where
  "stage M_Wait = 0" | "stage M_JoinReactor = 1" | "stage M_JoinListeners = 2" | "stage M_JoinWorkers = 3"
| "stage M_JoinAgg = 4" | "stage M_Exit = 5"

text \<open>What the threads' states say of each other.\<close>

definition threadsInv :: "Server \<Rightarrow> bool" where
  "threadsInv z \<longleftrightarrow>
     (\<forall>r. upReactor z = Some r \<longrightarrow> reactorOk (sconf z) r) \<and> (reactorUp z \<longrightarrow> upReactor z \<noteq> None) \<and>
     length (largs z) = length (lisAt z) \<and> list_all2 (\<lambda>up made. up \<longrightarrow> made) (workersUp z) (workersMade z) \<and>
     (shutdownFlag z \<longleftrightarrow> 0 < stage (mainAt z)) \<and> (eventReady z \<longrightarrow> 0 < stage (mainAt z)) \<and>
     (1 < stage (mainAt z) \<longrightarrow> \<not> reactorUp z \<and> upReactor z = None) \<and>
     (2 < stage (mainAt z) \<longrightarrow> \<not> list_ex (\<lambda>l. l \<noteq> LisDone) (lisAt z)) \<and>
     (3 < stage (mainAt z) \<longrightarrow> \<not> list_ex (\<lambda>up. up) (workersUp z)) \<and> (4 < stage (mainAt z) \<longrightarrow> aggAt z = AggDone)"

text \<open>What the queues say of the threads: a worker that is over has left the queue of the listeners empty.\<close>

definition queuesInv :: "Server \<Rightarrow> bool" where
  "queuesInv z \<longleftrightarrow> (qshutdown (ingest (sw z)) \<longleftrightarrow> 2 < stage (mainAt z)) \<and>
     (workersUp z \<noteq> workersMade z \<longrightarrow> qshutdown (ingest (sw z)) \<and> qsize (ingest (sw z)) = 0) \<and>
     (qshutdown (dataQueue (sw z)) \<longleftrightarrow> 3 < stage (mainAt z)) \<and> (qshutdown (ctrlQueue (sw z)) \<longleftrightarrow> 3 < stage (mainAt z))"

text \<open>What the clean-up leaves.\<close>

definition allFreed :: "server_world \<Rightarrow> bool" where
  "allFreed w \<longleftrightarrow> conns w = (\<lambda>_. None) \<and> regHead w = None \<and> qnodes (ingest w) = (\<lambda>_. None) \<and>
     qnodes (dataQueue w) = (\<lambda>_. None) \<and> qnodes (ctrlQueue w) = (\<lambda>_. None)"

definition serverInv :: "Server \<Rightarrow> bool" where
  "serverInv z \<longleftrightarrow> threadsInv z \<and> (if mainAt z = M_Exit then allFreed (sw z) else sysInv (sconf z) (sw z) \<and> queuesInv z)"

subsection \<open>The steps preserve the invariant\<close>

lemma upstreamDestroy_more: "os.more (upstreamDestroy r s) = os.more s"
proof -
  have d: "os.more (destroyClient ep c v) = os.more v" for ep c and v :: "'a os_scheme"
    by (simp add: destroyClient_def os_close_def os_epoll_ctl_def Let_def split: list.split)
  have "os.more (fold (destroyClient ep) cs v) = os.more v" for ep cs and v :: "'a os_scheme"
    by (induction cs arbitrary: v) (simp_all add: d)
  then show ?thesis by (simp add: upstreamDestroy_def Let_def os_close_def)
qed

lemma sharedInv_more:
  assumes "os.more w' = os.more (sw z)"
  shows "sysInv conf w' = sysInv conf (sw z)" "queuesInv (z\<lparr>sw := w'\<rparr>) = queuesInv z" "allFreed w' = allFreed (sw z)"
  using sysInv_more [OF assms] world_more [OF assms] by (simp_all add: queuesInv_def allFreed_def)

lemma acceptOne_more: "conn_world.more (acceptOne ep fd nonblock mem ip w) = conn_world.more w"
proof -
  have add: "conn_world.more (registryAdd c v) = conn_world.more v" for c and v :: "'a conn_world_scheme"
    by (simp add: registryAdd_def Let_def split: option.split)
  have des: "conn_world.more (connDestroy c v) = conn_world.more v" for c and v :: "'a conn_world_scheme"
    by (simp add: connDestroy_def connFreeResources_def registryRemove_more)
  have cl: "conn_world.more (os_close f v) = conn_world.more v" for f and v :: "'a conn_world_scheme"
    by (simp add: os_close_def)
  have ctl: "conn_world.more v' = conn_world.more v" if "os_epoll_ctl e op f evs v = (rc, v')" for e op f evs rc
    and v v' :: "'a conn_world_scheme"
    using that by (auto simp: os_epoll_ctl_def Let_def split: list.splits)
  show ?thesis by (auto simp: acceptOne_def connNew_def Let_def add des cl dest!: ctl split: option.split prod.split)
qed

lemma listenerEvent_queues:
  assumes "listenerEvent ep e w = (on, w')"
  shows "qshutdown (ingest w') = qshutdown (ingest w)" "dataQueue w' = dataQueue w" "ctrlQueue w' = ctrlQueue w"
proof -
  have "conn_world.more (connectionHandle ep rs v) = conn_world.more v" for rs and v :: "'a world_scheme"
    by (induction ep rs v rule: connectionHandle.induct) (simp_all add: acceptOne_more)
  note acc = conn_more_world [OF this]
  have pu: "qshutdown (ingest v') = qshutdown (ingest v) \<and> dataQueue v' = dataQueue v \<and> ctrlQueue v' = ctrlQueue v"
    if "push_ingest c v = (rc, v')" for c rc and v v' :: "'a world_scheme"
  proof -
    obtain ok u where al: "os_alloc v = (ok, u)" by fastforce
    then have "os.more u = os.more v" by (auto simp: os_alloc_def split: list.splits)
    from world_more [OF this] that show ?thesis by (auto simp: push_ingest_def push_def al split: if_splits)
  qed
  have "conn_world.more (connDestroy c v) = conn_world.more v" for c and v :: "'a world_scheme"
    by (simp add: connDestroy_def connFreeResources_def registryRemove_more)
  have cl: "ingest (connClose c v) = ingest v" "dataQueue (connClose c v) = dataQueue v" "ctrlQueue (connClose c v) = ctrlQueue v"
    for c and v :: "'a world_scheme"
  proof -
    have "conn_world.more (connClose c v) = conn_world.more v"
      by (simp add: connClose_def connDestroy_def connFreeResources_def registryRemove_more os_close_def os_epoll_ctl_def Let_def
          split: option.split list.split)
    from conn_more_world [OF this] show "ingest (connClose c v) = ingest v" "dataQueue (connClose c v) = dataQueue v"
      "ctrlQueue (connClose c v) = ctrlQueue v" by simp_all
  qed
  have "qshutdown (ingest w') = qshutdown (ingest w) \<and> dataQueue w' = dataQueue w \<and> ctrlQueue w' = ctrlQueue w"
    using assms by (cases e) (auto simp: listenerEvent_def acc cl split: prod.splits if_splits dest!: pu)
  then show "qshutdown (ingest w') = qshutdown (ingest w)" "dataQueue w' = dataQueue w" "ctrlQueue w' = ctrlQueue w" by simp_all
qed

lemma listenerSetup_more: "listenerSetup e sfd s = (ep, sock, s') \<Longrightarrow> os.more s' = os.more s"
  by (auto simp: listenerSetup_def os_close_def os_epoll_ctl_def Let_def split: if_splits list.splits prod.splits)

text \<open>The aggregator's start.\<close>

lemma enableNotify_queue:
  assumes "queueEnableNotify fd q = (r, q')"
  shows "queueInv q' = queueInv q" "qcontents q' = qcontents q" "qshutdown q' = qshutdown q"
proof -
  have "qshape q' as = qshape q as" for as using assms by (auto simp: queueEnableNotify_def qshape_def split: if_splits)
  then show "queueInv q' = queueInv q" by (simp add: queueInv_def)
  show "qcontents q' = qcontents q" "qshutdown q' = qshutdown q"
    using assms by (auto simp: queueEnableNotify_def qcontents_def split: if_splits)
qed

lemma aggStart_inv:
  assumes inv: "sysInv conf w" and st: "aggStart conf e w = (started, w')"
  shows "sysInv conf w' \<and> queuesKept w w'"
proof -
  let ?w1 = "upd_agg (\<lambda>a. a\<lparr>aepollfd := aeEpoll e\<rparr>) w"
  obtain df qd where d: "queueEnableNotify (aeDataFd e) (dataQueue w) = (df, qd)" by fastforce
  obtain cf qc where c: "queueEnableNotify (aeCtrlFd e) (ctrlQueue w) = (cf, qc)" by fastforce
  let ?w3 = "?w1\<lparr>dataQueue := qd, ctrlQueue := qc\<rparr>"
  note qd = enableNotify_queue [OF d] and qc = enableNotify_queue [OF c]
  have parts: "regInv ?w3 = regInv ?w1" "parkInv ?w3 = parkInv ?w1" "parked ?w3 = parked ?w1"
    "parkedOk conf ?w3 = parkedOk conf ?w1" "connsInv ?w3 = connsInv ?w1" by (rule sysInv_parts; simp)+
  have "sysInv conf ?w1" using inv by (simp add: sysInv_upd_agg)
  then have w3: "sysInv conf ?w3" "queuesKept w ?w3"
    using qd qc by (simp_all add: sysInv_def owned_def parts) (simp add: queuesKept_def)
  have close: "sysInv conf (os_close f v) = sysInv conf v" "queuesKept w (os_close f v) = queuesKept w v" for f and v :: "'a world_scheme"
    using sysInv_more [of "os_close f v" v] world_more [of "os_close f v" v] by (simp_all add: os_close_def queuesKept_def)
  show ?thesis
    using st w3 inv by (auto simp: aggStart_def Let_def d c close epoll_inv split: if_splits)
qed

text \<open>The clean-up.\<close>

lemmas destroyLoop_returned = destroyLoop.raw_induct [rotated, consumes 1, case_names step]

lemma destroyLoop_more: "destroyLoop p w = Some w' \<Longrightarrow> conn_world.more w' = conn_world.more w \<and> regHead w' = regHead w"
proof (induction rule: destroyLoop_returned)
  case (step loop p w w')
  have "conn_world.more (connFreeResources a (os_close fd v)) = conn_world.more v \<and> regHead (connFreeResources a (os_close fd v)) = regHead v"
    for a fd and v :: "'a conn_world_scheme" by (simp add: connFreeResources_def os_close_def)
  with step show ?case by (auto split: option.splits)
qed

lemma closeListenerFds_effect:
  "os.more (closeListenerFds eps s) = os.more s \<and> closed (closeListenerFds eps s) = closed s @ filter (\<lambda>fd. 0 \<le> fd) eps"
proof -
  have "os.more (fold (\<lambda>fd s. if 0 \<le> fd then os_close fd s else s) eps s) = os.more s \<and>
      closed (fold (\<lambda>fd s. if 0 \<le> fd then os_close fd s else s) eps s) = closed s @ filter (\<lambda>fd. 0 \<le> fd) eps"
    by (induction eps arbitrary: s) (auto simp: os_close_def)
  then show ?thesis by (simp add: closeListenerFds_def)
qed

lemma deleteQueueWith_freed:
  assumes "queueInv q"
  obtains q' v where "deleteQueueWith q s = Some (qcontents q, q', v)" "qnodes q' = (\<lambda>_. None)" "os.more v = os.more s"
    "set (closed s) \<subseteq> set (closed v)"
proof -
  obtain q' where "deleteQueueWith q s = Some (qcontents q, q', if 0 \<le> notifyFd q then os_close (notifyFd q) s else s)"
    "qnodes q' = Map.empty" using deleteQueueWith_complete [OF assms, of s] by blast
  then show thesis by (rule that) (auto simp: os_close_def)
qed

lemma serverCleanup_ok:
  assumes "sysInv (sconf z) (sw z)"
  shows "\<exists>w'. serverCleanup z = Some (z\<lparr>sconf := (sconf z)\<lparr>upstreams := [], upstreamCapacity := 0\<rparr>, sw := w', mainAt := M_Exit\<rparr>) \<and>
    allFreed w' \<and> (\<forall>c x. conns (sw z) c = Some x \<longrightarrow> cfd x \<in> set (closed w')) \<and> shutdownfd z \<in> set (closed w') \<and>
    (\<forall>fd \<in> set (largs z). 0 \<le> fd \<longrightarrow> fd \<in> set (closed w'))"
proof -
  let ?w = "sw z"
  define w1 where "w1 = closeListenerFds (largs z) ?w"
  have m1: "os.more w1 = os.more ?w" "closed w1 = closed ?w @ filter (\<lambda>fd. 0 \<le> fd) (largs z)"
    using closeListenerFds_effect [of "largs z" ?w] by (simp_all add: w1_def)
  note e1 = world_more [OF m1(1)]
  have inv1: "sysInv (sconf z) w1" using sysInv_more(1) [OF m1(1)] assms by simp
  then obtain as where as: "regShape w1 as" unfolding sysInv_def regInv_def by blast
  define v where "v = w1\<lparr>regHead := None\<rparr>"
  have "link f v = link f w1" for f by (simp add: link_def v_def fun_eq_iff)
  then have path: "lpath (link regNext v) (regHead w1) as" "set as \<subseteq> dom (conns v)"
    using as by (simp_all add: regShape_def v_def)
  from destroyLoop_path [OF this] obtain w2 where w2: "destroyLoop (regHead w1) v = Some w2"
    "conns w2 = conns v |` (- set as)" "closed w2 = closed v @ map (\<lambda>c. cfd (the (conns v c))) as" by blast
  have "conns v = conns w1" "set as = dom (conns w1)" using as by (simp_all add: v_def regShape_def)
  then have empty: "conns w2 = (\<lambda>_. None)" using w2(2) by (auto simp: restrict_map_def fun_eq_iff domIff)
  have more2: "conn_world.more w2 = conn_world.more ?w" "regHead w2 = None"
    using destroyLoop_more [OF w2(1)] m1(1) by (simp_all add: v_def) (cases w1, cases ?w, simp)
  define w3 where "w3 = os_close (shutdownfd z) w2"
  have more3: "conn_world.more w3 = conn_world.more ?w" "conns w3 = (\<lambda>_. None)" "regHead w3 = None"
    using more2 empty by (simp_all add: w3_def os_close_def)
  note q3 = conn_more_world [OF more3(1)]
  have socks: "cfd x \<in> set (closed w3)" if "conns ?w c = Some x" for c x
  proof -
    have "c \<in> set as" "cfd (the (conns v c)) = cfd x" using that e1(1) \<open>set as = dom (conns w1)\<close> \<open>conns v = conns w1\<close> by auto
    then show ?thesis using w2(3) by (force simp: w3_def os_close_def)
  qed
  have own: "shutdownfd z \<in> set (closed w3)" "\<forall>fd \<in> set (largs z). 0 \<le> fd \<longrightarrow> fd \<in> set (closed w3)"
    using w2(3) m1(2) by (simp_all add: w3_def os_close_def v_def)
  have qi: "queueInv (ingest w3)" "queueInv (dataQueue w3)" "queueInv (ctrlQueue w3)"
    using assms q3 by (simp_all add: sysInv_def)
  obtain i w4 where 4: "deleteQueueWith (ingest w3) w3 = Some (qcontents (ingest w3), i, w4)" "qnodes i = (\<lambda>_. None)"
    "os.more w4 = os.more w3" "set (closed w3) \<subseteq> set (closed w4)" by (rule deleteQueueWith_freed [OF qi(1)])
  note e4 = world_more [OF 4(3)]
  define w5 where "w5 = w4\<lparr>ingest := i\<rparr>"
  have "queueInv (dataQueue w5)" using qi e4 by (simp add: w5_def)
  then obtain d w6 where 6: "deleteQueueWith (dataQueue w5) w5 = Some (qcontents (dataQueue w5), d, w6)" "qnodes d = (\<lambda>_. None)"
    "os.more w6 = os.more w5" "set (closed w5) \<subseteq> set (closed w6)" by (rule deleteQueueWith_freed)
  note e6 = world_more [OF 6(3)]
  define w7 where "w7 = w6\<lparr>dataQueue := d\<rparr>"
  have "queueInv (ctrlQueue w7)" using qi e4 e6 by (simp add: w7_def w5_def)
  then obtain c w8 where 8: "deleteQueueWith (ctrlQueue w7) w7 = Some (qcontents (ctrlQueue w7), c, w8)" "qnodes c = (\<lambda>_. None)"
    "os.more w8 = os.more w7" "set (closed w7) \<subseteq> set (closed w8)" by (rule deleteQueueWith_freed)
  note e8 = world_more [OF 8(3)]
  let ?w' = "w8\<lparr>ctrlQueue := c\<rparr>"
  have "registryDestroyAll w1 = Some w2" using w2(1) by (simp add: registryDestroyAll_def v_def)
  then have "serverCleanup z = Some (z\<lparr>sconf := (sconf z)\<lparr>upstreams := [], upstreamCapacity := 0\<rparr>, sw := ?w', mainAt := M_Exit\<rparr>)"
    by (simp only: serverCleanup_def Let_def w1_def [symmetric] option.case prod.case w3_def [symmetric] 4(1) w5_def [symmetric]
        6(1) w7_def [symmetric] 8(1))
  moreover have "allFreed ?w'" using e4 e6 e8 4(2) 6(2) 8(2) more3 by (simp add: allFreed_def w5_def w7_def)
  moreover have "set (closed w3) \<subseteq> set (closed ?w')" using 4(4) 6(4) 8(4) by (auto simp: w5_def w7_def)
  ultimately show ?thesis using socks own by blast
qed

subsection \<open>The start satisfies the invariant\<close>

lemma addUpstreams_ok:
  "addUpstreams us n r s = (added, r', s') \<Longrightarrow> reactorOk conf r \<Longrightarrow> reactorOk conf r' \<and> os.more s' = os.more s"
proof (induction us n r s rule: addUpstreams.induct)
  case (2 u us n r s)
  obtain rc r1 s1 where add: "upstreamAdd r (uhost u) (uport u) (upath u) s = (rc, r1, s1)" by (metis prod_cases3)
  have ok: "reactorOk conf r1" using upstreamAdd_ok [OF add] "2.prems" by simp
  have "os.more s1 = os.more s"
    using add by (auto simp: upstreamAdd_def Let_def os_alloc_def split: if_splits prod.splits list.splits)
  then show ?case using "2.IH" [OF add [symmetric] refl] "2.prems" add ok by (cases "rc = 0") simp_all
qed simp

lemma startReactor_ok:
  assumes "startReactor conf ep thread s = ((up, upOk), s')"
  shows "os.more s' = os.more s \<and> (\<forall>r. up = Some r \<longrightarrow> reactorOk conf r) \<and> (upOk \<longrightarrow> up \<noteq> None)"
proof (cases "upstreams conf = []")
  case True
  then show ?thesis using assms by (auto simp: startReactor_def)
next
  case False
  obtain r s1 where cr: "upstreamCreate ep s = (r, s1)" by fastforce
  have s1: "os.more s1 = os.more s" "\<forall>x. r = Some x \<longrightarrow> reactorOk conf x"
    using cr by (auto simp: upstreamCreate_def os_alloc_def reactorOk_def split: if_splits list.splits)
  show ?thesis
  proof (cases r)
    case None
    then show ?thesis using assms False cr s1 by (auto simp: startReactor_def)
  next
    case (Some x)
    obtain added r1 s2 where add: "addUpstreams (upstreams conf) 0 x s1 = (added, r1, s2)" by (metis prod_cases3)
    have "reactorOk conf r1 \<and> os.more s2 = os.more s1" using addUpstreams_ok [OF add] s1 Some by simp
    then show ?thesis using assms False cr s1 Some add by (auto simp: startReactor_def upstreamDestroy_more split: if_splits)
  qed
qed

lemma serverInit_inv:
  assumes "serverInit conf e s = Inr w"
  shows "sysInv conf w \<and> \<not> qshutdown (ingest w) \<and> \<not> qshutdown (dataQueue w) \<and> \<not> qshutdown (ctrlQueue w)"
proof -
  have q: "r = None \<or> r = Some createQueue" if "newQueue v = (r, v')" for r :: "'q Queue_t option" and v v' :: os
    using that by (auto simp: newQueue_def split: prod.splits if_splits)
  obtain v where w: "w = world.extend (conn_world.extend (os.extend v (conn_world.fields (\<lambda>_. None) None 1))
      (world.fields createQueue createQueue createQueue (aggInit (confHigh conf) (confLow conf)))) (server_world.fields 0)"
    using assms by (auto simp: serverInit_def Let_def split: if_splits prod.splits option.splits dest!: q)
  have f: "conns w = (\<lambda>_. None)" "regHead w = None" "ingest w = createQueue" "dataQueue w = createQueue" "ctrlQueue w = createQueue"
    "sink (agg w) = None" "parkHead (agg w) = None" "parkTail (agg w) = None"
    by (simp_all add: w os.defs conn_world.defs world.defs server_world.defs aggInit_def)
  have "parkShape w []" by (simp add: parkShape_def f last_of_def)
  then have "parkInv w" "parked w = []" using parked_shape [of w "[]"] f by (auto simp: parkInv_def)
  moreover have "regInv w" by (auto simp: regInv_def regShape_def f intro: exI [of _ "[]"])
  ultimately show ?thesis
    by (simp add: sysInv_def owned_def f msgConns_def connsInv_def queueInv_create) (simp add: createQueue_def)
qed

lemma serverMain_inv:
  assumes "serverMain opts e s = Inr z"
  shows "serverInv z \<and> mainAt z = M_Wait"
proof -
  obtain conf s1 where p: "parseArgs opts s = (Inr conf, s1)" using assms by (auto simp: serverMain_def split: prod.splits sum.splits)
  then obtain w where i: "serverInit conf e s1 = Inr w" using assms by (auto simp: serverMain_def split: sum.splits)
  obtain up upOk w1 where r: "startReactor conf (seReactorFd e) (seReactor e) w = ((up, upOk), w1)" by (metis surj_pair)
  note w = serverInit_inv [OF i] and r1 = startReactor_ok [OF r]
  then have m: "os.more w1 = os.more w" by blast
  have z: "z = \<lparr>sconf = conf, sw = w1, largs = fst (initListenerPool conf e), lisAt = snd (initListenerPool conf e),
      workersMade = initWorkerPool conf e, workersUp = initWorkerPool conf e, aggAt = (if seAgg e then AggStart else AggDone),
      upReactor = up, reactorUp = upOk, shutdownFlag = False, shutdownfd = seEventfd e, eventReady = False, mainAt = M_Wait\<rparr>"
    using assms p i r by (simp add: serverMain_def Let_def initListenerPool_def)
  have "list_all2 (\<lambda>up made. up \<longrightarrow> made) bs bs" for bs :: "bool list" by (simp add: list_all2_conv_all_nth)
  then have "threadsInv z" using r1 by (simp add: threadsInv_def z initListenerPool_def)
  moreover have "sysInv (sconf z) (sw z)" using w sysInv_more(1) [OF m] by (simp add: z)
  moreover have "queuesInv z" using w world_more [OF m] by (simp add: queuesInv_def z)
  ultimately show ?thesis by (simp add: serverInv_def z)
qed

subsection \<open>Every step preserves it\<close>

lemma stage_exit: "stage pc < 5 \<longleftrightarrow> pc \<noteq> M_Exit"
  by (cases pc) simp_all

lemma threadsInv_stage:
  assumes "threadsInv z"
  shows "reactorUp z \<Longrightarrow> stage (mainAt z) \<le> 1" "list_ex (\<lambda>l. l \<noteq> LisDone) (lisAt z) \<Longrightarrow> stage (mainAt z) \<le> 2"
    "list_ex (\<lambda>up. up) (workersUp z) \<Longrightarrow> stage (mainAt z) \<le> 3" "aggAt z \<noteq> AggDone \<Longrightarrow> stage (mainAt z) \<le> 4"
  using assms unfolding threadsInv_def by (meson not_less)+

lemma listener_stage:
  assumes "threadsInv z" and "i < length (lisAt z)" and "lisAt z ! i \<noteq> LisDone"
  shows "stage (mainAt z) \<le> 2"
  using assms(2,3) by (intro threadsInv_stage(2) [OF assms(1)]) (auto simp: list_ex_length)

lemma worker_stage:
  assumes "threadsInv z" and "i < length (workersUp z)" and "workersUp z ! i"
  shows "stage (mainAt z) \<le> 3"
  using assms(2,3) by (intro threadsInv_stage(3) [OF assms(1)]) (auto simp: list_ex_length)

lemma queuesInv_step:
  assumes "queuesInv z" and "mainAt z' = mainAt z" "workersUp z' = workersUp z" "workersMade z' = workersMade z"
    and "qshutdown (ingest (sw z')) = qshutdown (ingest (sw z))"
    and "qsize (ingest (sw z')) = qsize (ingest (sw z)) \<or> stage (mainAt z) \<le> 2"
    and "qshutdown (dataQueue (sw z')) = qshutdown (dataQueue (sw z))" "qshutdown (ctrlQueue (sw z')) = qshutdown (ctrlQueue (sw z))"
  shows "queuesInv z'"
proof -
  have a: "qshutdown (ingest (sw z')) \<longleftrightarrow> 2 < stage (mainAt z')" using assms(1,2,5) by (simp add: queuesInv_def)
  have "qshutdown (ingest (sw z')) \<and> qsize (ingest (sw z')) = 0" if ne: "workersUp z' \<noteq> workersMade z'"
  proof -
    have "qshutdown (ingest (sw z))" "qsize (ingest (sw z)) = 0" using ne assms(1,3,4) by (auto simp: queuesInv_def)
    then show ?thesis using assms(2,5,6) a by auto
  qed
  moreover have "qshutdown (dataQueue (sw z')) \<longleftrightarrow> 3 < stage (mainAt z')" "qshutdown (ctrlQueue (sw z')) \<longleftrightarrow> 3 < stage (mainAt z')"
    using assms(1,2,7,8) by (simp_all add: queuesInv_def)
  ultimately show ?thesis using a unfolding queuesInv_def by blast
qed

lemmas agg_stage = threadsInv_stage(4) and reactor_stage = threadsInv_stage(1)

lemma serverInv_live:
  assumes "serverInv z" and "stage (mainAt z) < 5"
  shows "threadsInv z" "sysInv (sconf z) (sw z)" "queuesInv z"
  using assms by (auto simp: serverInv_def stage_exit)

lemma os_close_more: "os.more (os_close fd s) = os.more s"
  by (simp add: os_close_def)

text \<open>A listener's step: the queues' flags stay and the others' states do not change.\<close>

lemma listener_step_inv:
  assumes inv: "serverInv z" and i: "i < length (lisAt z)" "lisAt z ! i \<noteq> LisDone"
    and w: "sysInv (sconf z) w'" "qshutdown (ingest w') = qshutdown (ingest (sw z))"
      "qshutdown (dataQueue w') = qshutdown (dataQueue (sw z))" "qshutdown (ctrlQueue w') = qshutdown (ctrlQueue (sw z))"
    and ls: "length ls = length (largs z)"
  shows "serverInv (z\<lparr>sw := w', largs := ls, lisAt := (lisAt z)[i := l]\<rparr>)"
proof -
  have th: "threadsInv z" using inv by (simp add: serverInv_def)
  note st = listener_stage [OF th i]
  then have q: "queuesInv z" and ne: "mainAt z \<noteq> M_Exit" using serverInv_live [OF inv] by auto
  let ?z = "z\<lparr>sw := w', largs := ls, lisAt := (lisAt z)[i := l]\<rparr>"
  have "threadsInv ?z" using th st ls by (simp add: threadsInv_def)
  moreover have "queuesInv ?z" using st w(2-4) by (intro queuesInv_step [OF q]) simp_all
  ultimately show ?thesis using ne w(1) by (simp add: serverInv_def)
qed

lemma agg_step_inv:
  assumes inv: "serverInv z" and at: "aggAt z \<noteq> AggDone" and w: "sysInv (sconf z) w'" "queuesKept (sw z) w'"
  shows "serverInv (z\<lparr>sw := w', aggAt := a\<rparr>)"
proof -
  have th: "threadsInv z" using inv by (simp add: serverInv_def)
  note st = agg_stage [OF th at]
  then have q: "queuesInv z" and ne: "mainAt z \<noteq> M_Exit" using serverInv_live [OF inv] by auto
  let ?z = "z\<lparr>sw := w', aggAt := a\<rparr>"
  have "threadsInv ?z" using th st by (simp add: threadsInv_def)
  moreover have "queuesInv ?z" using w(2) by (intro queuesInv_step [OF q]) (simp_all add: queuesKept_def)
  ultimately show ?thesis using ne w(1) by (simp add: serverInv_def)
qed

lemma worker_step_inv:
  assumes inv: "serverInv z" and i: "i < length (workersUp z)" "workersUp z ! i" and mem: "mallocs (sw z) = []"
    and st: "workerStep (sconf z) (sw z) = (next, w')"
  shows "serverInv (z\<lparr>sw := w', workersUp := (workersUp z)[i := (next \<noteq> WkExit)]\<rparr>)"
proof -
  have th: "threadsInv z" using inv by (simp add: serverInv_def)
  note stg = worker_stage [OF th i]
  then have q: "queuesInv z" and ne: "mainAt z \<noteq> M_Exit" and sys: "sysInv (sconf z) (sw z)"
    using serverInv_live [OF inv] by auto
  note w = workerStep_inv [OF sys mem st]
  have same: "(workersUp z)[i := True] = workersUp z" using i by (metis list_update_id)
  have made: "list_all2 (\<lambda>up made. up \<longrightarrow> made) ((workersUp z)[i := b]) (workersMade z)" for b
    using th i by (auto simp: threadsInv_def list_all2_conv_all_nth nth_list_update)
  have "queuesInv (z\<lparr>sw := w', workersUp := (workersUp z)[i := (next \<noteq> WkExit)]\<rparr>)"
    using q w stg same by (cases "next") (auto simp: queuesInv_def)
  moreover have "threadsInv (z\<lparr>sw := w', workersUp := (workersUp z)[i := (next \<noteq> WkExit)]\<rparr>)"
    using th stg made by (simp add: threadsInv_def)
  ultimately show ?thesis using w ne by (simp add: serverInv_def)
qed

lemma reactor_step_inv:
  assumes inv: "serverInv z" and up: "reactorUp z" "upReactor z = Some r" and mem: "mallocs (sw z) = []"
    and ok: "roundOk (sconf z) ans wait r (sw z)" and round: "reactorRound (sconf z) ans wait r (sw z) = (on, r', w')"
  shows "serverInv (z\<lparr>sw := w', upReactor := Some r', reactorUp := on\<rparr>)"
proof -
  have th: "threadsInv z" using inv by (simp add: serverInv_def)
  note stg = reactor_stage [OF th up(1)]
  then have q: "queuesInv z" and ne: "mainAt z \<noteq> M_Exit" and sys: "sysInv (sconf z) (sw z)"
    using serverInv_live [OF inv] by auto
  have "reactorOk (sconf z) r" "queueInv (dataQueue (sw z))" using th up sys by (simp_all add: threadsInv_def sysInv_def)
  from reactorRound_safe [OF this(1) mem this(2) ok round]
  have r: "reactorOk (sconf z) r'" "reactorKeeps (sconf z) (sw z) w'" by simp_all
  let ?z = "z\<lparr>sw := w', upReactor := Some r', reactorUp := on\<rparr>"
  have "threadsInv ?z" using th stg r(1) by (simp add: threadsInv_def)
  moreover have "queuesInv ?z" using stg r(2) by (intro queuesInv_step [OF q]) (simp_all add: reactorKeeps_def)
  ultimately show ?thesis using ne sysInv_reactor [OF sys r(2)] by (simp add: serverInv_def)
qed

lemma sysInv_shutdown:
  assumes "sysInv conf w" and "w' = w\<lparr>ingest := i, dataQueue := d, ctrlQueue := c\<rparr>"
    and "i = ingest w \<or> i = shutdownQueue (ingest w)" "d = dataQueue w \<or> d = shutdownQueue (dataQueue w)"
    "c = ctrlQueue w \<or> c = shutdownQueue (ctrlQueue w)"
  shows "sysInv conf w'"
proof -
  have parts: "regInv w' = regInv w" "parkInv w' = parkInv w" "parked w' = parked w"
    "parkedOk conf w' = parkedOk conf w" "connsInv w' = connsInv w" by (rule sysInv_parts; simp add: assms(2))+
  have "queueInv i = queueInv (ingest w)" "qcontents i = qcontents (ingest w)" "queueInv d = queueInv (dataQueue w)"
    "qcontents d = qcontents (dataQueue w)" "queueInv c = queueInv (ctrlQueue w)" "qcontents c = qcontents (ctrlQueue w)"
    using assms(3-5) by auto
  then show ?thesis using assms(1) by (simp add: sysInv_def owned_def parts) (simp add: assms(2))
qed

lemma main_step_inv:
  assumes inv: "serverInv z" and st: "mainStep written z = MainGo z'"
  shows "serverInv z'"
proof -
  have ne: "mainAt z \<noteq> M_Exit" using st by (auto simp: mainStep_def)
  then have th: "threadsInv z" and sys: "sysInv (sconf z) (sw z)" and q: "queuesInv z"
    using serverInv_live [OF inv] by (auto simp: stage_exit)
  show ?thesis
  proof (cases "mainAt z")
    case M_Wait
    then show ?thesis using st th sys q by (auto simp: mainStep_def serverInv_def threadsInv_def queuesInv_def)
  next
    case M_JoinReactor
    define w' where "w' = (case upReactor z of Some r \<Rightarrow> upstreamDestroy r (sw z) | None \<Rightarrow> sw z)"
    have "os.more w' = os.more (sw z)" by (simp add: w'_def upstreamDestroy_more split: option.split)
    note m = sysInv_more [OF this] world_more [OF this]
    have "z' = z\<lparr>sw := w', upReactor := None, mainAt := M_JoinListeners\<rparr>" "\<not> reactorUp z"
      using st M_JoinReactor by (auto simp: mainStep_def w'_def split: if_splits)
    then show ?thesis using M_JoinReactor th sys q m by (auto simp: serverInv_def threadsInv_def queuesInv_def)
  next
    case M_JoinListeners
    let ?w = "(sw z)\<lparr>ingest := shutdownQueue (ingest (sw z))\<rparr>"
    have z': "z' = z\<lparr>sw := ?w, mainAt := M_JoinWorkers\<rparr>" "\<not> list_ex (\<lambda>l. l \<noteq> LisDone) (lisAt z)"
      using st M_JoinListeners by (auto simp: mainStep_def split: if_splits)
    have "sysInv (sconf z) ?w" 
      by (rule sysInv_shutdown [OF sys, where i = "shutdownQueue (ingest (sw z))" and d = "dataQueue (sw z)" and c = "ctrlQueue (sw z)"])
        (cases "sw z", simp_all)
    then show ?thesis using M_JoinListeners th q z' by (simp add: serverInv_def threadsInv_def queuesInv_def)
  next
    case M_JoinWorkers
    let ?w = "(sw z)\<lparr>dataQueue := shutdownQueue (dataQueue (sw z)), ctrlQueue := shutdownQueue (ctrlQueue (sw z))\<rparr>"
    have z': "z' = z\<lparr>sw := ?w, mainAt := M_JoinAgg\<rparr>" "\<not> list_ex (\<lambda>up. up) (workersUp z)"
      using st M_JoinWorkers by (auto simp: mainStep_def split: if_splits)
    have "sysInv (sconf z) ?w"
      by (rule sysInv_shutdown [OF sys, where i = "ingest (sw z)" and d = "shutdownQueue (dataQueue (sw z))"
            and c = "shutdownQueue (ctrlQueue (sw z))"]) (cases "sw z", simp_all)
    then show ?thesis using M_JoinWorkers th q z' by (simp add: serverInv_def threadsInv_def queuesInv_def)
  next
    case M_JoinAgg
    have "aggAt z = AggDone" "serverCleanup z = Some z'"
      using st M_JoinAgg by (auto simp: mainStep_def split: if_splits option.splits)
    with serverCleanup_ok [OF sys] M_JoinAgg th show ?thesis by (auto simp: serverInv_def threadsInv_def)
  qed (use ne in simp)
qed

lemma sysInv_os_close: "sysInv conf (os_close fd w) = sysInv conf w" "ingest (os_close fd w) = ingest w"
  "dataQueue (os_close fd w) = dataQueue w" "ctrlQueue (os_close fd w) = ctrlQueue w"
  by (rule sysInv_more(1) [OF os_close_more]) (rule world_more [OF os_close_more])+

lemma agg_stopped_inv:
  assumes "serverInv z" and "aggAt z \<noteq> AggDone" and "sysInv (sconf z) w1" "queuesKept (sw z) w1" and "aggFinish tm w1 = Some w'"
  shows "serverInv (z\<lparr>sw := w', aggAt := a\<rparr>)"
proof -
  have "sysInv (sconf z) w'" "queuesKept w1 w'" using aggFinish_inv [OF assms(3), of tm] assms(5) by auto
  then show ?thesis using agg_step_inv [OF assms(1,2)] queuesKept_trans [OF assms(4)] by blast
qed

lemma sstep_inv: "sstep fails z z' \<Longrightarrow> serverInv z \<Longrightarrow> serverInv z'"
proof (induction rule: sstep.induct)
  case (listener_start i z e ep sock w')
  note m = listenerSetup_more [OF listener_start(3)]
  have l: "lisAt z ! i \<noteq> LisDone" using listener_start(2) by simp
  have "stage (mainAt z) < 5" using listener_stage [of z i] listener_start(1,5) l by (simp add: serverInv_def)
  note live = serverInv_live [OF listener_start(5) this]
  show ?case by (rule listener_step_inv [OF listener_start(5,1) l]) (simp_all add: sysInv_more(1) [OF m] world_more [OF m] live(2))
next
  case (listener_event i z fd reg e on w')
  have l: "lisAt z ! i \<noteq> LisDone" using listener_event(2) by simp
  have "stage (mainAt z) < 5" using listener_stage [of z i] listener_event(1,6) l by (simp add: serverInv_def)
  note live = serverInv_live [OF listener_event(6) this]
  have w: "sysInv (sconf z) w'" using listenerEvent_inv [OF live(2) listener_event(3,4)] .
  let ?w = "if on then w' else os_close fd w'" and ?l = "if on then LisLoop fd reg else LisDone"
  have "sysInv (sconf z) ?w" using w by (simp add: sysInv_os_close)
  moreover have "qshutdown (ingest ?w) = qshutdown (ingest (sw z))" "qshutdown (dataQueue ?w) = qshutdown (dataQueue (sw z))"
    "qshutdown (ctrlQueue ?w) = qshutdown (ctrlQueue (sw z))"
    using listenerEvent_queues [OF listener_event(4)] by (simp_all add: sysInv_os_close)
  ultimately have "serverInv (z\<lparr>sw := ?w, largs := largs z, lisAt := (lisAt z)[i := ?l]\<rparr>)"
    by (rule listener_step_inv [OF listener_event(6,1) l]) (rule refl)
  moreover have "z\<lparr>sw := ?w, largs := largs z, lisAt := (lisAt z)[i := ?l]\<rparr> = z\<lparr>sw := ?w, lisAt := (lisAt z)[i := ?l]\<rparr>" by simp
  ultimately show ?case by (rule subst [rotated])
next
  case (listener_failure i z fd reg)
  have l: "lisAt z ! i \<noteq> LisDone" using listener_failure(3) by simp
  have "stage (mainAt z) < 5" using listener_stage [of z i] listener_failure(2,4) l by (simp add: serverInv_def)
  note live = serverInv_live [OF listener_failure(4) this]
  have "serverInv (z\<lparr>sw := os_close fd (sw z), largs := largs z, lisAt := (lisAt z)[i := LisDone]\<rparr>)"
    by (rule listener_step_inv [OF listener_failure(4,2) l]) (simp_all add: sysInv_os_close live(2))
  then show ?case by simp
next
  case (worker i z "next" w')
  show ?case by (rule worker_step_inv [OF worker(6,1-4)])
next
  case (agg_start z e started w')
  then have at: "aggAt z \<noteq> AggDone" by simp
  have "stage (mainAt z) < 5" using agg_stage [OF _ at] agg_start by (simp add: serverInv_def)
  note live = serverInv_live [OF agg_start(4) this]
  show ?case using agg_step_inv [OF agg_start(4) at] aggStart_inv [OF live(2) agg_start(2)] by simp
next
  case (agg_round z tm evs w')
  then have at: "aggAt z \<noteq> AggDone" by simp
  have "stage (mainAt z) < 5" using agg_stage [OF _ at] agg_round by (simp add: serverInv_def)
  note live = serverInv_live [OF agg_round(4) this]
  have same: "z\<lparr>sw := w', aggAt := aggAt z\<rparr> = z\<lparr>sw := w'\<rparr>" by simp
  have "sysInv (sconf z) w'" using aggIterate_inv [OF live(2), of evs] agg_round(2) by auto
  from agg_step_inv [OF agg_round(4) at this aggIterate_kept [OF agg_round(2)], of "aggAt z"] show ?case unfolding same .
next
  case (agg_stop z tm evs w1 w')
  then have at: "aggAt z \<noteq> AggDone" by simp
  have "stage (mainAt z) < 5" using agg_stage [OF _ at] agg_stop(5) by (simp add: serverInv_def)
  note live = serverInv_live [OF agg_stop(5) this]
  have "sysInv (sconf z) w1" using aggIterate_inv [OF live(2), of evs] agg_stop(2) by auto
  then show ?case by (rule agg_stopped_inv [OF agg_stop(5) at _ aggIterate_kept [OF agg_stop(2)] agg_stop(3)])
next
  case (agg_failure z tm w1 w')
  then have at: "aggAt z \<noteq> AggDone" by simp
  have "stage (mainAt z) < 5" using agg_stage [OF _ at] agg_failure(5) by (simp add: serverInv_def)
  note live = serverInv_live [OF agg_failure(5) this]
  have "sysInv (sconf z) w1" using aggRound_inv [OF live(2)] agg_failure(3) by auto
  then show ?case by (rule agg_stopped_inv [OF agg_failure(5) at _ aggRound_kept [OF agg_failure(3)] agg_failure(4)])
next
  case (reactor_round z r ans wait on r' w')
  show ?case by (rule reactor_step_inv [OF reactor_round(8,1,3-6)])
next
  case (reactor_stop z)
  then have "threadsInv (z\<lparr>reactorUp := False\<rparr>)" by (simp add: serverInv_def threadsInv_def)
  moreover have "queuesInv (z\<lparr>reactorUp := False\<rparr>) = queuesInv z" by (simp add: queuesInv_def)
  ultimately show ?case using reactor_stop(3) by (simp add: serverInv_def)
next
  case (main written z z')
  show ?case by (rule main_step_inv [OF main(3,1)])
next
  case (env w' z)
  note m = sharedInv_more [OF env(1)]
  have "threadsInv (z\<lparr>sw := w'\<rparr>) = threadsInv z" by (simp add: threadsInv_def)
  then show ?case using env(3) m by (simp add: serverInv_def)
qed

lemma sreach_inv: "sreach z \<Longrightarrow> serverInv z"
  by (induction rule: sreach.induct) (simp_all add: serverMain_inv sstep_inv)

end
