(* ===== verification/ServerLiveness.thy ===== *)
theory ServerLiveness
  imports Server
begin

section \<open>The shutdown\<close>

text \<open>
  After the signal the server can come to its end: from every state the threads can be in, some continuation in
  which no call fails and the sink reads leads to \<open>main\<close>'s exit, unless a listener runs whose registration of the
  eventfd was refused (the code does not check it): that one is never told of the shutdown, and \<open>main\<close> waits
  for it for ever. A sink that neither reads nor closes can keep the join of the aggregator (\<open>sink_stalls\<close>).
\<close>

definition calm :: "Server \<Rightarrow> Server \<Rightarrow> bool" where
  "calm = (sstep False)\<^sup>*\<^sup>*"

lemma calm_refl: "calm z z"
  by (simp add: calm_def)

lemma calm_step: "sstep False z z' \<Longrightarrow> calm z z'"
  by (simp add: calm_def)

lemma calm_trans: "calm a b \<Longrightarrow> calm b c \<Longrightarrow> calm a c"
  by (simp add: calm_def)

lemma calm_inv: "calm z z' \<Longrightarrow> serverInv z \<Longrightarrow> serverInv z'"
  unfolding calm_def by (induction rule: rtranclp_induct) (auto intro: sstep_inv)

text \<open>The environment can have all the calls to come succeed.\<close>

definition settle :: "Server \<Rightarrow> Server" where
  "settle z = z\<lparr>sw := (sw z)\<lparr>mallocs := [], rxs := (\<lambda>_. []), txs := (\<lambda>_. []), ep_rets := [], rands := []\<rparr>\<rparr>"

lemma settle_step: "sstep False z (settle z)"
  unfolding settle_def by (rule sstep.env) simp_all

lemma settle_calm: "sstep False (settle z) z' \<Longrightarrow> calm z z'"
  using calm_trans calm_step settle_step by blast

lemma settle_fields [simp]:
  "mainAt (settle z) = mainAt z" "eventReady (settle z) = eventReady z" "lisAt (settle z) = lisAt z" "largs (settle z) = largs z"
  "workersUp (settle z) = workersUp z" "workersMade (settle z) = workersMade z" "aggAt (settle z) = aggAt z" "sconf (settle z) = sconf z"
  "shutdownfd (settle z) = shutdownfd z" "reactorUp (settle z) = reactorUp z" "upReactor (settle z) = upReactor z"
  "shutdownFlag (settle z) = shutdownFlag z"
  "ingest (sw (settle z)) = ingest (sw z)" "dataQueue (sw (settle z)) = dataQueue (sw z)" "ctrlQueue (sw (settle z)) = ctrlQueue (sw z)"
  "agg (sw (settle z)) = agg (sw z)" "mallocs (sw (settle z)) = []" "txs (sw (settle z)) = (\<lambda>_. [])" "ep_rets (sw (settle z)) = []"
  by (simp_all add: settle_def)

lemma settle_ok: "noFailure (sw (settle z))"
  by (simp add: settle_def noFailure_def)

lemma settle_inv: "serverInv z \<Longrightarrow> serverInv (settle z)"
  using sstep_inv [OF settle_step] .

text \<open>A listener that runs unregistered.\<close>

definition deaf :: "Server \<Rightarrow> bool" where
  "deaf z \<longleftrightarrow> (\<exists>fd. LisLoop fd False \<in> set (lisAt z))"

lemma deaf_settle [simp]: "deaf (settle z) = deaf z"
  by (simp add: deaf_def)

text \<open>Where a continuation arrives.\<close>

definition arrives :: "Server \<Rightarrow> main_pc \<Rightarrow> bool" where
  "arrives z pc \<longleftrightarrow> (\<exists>z'. calm z z' \<and> mainAt z' = pc \<and> eventReady z' \<and> \<not> deaf z')"

lemma arrivesI: "calm z z' \<Longrightarrow> mainAt z' = pc \<Longrightarrow> eventReady z' \<Longrightarrow> \<not> deaf z' \<Longrightarrow> arrives z pc"
  by (auto simp: arrives_def)

lemma arrives_calm: "calm z z1 \<Longrightarrow> arrives z1 pc \<Longrightarrow> arrives z pc"
  unfolding arrives_def using calm_trans by blast

subsection \<open>The reactor and the listeners\<close>

lemma reactor_joined:
  assumes "serverInv z" and "mainAt z = M_JoinReactor" and "eventReady z" and "\<not> deaf z"
  shows "arrives z M_JoinListeners"
proof -
  have "shutdownFlag z" using assms(1,2) by (simp add: serverInv_def threadsInv_def)
  then obtain z1 where z1: "calm z z1" "mainAt z1 = M_JoinReactor" "eventReady z1" "\<not> deaf z1" "\<not> reactorUp z1"
    using assms(2-4) calm_refl calm_step [OF sstep.reactor_stop] by (cases "reactorUp z") (force simp: deaf_def)+
  define z2 where "z2 = z1\<lparr>sw := (case upReactor z1 of Some r \<Rightarrow> upstreamDestroy r (sw z1) | None \<Rightarrow> sw z1),
      upReactor := None, mainAt := M_JoinListeners\<rparr>"
  have "mainStep True z1 = MainGo z2" using z1 by (simp add: mainStep_def z2_def)
  from arrivesI [OF calm_step [OF sstep.main [OF this]]] have "arrives z1 M_JoinListeners"
    using z1 by (simp add: z2_def deaf_def)
  with z1(1) show ?thesis by (rule arrives_calm)
qed

definition good_listen :: listen_env where
  "good_listen = \<lparr>leSocket = 0, leReuse = True, leBind = True, leListen = True, leNonblock = True, leEpoll = 0\<rparr>"

text \<open>A registered listener ends, one that starts without failures is registered.\<close>

lemma listener_stops:
  assumes "i < length (lisAt z)" and "lisAt z ! i = LisLoop fd True" and "eventReady z"
  shows "\<exists>z'. calm z z' \<and> lisAt z' = (lisAt z)[i := LisDone] \<and> mainAt z' = mainAt z \<and> eventReady z'"
proof -
  let ?z = "settle z" and ?e = LevShutdown
  have e: "listenerEvent ep ?e w = (False, w)" for ep and w :: server_world by (simp add: listenerEvent_def)
  have "sstep False ?z (?z\<lparr>sw := (if False then sw ?z else os_close fd (sw ?z)),
      lisAt := (lisAt ?z)[i := (if False then LisLoop fd True else LisDone)]\<rparr>)"
    by (rule sstep.listener_event [OF _ _ _ e]) (simp_all add: assms settle_ok)
  from settle_calm [OF this] show ?thesis using assms(3) by (intro exI conjI) (assumption | simp)+
qed

lemma listener_registers:
  assumes "listenerSetup e shutfd s = (ep, sock, s')" and "noFailure s" and "listenOk e"
  shows "\<exists>fd rc. sock = Some (fd, rc) \<and> wakeable ep shutfd rc s s'"
proof -
  have "ep_rets s = []" using assms(2) by (simp add: noFailure_def)
  then show ?thesis using assms(1,3)
    by (auto simp: listenerSetup_def listenOk_def os_epoll_ctl_def wakeable_def watched_def Let_def)
qed

lemma listener_ends:
  assumes "i < length (lisAt z)" and "lisAt z ! i \<noteq> LisDone" and "eventReady z" and "\<not> deaf z"
  shows "\<exists>z'. calm z z' \<and> lisAt z' = (lisAt z)[i := LisDone] \<and> mainAt z' = mainAt z \<and> eventReady z'"
proof (cases "lisAt z ! i")
  case LisStart
  let ?z = "settle z"
  have good: "listenOk good_listen" by (simp add: listenOk_def good_listen_def)
  obtain ep sock w' where set: "listenerSetup good_listen (shutdownfd ?z) (sw ?z) = (ep, sock, w')" by (metis prod_cases3)
  then obtain fd rc where sock: "sock = Some (fd, rc)" "wakeable ep (shutdownfd ?z) rc (sw ?z) w'"
    using listener_registers settle_ok good by blast
  let ?z1 = "?z\<lparr>sw := w', largs := (largs ?z)[i := ep], lisAt := (lisAt ?z)[i := LisLoop fd True]\<rparr>"
  have "sstep False ?z ?z1"
    using sstep.listener_start [where fails = False, OF _ _ set] assms(1) LisStart settle_ok good sock by simp
  note 1 = settle_calm [OF this]
  have "i < length (lisAt ?z1)" "lisAt ?z1 ! i = LisLoop fd True" "eventReady ?z1" using assms by simp_all
  from listener_stops [OF this] obtain z' where "calm ?z1 z'" "lisAt z' = (lisAt ?z1)[i := LisDone]" "mainAt z' = mainAt ?z1"
    "eventReady z'" by blast
  then show ?thesis using calm_trans [OF 1] by (intro exI [of _ z']) simp
next
  case (LisLoop fd reg)
  then have "reg" using assms(1,4) nth_mem [OF assms(1)] by (cases reg) (auto simp: deaf_def)
  with LisLoop show ?thesis using listener_stops [OF assms(1) _ assms(3)] by simp
qed (use assms in simp)

lemma listeners_end:
  "mainAt z = M_JoinListeners \<Longrightarrow> eventReady z \<Longrightarrow> \<not> deaf z \<Longrightarrow>
     \<exists>z'. calm z z' \<and> \<not> list_ex (\<lambda>l. l \<noteq> LisDone) (lisAt z') \<and> mainAt z' = M_JoinListeners \<and> eventReady z'"
proof (induction "card {i. i < length (lisAt z) \<and> lisAt z ! i \<noteq> LisDone}" arbitrary: z rule: less_induct)
  case less
  show ?case
  proof (cases "list_ex (\<lambda>l. l \<noteq> LisDone) (lisAt z)")
    case False
    then show ?thesis using less.prems calm_refl by blast
  next
    case True
    then obtain i where i: "i < length (lisAt z)" "lisAt z ! i \<noteq> LisDone" by (auto simp: list_ex_length)
    from listener_ends [OF this less.prems(2,3)] obtain z1 where z1: "calm z z1" "lisAt z1 = (lisAt z)[i := LisDone]"
      "mainAt z1 = M_JoinListeners" "eventReady z1" using less.prems(1) by auto
    have "set (lisAt z1) \<subseteq> insert LisDone (set (lisAt z))" by (simp add: z1(2) set_update_subset_insert)
    then have deaf: "\<not> deaf z1" using less.prems(3) by (auto simp: deaf_def)
    have del: "{k. k < length (lisAt z1) \<and> lisAt z1 ! k \<noteq> LisDone} = {k. k < length (lisAt z) \<and> lisAt z ! k \<noteq> LisDone} - {i}"
      using i by (auto simp: z1(2) nth_list_update)
    have "card {k. k < length (lisAt z1) \<and> lisAt z1 ! k \<noteq> LisDone} < card {k. k < length (lisAt z) \<and> lisAt z ! k \<noteq> LisDone}"
      unfolding del using i by (intro card_Diff1_less) simp_all
    from less.hyps [OF this z1(3,4) deaf] show ?thesis using calm_trans [OF z1(1)] by blast
  qed
qed

lemma done_not_deaf: "\<not> list_ex (\<lambda>l. l \<noteq> LisDone) (lisAt z) \<Longrightarrow> \<not> deaf z"
  by (force simp: deaf_def list_ex_iff)

lemma listeners_joined:
  assumes "mainAt z = M_JoinListeners" and "eventReady z" and "\<not> deaf z"
  shows "arrives z M_JoinWorkers"
proof -
  obtain z1 where z1: "calm z z1" "\<not> list_ex (\<lambda>l. l \<noteq> LisDone) (lisAt z1)" "mainAt z1 = M_JoinListeners" "eventReady z1"
    using listeners_end [OF assms] by blast
  define z2 where "z2 = z1\<lparr>sw := (sw z1)\<lparr>ingest := shutdownQueue (ingest (sw z1))\<rparr>, mainAt := M_JoinWorkers\<rparr>"
  have "mainStep True z1 = MainGo z2" using z1 by (simp add: mainStep_def z2_def)
  from arrivesI [OF calm_step [OF sstep.main [OF this]]] have "arrives z1 M_JoinWorkers"
    using z1 done_not_deaf [OF z1(2)] by (simp add: z2_def deaf_def)
  with z1(1) show ?thesis by (rule arrives_calm)
qed

text \<open>An unregistered listener runs on: without failures no step ends it.\<close>

lemma deaf_step: "sstep False z z' \<Longrightarrow> deaf z \<Longrightarrow> deaf z'"
proof (induction rule: sstep.induct)
  case (listener_event i z fd reg e on w')
  from listener_event(6) obtain j f where j: "j < length (lisAt z)" "lisAt z ! j = LisLoop f False"
    by (auto simp: deaf_def in_set_conv_nth)
  show ?case
  proof (cases "i = j")
    case True
    then have "\<not> reg" using j listener_event(2) by simp
    then have "e \<noteq> LevShutdown" using listener_event(3) by auto
    then have "on" using listener_event(4) by (cases e) (auto simp: listenerEvent_def split: prod.splits)
    with True j show ?thesis unfolding deaf_def in_set_conv_nth
      by (intro exI [of _ f] exI [of _ j]) (use listener_event(2) in simp)
  next
    case False
    with j show ?thesis unfolding deaf_def in_set_conv_nth by (intro exI [of _ f] exI [of _ j]) simp
  qed
next
  case (listener_start i z e ep sock w')
  from listener_start(5) obtain j f where j: "j < length (lisAt z)" "lisAt z ! j = LisLoop f False"
    by (auto simp: deaf_def in_set_conv_nth)
  with listener_start(2) have "i \<noteq> j" by auto
  with j show ?case unfolding deaf_def in_set_conv_nth by (intro exI [of _ f] exI [of _ j]) simp
next
  case (main written z z')
  have "lisAt z' = lisAt z" using main(1)
    by (auto simp: mainStep_def serverCleanup_def Let_def split: main_pc.splits if_splits option.splits)
  with main(3) show ?case by (simp add: deaf_def)
qed (simp_all add: deaf_def)

lemma deaf_calm: "calm z z' \<Longrightarrow> deaf z \<Longrightarrow> deaf z'"
  unfolding calm_def by (induction rule: rtranclp_induct) (auto intro: deaf_step)

lemma deaf_stage: "serverInv z \<Longrightarrow> deaf z \<Longrightarrow> mainAt z \<noteq> M_Exit"
  using done_not_deaf [of z] by (auto simp: serverInv_def threadsInv_def)

subsection \<open>The workers\<close>

text \<open>
  How many turns the workers can still take once the listeners are over: one for every connection in the queue
  and one for every worker, to see that the queue is shut down.
\<close>

definition workLeft :: "Server \<Rightarrow> nat" where
  "workLeft z = qsize (ingest (sw z)) + length (filter (\<lambda>up. up) (workersUp z))"

lemma filter_update_false:
  "i < length bs \<Longrightarrow> bs ! i \<Longrightarrow> length (filter (\<lambda>b. b) bs) = Suc (length (filter (\<lambda>b. b) (bs[i := False])))"
proof (induction bs arbitrary: i)
  case (Cons b bs)
  then show ?case by (cases i) auto
qed simp

lemma worker_progress:
  assumes inv: "serverInv z" and pc: "mainAt z = M_JoinWorkers" and i: "i < length (workersUp z)" "workersUp z ! i"
    and mem: "mallocs (sw z) = []" and st: "workerStep (sconf z) (sw z) = (next, w')"
  shows "Suc (workLeft (z\<lparr>sw := w', workersUp := (workersUp z)[i := (next \<noteq> WkExit)]\<rparr>)) = workLeft z"
proof -
  have q: "queuesInv z" and sys: "sysInv (sconf z) (sw z)" using inv pc by (simp_all add: serverInv_def)
  have "qshutdown (ingest (sw z))" using q pc by (simp add: queuesInv_def)
  moreover note workerStep_inv [OF sys mem st]
  moreover have "(workersUp z)[i := True] = workersUp z" using i by (metis list_update_id)
  ultimately show ?thesis using filter_update_false [OF i] by (cases "next") (auto simp: workLeft_def)
qed

lemma workers_end:
  "serverInv z \<Longrightarrow> mainAt z = M_JoinWorkers \<Longrightarrow> eventReady z \<Longrightarrow>
     \<exists>z'. calm z z' \<and> \<not> list_ex (\<lambda>up. up) (workersUp z') \<and> mainAt z' = M_JoinWorkers \<and> eventReady z'"
proof (induction "workLeft z" arbitrary: z rule: less_induct)
  case less
  show ?case
  proof (cases "list_ex (\<lambda>up. up) (workersUp z)")
    case False
    then show ?thesis using less.prems calm_refl by blast
  next
    case True
    then obtain i where i: "i < length (workersUp z)" "workersUp z ! i" by (auto simp: list_ex_length)
    let ?z1 = "settle z"
    obtain "next" w' where st: "workerStep (sconf ?z1) (sw ?z1) = (next, w')" by fastforce
    let ?z2 = "?z1\<lparr>sw := w', workersUp := (workersUp ?z1)[i := (next \<noteq> WkExit)]\<rparr>"
    have inv1: "serverInv ?z1" using settle_inv [OF less.prems(1)] .
    have i1: "i < length (workersUp ?z1)" "workersUp ?z1 ! i" "mallocs (sw ?z1) = []" using i by simp_all
    have 2: "sstep False ?z1 ?z2" by (rule sstep.worker [OF i1 st]) (simp add: settle_ok)
    have pc: "mainAt ?z1 = M_JoinWorkers" using less.prems(2) by simp
    have "Suc (workLeft ?z2) = workLeft ?z1" by (rule worker_progress [OF inv1 pc i1 st])
    moreover have "workLeft ?z1 = workLeft z" by (simp add: workLeft_def)
    ultimately have "workLeft ?z2 < workLeft z" by simp
    moreover have "mainAt ?z2 = M_JoinWorkers" "eventReady ?z2" using less.prems by simp_all
    ultimately show ?thesis using less.hyps [of ?z2] sstep_inv [OF 2 inv1] calm_trans [OF settle_calm [OF 2]] by blast
  qed
qed

lemma stage_not_deaf: "serverInv z \<Longrightarrow> 2 < stage (mainAt z) \<Longrightarrow> \<not> deaf z"
  by (rule done_not_deaf) (simp add: serverInv_def threadsInv_def)

lemma workers_joined:
  assumes "serverInv z" and "mainAt z = M_JoinWorkers" and "eventReady z"
  shows "arrives z M_JoinAgg"
proof -
  obtain z1 where z1: "calm z z1" "\<not> list_ex (\<lambda>up. up) (workersUp z1)" "mainAt z1 = M_JoinWorkers" "eventReady z1"
    using workers_end [OF assms] by blast
  define z2 where "z2 = z1\<lparr>sw := (sw z1)\<lparr>dataQueue := shutdownQueue (dataQueue (sw z1)),
      ctrlQueue := shutdownQueue (ctrlQueue (sw z1))\<rparr>, mainAt := M_JoinAgg\<rparr>"
  have "mainStep True z1 = MainGo z2" using z1 by (simp add: mainStep_def z2_def)
  then have s: "calm z1 z2" by (rule calm_step [OF sstep.main]) simp
  then have "\<not> deaf z2" using calm_inv [OF calm_trans [OF z1(1) s] assms(1)] by (intro stage_not_deaf) (simp_all add: z2_def)
  with s have "arrives z1 M_JoinAgg" using z1 by (intro arrivesI) (simp_all add: z2_def)
  with z1(1) show ?thesis by (rule arrives_calm)
qed

subsection \<open>The aggregator\<close>

text \<open>With the queues shut down, a round without a sink is the last one.\<close>

lemma agg_last_round:
  assumes inv: "sysInv conf w" and sh: "qshutdown (dataQueue w)" and sk: "sink (agg w) = None" and ct: "qcontents (ctrlQueue w) = []"
  shows "\<exists>w'. aggIterate [] w = Some (False, w')"
proof -
  have q: "queueInv (ctrlQueue w)" using inv by (simp add: sysInv_def)
  then have "qsize (ctrlQueue w) = 0" using ct by (simp flip: length_qcontents)
  then have "trypop (ctrlQueue w) = None" by (simp add: trypop_def)
  then have 1: "aggCtrlLoop w = Some w" by (subst aggCtrlLoop.simps) simp
  have 2: "aggPump w = Some w" using sk by (subst aggPump.simps) simp
  obtain w3 where 3: "aggDrainForShutdown w = Some w3" using aggDrainForShutdown_inv [OF inv] by blast
  have "aggRound w = Some (AggBreak, w) \<or> aggRound w = Some (AggBreak, w3)"
    using sh sk by (simp add: aggRound_def 1 2 3 Let_def queueIsShutdown_def)
  then show ?thesis by (auto simp: aggIterate_def)
qed

text \<open>With a sink that takes what it is given, the pump empties the queue, and this round is the last one too.\<close>

definition quiet :: "'a os_scheme \<Rightarrow> bool" where
  "quiet s \<longleftrightarrow> mallocs s = [] \<and> txs s = (\<lambda>_. [])"

lemma quiet_os [simp]: "quiet (os_close fd s) = quiet s" "quiet (snd (os_epoll_ctl ep op fd evs s)) = quiet s"
  by (simp_all add: quiet_def os_close_def os_epoll_ctl_def Let_def split: list.split)

lemma quiet_upd [simp]:
  "quiet (upd_agg g w) = quiet w" "quiet (upd_conn c f v) = quiet v" "quiet (v\<lparr>regHead := h\<rparr>) = quiet v"
  "quiet (v\<lparr>conns := m\<rparr>) = quiet v"
  by (simp_all add: quiet_def upd_conn_def)

lemma quiet_sendSome: "quiet s \<Longrightarrow> quiet (sendSome fd bs s)"
proof (induction fd bs s rule: sendSome.induct)
  case (1 fd bs s)
  have "os_send fd bs s = (IoN (length bs), s\<lparr>wire := (wire s)(fd := wire s fd @ bs)\<rparr>)"
    using 1(2) by (simp add: os_send_def quiet_def)
  with 1 show ?case by (subst sendSome.simps) (simp add: quiet_def)
qed

lemma quiet_sendClose: "quiet s \<Longrightarrow> quiet (sendCloseBestEffort fd code s)"
  by (simp add: sendCloseBestEffort_def frameNew_def os_alloc_def quiet_sendSome quiet_def [of s] Let_def)

lemma quiet_connClose [simp]:
  fixes v :: "'a conn_world_scheme"
  shows "quiet (connClose c v) = quiet v"
proof -
  have "quiet (registryRemove c u) = quiet u" for u :: "'a conn_world_scheme"
    by (simp add: registryRemove_def Let_def split: option.split)
  then show ?thesis
    by (simp add: connClose_def connDestroy_def connFreeResources_def Let_def split: option.split)
qed

lemma quiet_closeSink: "quiet w \<Longrightarrow> quiet (closeSink w)"
  by (simp add: closeSink_def split: option.split)

lemma quiet_handleCtrl: "quiet w \<Longrightarrow> quiet (handleCtrl m w)"
  by (auto simp: handleCtrl_def adoptSink_def Let_def quiet_closeSink quiet_sendClose split: MsgKind_t.split option.split)

lemma quiet_ctrlLoop: "aggCtrlLoop w = Some w' \<Longrightarrow> quiet w \<Longrightarrow> quiet w'"
proof (induction rule: aggCtrlLoop_returned)
  case (step loop w w')
  have "quiet (handleCtrl m (w\<lparr>ctrlQueue := q\<rparr>))" for m q using step(3) by (intro quiet_handleCtrl) (simp add: quiet_def)
  with step show ?case by (auto split: option.splits prod.splits)
qed

lemma agg_quiet_round:
  assumes inv: "sysInv conf w" and sh: "qshutdown (dataQueue w)" "qshutdown (ctrlQueue w)" and quiet: "quiet w"
  shows "\<exists>w'. aggIterate [] w = Some (False, w')"
proof -
  obtain w1 where 1: "aggCtrlLoop w = Some w1" "sysInv conf w1" "qcontents (ctrlQueue w1) = []"
    using aggCtrlLoop_inv [OF inv] by blast
  note k1 = aggCtrlLoop_kept [OF 1(1)]
  show ?thesis
  proof (cases "sink (agg w1)")
    case None
    from agg_last_round [OF 1(2) _ None 1(3)] k1 sh obtain w' where last: "aggIterate [] w1 = Some (False, w')"
      by (auto simp: queuesKept_def)
    have "queueInv (ctrlQueue w1)" using 1(2) by (simp add: sysInv_def)
    then have "trypop (ctrlQueue w1) = None" using 1(3) by (simp add: trypop_def flip: length_qcontents)
    then have "aggCtrlLoop w1 = Some w1" by (subst aggCtrlLoop.simps) simp
    then have "aggRound w = aggRound w1" by (simp add: aggRound_def 1(1))
    with last show ?thesis by (auto simp: aggIterate_def)
  next
    case (Some c)
    have "quiet w1" using quiet_ctrlLoop [OF 1(1) quiet] .
    then obtain w2 where 2: "aggPump w1 = Some w2" "pumpDone c w2"
      using aggPump_main [OF sysInv_pump [OF 1(2)] Some] by (auto simp: quiet_def)
    note k2 = aggPump_kept [OF 2(1)]
    obtain w2' where "aggPump w1 = Some w2'" "sysInv conf w2'" using aggPump_inv [OF 1(2)] by blast
    then have "queueInv (dataQueue w2)" "queueInv (ctrlQueue w2)" using 2(1) by (simp_all add: sysInv_def)
    then have "queueSize (dataQueue w2) = 0" "queueSize (ctrlQueue w2) = 0"
      using 2(2) 1(3) k2 by (simp_all add: pumpDone_def queueSize_def flip: length_qcontents)
    moreover have "qshutdown (dataQueue w2)" "qshutdown (ctrlQueue w2)" using sh k1 k2 by (simp_all add: queuesKept_def)
    ultimately have "aggRound w = Some (AggBreak, w2)" by (simp add: aggRound_def 1(1) 2(1) Let_def queueIsShutdown_def)
    then show ?thesis by (simp add: aggIterate_def)
  qed
qed

lemma agg_ends:
  assumes inv: "serverInv z" and pc: "mainAt z = M_JoinAgg" and ev: "eventReady z" and at: "aggAt z = AggLoop tm"
  shows "\<exists>z'. calm z z' \<and> aggAt z' = AggDone \<and> mainAt z' = M_JoinAgg \<and> eventReady z'"
proof -
  let ?z = "settle z"
  have inv1: "serverInv ?z" using settle_inv [OF inv] .
  then have sys: "sysInv (sconf ?z) (sw ?z)" and "queuesInv ?z" using pc by (simp_all add: serverInv_def)
  then have sh: "qshutdown (dataQueue (sw ?z))" "qshutdown (ctrlQueue (sw ?z))" using pc by (simp_all add: queuesInv_def)
  have "quiet (sw ?z)" by (simp add: quiet_def)
  from agg_quiet_round [OF sys sh this] obtain w1 where it: "aggIterate [] (sw ?z) = Some (False, w1)" by blast
  have "sysInv (sconf ?z) w1" using aggIterate_inv [OF sys, of "[]"] it by auto
  then obtain w2 where "aggFinish tm w1 = Some w2" using aggFinish_inv by blast
  with at it have "sstep False ?z (?z\<lparr>sw := w2, aggAt := AggDone\<rparr>)" by (intro sstep.agg_stop) (simp_all add: settle_ok)
  from settle_calm [OF this] show ?thesis using pc ev by (intro exI [of _ "?z\<lparr>sw := w2, aggAt := AggDone\<rparr>"]) simp
qed

lemma agg_over:
  assumes inv: "serverInv z" and pc: "mainAt z = M_JoinAgg" and ev: "eventReady z"
  shows "\<exists>z1. calm z z1 \<and> aggAt z1 = AggDone \<and> mainAt z1 = M_JoinAgg \<and> eventReady z1"
proof (cases "aggAt z")
  case AggStart
  let ?e = "\<lparr>aeEpoll = 0, aeDataFd = 0, aeCtrlFd = 0, aeTimer = 0\<rparr>" and ?z = "settle z"
  obtain started w' where st: "aggStart (sconf ?z) ?e (sw ?z) = (started, w')" by fastforce
  let ?z1 = "?z\<lparr>sw := w', aggAt := (case started of None \<Rightarrow> AggDone | Some (tm, _) \<Rightarrow> AggLoop tm)\<rparr>"
  have 1: "sstep False ?z ?z1" using AggStart by (intro sstep.agg_start [OF _ st]) (simp_all add: settle_ok aggOk_def)
  show ?thesis
  proof (cases started)
    case None
    then show ?thesis using settle_calm [OF 1] pc ev by (intro exI [of _ ?z1]) simp
  next
    case (Some p)
    then obtain tm sp where "started = Some (tm, sp)" by (cases p) auto
    then have "aggAt ?z1 = AggLoop tm" "mainAt ?z1 = M_JoinAgg" "eventReady ?z1" using pc ev by simp_all
    from agg_ends [OF sstep_inv [OF 1 settle_inv [OF inv]] this(2,3,1)] show ?thesis using calm_trans [OF settle_calm [OF 1]] by blast
  qed
next
  case (AggLoop tm)
  from agg_ends [OF inv pc ev this] show ?thesis .
next
  case AggDone
  then show ?thesis using calm_refl pc ev by blast
qed

lemma last_step:
  assumes "serverInv z" and "mainAt z = M_JoinAgg" and "aggAt z = AggDone"
  shows "\<exists>z'. mainStep True z = MainGo z' \<and> mainAt z' = M_Exit \<and> eventReady z' = eventReady z"
proof -
  have "sysInv (sconf z) (sw z)" using assms(1,2) by (simp add: serverInv_def)
  from serverCleanup_ok [OF this] obtain w' where
    "serverCleanup z = Some (z\<lparr>sconf := (sconf z)\<lparr>upstreams := [], upstreamCapacity := 0\<rparr>, sw := w', mainAt := M_Exit\<rparr>)" by blast
  then show ?thesis using assms(2,3) by (simp add: mainStep_def)
qed

lemma agg_joined:
  assumes inv: "serverInv z" and pc: "mainAt z = M_JoinAgg" and ev: "eventReady z"
  shows "arrives z M_Exit"
proof -
  obtain z1 where z1: "calm z z1" "aggAt z1 = AggDone" "mainAt z1 = M_JoinAgg" "eventReady z1" using agg_over [OF assms] by blast
  note inv1 = calm_inv [OF z1(1) inv]
  obtain z2 where z2: "mainStep True z1 = MainGo z2" "mainAt z2 = M_Exit" "eventReady z2 = eventReady z1"
    using last_step [OF inv1 z1(3,2)] by blast
  have s: "calm z1 z2" by (rule calm_step [OF sstep.main [OF z2(1)]]) simp
  have "\<not> deaf z2" using calm_inv [OF s inv1] z2(2) by (intro stage_not_deaf) simp_all
  then have "arrives z1 M_Exit" using arrivesI [OF s] z2 z1 by simp
  with z1(1) show ?thesis by (rule arrives_calm)
qed

lemma arrives_next:
  assumes "serverInv z" and "arrives z pc" and "\<And>y. serverInv y \<Longrightarrow> mainAt y = pc \<Longrightarrow> eventReady y \<Longrightarrow> \<not> deaf y \<Longrightarrow> arrives y pc'"
  shows "arrives z pc'"
proof -
  obtain y where y: "calm z y" "mainAt y = pc" "eventReady y" "\<not> deaf y" using assms(2) unfolding arrives_def by blast
  with assms(3) [OF calm_inv [OF y(1) assms(1)]] show ?thesis using arrives_calm by blast
qed

lemma shutdown_ends:
  assumes inv: "serverInv z" and ev: "eventReady z" and "\<not> deaf z"
  shows "arrives z M_Exit"
proof -
  have a: "arrives y M_Exit" if "serverInv y" "mainAt y = M_JoinAgg" "eventReady y" for y using agg_joined that .
  have w: "arrives y M_Exit" if "serverInv y" "mainAt y = M_JoinWorkers" "eventReady y" for y
    using arrives_next [OF that(1) workers_joined [OF that] a] .
  have l: "arrives y M_Exit" if "serverInv y" "mainAt y = M_JoinListeners" "eventReady y" "\<not> deaf y" for y
    using arrives_next [OF that(1) listeners_joined [OF that(2-4)] w] .
  have r: "arrives y M_Exit" if "serverInv y" "mainAt y = M_JoinReactor" "eventReady y" "\<not> deaf y" for y
    using arrives_next [OF that(1) reactor_joined [OF that] l] .
  show ?thesis
  proof (cases "mainAt z")
    case M_Wait
    then show ?thesis using inv ev by (simp add: serverInv_def threadsInv_def)
  next
    case M_Exit
    then show ?thesis using arrivesI [OF calm_refl] ev assms(3) by blast
  qed (use a w l r inv ev assms(3) in blast)+
qed

subsection \<open>What can hold the shutdown up\<close>

text \<open>
  The aggregator waits for a sink that has stopped reading: it holds a half-sent frame, the data queue is not
  empty, and the socket accepts nothing. Nothing main has done changes that, and its rounds can repeat for ever.
\<close>

definition stalled :: "Server \<Rightarrow> bool" where
  "stalled z \<longleftrightarrow> mainAt z = M_JoinAgg \<and> (\<exists>tm c f. aggAt z = AggLoop tm \<and> sink (agg (sw z)) = Some c \<and>
     pendingCtrl (agg (sw z)) = None \<and> pending (agg (sw z)) = Some f \<and> pendingOff (agg (sw z)) < length f \<and>
     txs (sw z) (sinkFd c (sw z)) = [IoAgain] \<and> qsize (ctrlQueue (sw z)) = 0 \<and> qsize (dataQueue (sw z)) \<noteq> 0) \<and>
     noFailure (sw z)"

lemma stalled_pump:
  assumes "sink (agg w) = Some c" "pendingCtrl (agg w) = None" "pending (agg w) = Some f" "pendingOff (agg w) < length f"
    and "txs w (sinkFd c w) = [IoAgain]"
  shows "\<exists>w'. aggPump w = Some w' \<and> agg w' = agg w \<and> conns w' = conns w \<and> dataQueue w' = dataQueue w \<and> ctrlQueue w' = ctrlQueue w"
proof -
  let ?s = "w\<lparr>txs := (txs w)(sinkFd c w := [])\<rparr>"
  have snd: "os_send (sinkFd c w) bs w = (IoAgain, ?s)" for bs using assms(5) by (simp add: os_send_def)
  have loop: "sinkFlushLoop (sinkFd c w) f (pendingOff (agg w)) w = (0, pendingOff (agg w), ?s)"
    using assms(4) snd by (subst sinkFlushLoop.simps) simp
  have "upd_agg (\<lambda>a. a\<lparr>pendingCtrl := None, pendingCtrlOff := pendingCtrlOff a\<rparr>) w = w"
    using assms(2) by (simp add: upd_agg_def)
  then have same: "upd_agg (\<lambda>a. a\<lparr>pendingCtrl := None, pendingCtrlOff := pendingCtrlOff (agg w)\<rparr>) w = w"
    using assms(2) by (cases w) (simp add: upd_agg_def)
  have "sinkFlush w = (0, upd_agg (\<lambda>a. a\<lparr>pending := Some f, pendingOff := pendingOff (agg w)\<rparr>) ?s)"
    using assms loop same by (simp add: sinkFlush_def sinkFlushOne_def Let_def)
  moreover have "upd_agg (\<lambda>a. a\<lparr>pending := Some f, pendingOff := pendingOff (agg w)\<rparr>) ?s = ?s"
    using assms(3) by (cases w) (simp add: upd_agg_def)
  ultimately have "aggPump w = Some (sinkArm ?s)" using assms(1) by (subst aggPump.simps) simp
  moreover have "os.more (sinkArm ?s) = os.more ?s" by (simp add: sinkArm_def Let_def os_epoll_ctl_world split: option.split)
  note world_more [OF this]
  ultimately show ?thesis by simp
qed

lemma sink_stalls:
  assumes "stalled z"
  shows "mainStep written z = MainBlocked" "\<exists>z1 z2. sstep False z z1 \<and> sstep False z1 z2 \<and> stalled z2"
proof -
  obtain tm c f where pc: "mainAt z = M_JoinAgg" and at: "aggAt z = AggLoop tm"
    and sk: "sink (agg (sw z)) = Some c" "pendingCtrl (agg (sw z)) = None" "pending (agg (sw z)) = Some f"
      "pendingOff (agg (sw z)) < length f" "txs (sw z) (sinkFd c (sw z)) = [IoAgain]"
    and q: "qsize (ctrlQueue (sw z)) = 0" "qsize (dataQueue (sw z)) \<noteq> 0" and ok: "noFailure (sw z)"
    using assms unfolding stalled_def by blast
  show "mainStep written z = MainBlocked" using pc at by (simp add: mainStep_def)
  have "trypop (ctrlQueue (sw z)) = None" using q(1) by (simp add: trypop_def)
  then have 1: "aggCtrlLoop (sw z) = Some (sw z)" by (subst aggCtrlLoop.simps) simp
  obtain w' where w': "aggPump (sw z) = Some w'" "agg w' = agg (sw z)" "conns w' = conns (sw z)"
    "dataQueue w' = dataQueue (sw z)" "ctrlQueue w' = ctrlQueue (sw z)" using stalled_pump [OF sk] by blast
  have "aggRound (sw z) = Some (AggWait, w')"
    using 1 w' sk(1) q by (simp add: aggRound_def Let_def queueSize_def)
  then have "aggIterate [] (sw z) = Some (True, w')" by (simp add: aggIterate_def)
  note s1 = sstep.agg_round [where fails = False, OF at this disjI2 [OF ok]]
  let ?z1 = "z\<lparr>sw := w'\<rparr>"
  let ?w = "w'\<lparr>mallocs := [], rxs := (\<lambda>_. []), txs := (\<lambda>_. [])(sinkFd c w' := [IoAgain]), ep_rets := [], rands := []\<rparr>"
  have s2: "sstep False ?z1 (?z1\<lparr>sw := ?w\<rparr>)" by (rule sstep.env) simp_all
  have "sinkFd c ?w = sinkFd c w'" by (simp add: sinkFd_def)
  moreover have "noFailure ?w" by (simp add: noFailure_def)
  ultimately have "stalled (?z1\<lparr>sw := ?w\<rparr>)" using pc at sk q w' by (simp add: stalled_def)
  with s1 s2 show "\<exists>z1 z2. sstep False z z1 \<and> sstep False z1 z2 \<and> stalled z2" by blast
qed

subsection \<open>Properties\<close>

text \<open>C3: The threads keep the shared state intact in every state the server can reach, whatever the peers send, in
  whatever order the threads run and whichever system calls fail (the allocations in a turn of a worker or of
  the reactor excepted, which succeed in the model), from the start until the exit: the invariant of
  the connections, the queues and the messages holds and every upstream client is consistent. The listeners'
  queue is shut down exactly from the moment \<open>main\<close> has joined the listeners, which are then all over; the
  aggregator's two queues exactly from the moment it has joined the workers, which are then all over, and not
  before; and a worker that has ended has left the listeners' queue empty. The clean-up of \<open>main\<close> never uses
  a freed connection or node.\<close>

theorem server_invariant:
  assumes "sreach z"
  shows "(mainAt z \<noteq> M_Exit \<longrightarrow> sysInv (sconf z) (sw z)) \<and> (\<forall>r. upReactor z = Some r \<longrightarrow> reactorOk (sconf z) r) \<and>
    (mainAt z \<noteq> M_Exit \<longrightarrow> (qshutdown (ingest (sw z)) \<longleftrightarrow> 2 < stage (mainAt z)) \<and>
       (workersUp z \<noteq> workersMade z \<longrightarrow> qshutdown (ingest (sw z)) \<and> qcontents (ingest (sw z)) = []) \<and>
       (qshutdown (dataQueue (sw z)) \<longleftrightarrow> 3 < stage (mainAt z)) \<and> (qshutdown (ctrlQueue (sw z)) \<longleftrightarrow> 3 < stage (mainAt z))) \<and>
    (2 < stage (mainAt z) \<longrightarrow> \<not> list_ex (\<lambda>l. l \<noteq> LisDone) (lisAt z)) \<and>
    (3 < stage (mainAt z) \<longrightarrow> \<not> list_ex (\<lambda>up. up) (workersUp z)) \<and> mainStep written z \<noteq> MainFault"
proof -
  have inv: "serverInv z" using sreach_inv [OF assms] .
  then have th: "threadsInv z" by (simp add: serverInv_def)
  have fault: "mainStep written z \<noteq> MainFault"
  proof (cases "mainAt z = M_JoinAgg")
    case True
    then have "sysInv (sconf z) (sw z)" using inv by (simp add: serverInv_def)
    then have "serverCleanup z \<noteq> None" using serverCleanup_ok by blast
    then show ?thesis using True by (auto simp: mainStep_def)
  qed (auto simp: mainStep_def split: main_pc.splits)
  have "qcontents (ingest (sw z)) = []" if "sysInv (sconf z) (sw z)" "qsize (ingest (sw z)) = 0"
  proof -
    have "queueInv (ingest (sw z))" using that(1) by (simp add: sysInv_def)
    from length_qcontents [OF this] that(2) show ?thesis by simp
  qed
  then have live: "sysInv (sconf z) (sw z) \<and> (qshutdown (ingest (sw z)) \<longleftrightarrow> 2 < stage (mainAt z)) \<and>
       (workersUp z \<noteq> workersMade z \<longrightarrow> qshutdown (ingest (sw z)) \<and> qcontents (ingest (sw z)) = []) \<and>
       (qshutdown (dataQueue (sw z)) \<longleftrightarrow> 3 < stage (mainAt z)) \<and> (qshutdown (ctrlQueue (sw z)) \<longleftrightarrow> 3 < stage (mainAt z))" if "mainAt z \<noteq> M_Exit"
    using inv that by (auto simp: serverInv_def queuesInv_def)
  show ?thesis using th fault live unfolding threadsInv_def by blast
qed

text \<open>C11: When \<open>main\<close> reaches its exit every thread is over and nothing is left: all the connections are freed and
  their sockets closed, the three queues have no node left, the epoll descriptors of the listeners and the
  eventfd are closed, and if any worker was running, every connection in the listeners' queue had been handled.\<close>

theorem server_exit_clean:
  assumes "sreach z" and "mainAt z = M_JoinAgg" and "mainStep written z = MainGo z'"
  shows "mainAt z' = M_Exit \<and> \<not> reactorUp z' \<and> upReactor z' = None \<and> \<not> list_ex (\<lambda>l. l \<noteq> LisDone) (lisAt z') \<and>
    \<not> list_ex (\<lambda>up. up) (workersUp z') \<and> aggAt z' = AggDone \<and> allFreed (sw z') \<and>
    (\<forall>c x. conns (sw z) c = Some x \<longrightarrow> cfd x \<in> set (closed (sw z'))) \<and> shutdownfd z' \<in> set (closed (sw z')) \<and>
    (\<forall>fd \<in> set (largs z'). 0 \<le> fd \<longrightarrow> fd \<in> set (closed (sw z'))) \<and>
    (list_ex (\<lambda>made. made) (workersMade z) \<longrightarrow> qcontents (ingest (sw z)) = [])"
proof -
  have inv: "serverInv z" using sreach_inv [OF assms(1)] .
  then have th: "threadsInv z" and sys: "sysInv (sconf z) (sw z)" and q: "queuesInv z" using assms(2) by (simp_all add: serverInv_def)
  have fin: "aggAt z = AggDone" "serverCleanup z = Some z'"
    using assms(2,3) by (auto simp: mainStep_def split: if_splits option.splits)
  from serverCleanup_ok [OF sys] obtain w' where w':
    "z' = z\<lparr>sconf := (sconf z)\<lparr>upstreams := [], upstreamCapacity := 0\<rparr>, sw := w', mainAt := M_Exit\<rparr>" "allFreed w'"
    "\<forall>c x. conns (sw z) c = Some x \<longrightarrow> cfd x \<in> set (closed w')" "shutdownfd z \<in> set (closed w')"
    "\<forall>fd \<in> set (largs z). 0 \<le> fd \<longrightarrow> fd \<in> set (closed w')" using fin(2) by auto
  have "qcontents (ingest (sw z)) = []" if "list_ex (\<lambda>made. made) (workersMade z)"
  proof -
    have "\<not> list_ex (\<lambda>up. up) (workersUp z)" using th assms(2) by (simp add: threadsInv_def)
    then have "workersUp z \<noteq> workersMade z" using that by auto
    then have "qsize (ingest (sw z)) = 0" using q by (simp add: queuesInv_def)
    moreover have "queueInv (ingest (sw z))" using sys by (simp add: sysInv_def)
    ultimately show ?thesis using length_qcontents by fastforce
  qed
  then show ?thesis using w' fin(1) th assms(2) by (simp add: threadsInv_def)
qed

text \<open>C14: Main's join of the workers returns: once the listeners are over nothing is added to the workers' queue by
  any thread, and every turn of a worker, whichever worker and whatever it meets, uses up one of
  the finitely many turns left (one per queued connection and one per worker), so that no schedule can keep
  the workers running for longer.\<close>

theorem workers_drain:
  assumes "sreach z" and "mainAt z = M_JoinWorkers" and "sstep True z z'" and "mainAt z' = M_JoinWorkers"
  shows "workLeft z' \<le> workLeft z \<and> (\<forall>i < length (workersUp z). workersUp z ! i \<longrightarrow> mallocs (sw z) = [] \<longrightarrow>
    (case workerStep (sconf z) (sw z) of (next, w') \<Rightarrow> next \<noteq> WkWait \<and>
       Suc (workLeft (z\<lparr>sw := w', workersUp := (workersUp z)[i := (next \<noteq> WkExit)]\<rparr>)) = workLeft z))"
proof -
  have inv: "serverInv z" using sreach_inv [OF assms(1)] .
  then have th: "threadsInv z" and sys: "sysInv (sconf z) (sw z)" and q: "queuesInv z" using assms(2) by (simp_all add: serverInv_def)
  have turn: "next \<noteq> WkWait \<and> Suc (workLeft (z\<lparr>sw := w', workersUp := (workersUp z)[i := (next \<noteq> WkExit)]\<rparr>)) = workLeft z"
    if "i < length (workersUp z)" "workersUp z ! i" "mallocs (sw z) = []" "workerStep (sconf z) (sw z) = (next, w')" for i "next" w'
  proof -
    have "qshutdown (ingest (sw z))" using q assms(2) by (simp add: queuesInv_def)
    then have "next \<noteq> WkWait" using workerStep_inv [OF sys that(3,4)] by (cases "next") auto
    with worker_progress [OF inv assms(2) that] show ?thesis by blast
  qed
  have nolis: "lisAt z ! i = LisDone" if "i < length (lisAt z)" for i
    using th assms(2) that by (auto simp: threadsInv_def list_ex_length)
  have "workLeft z' \<le> workLeft z" using assms(3)
  proof (cases rule: sstep_cases)
    case (worker i "next" w')
    from turn [OF worker(2-5)] show ?thesis unfolding worker(1) by linarith
  next
    case (agg_start e started w')
    then show ?thesis using aggStart_inv [OF sys agg_start(3)] by (simp add: workLeft_def queuesKept_def)
  next
    case (agg_round tm evs w')
    then show ?thesis using aggIterate_kept [OF agg_round(3)] by (simp add: workLeft_def queuesKept_def)
  next
    case (agg_stop tm evs w1 w')
    have "sysInv (sconf z) w1" using aggIterate_inv [OF sys, of evs] agg_stop(3) by auto
    from aggFinish_inv [OF this, of tm] have "queuesKept w1 w'" using agg_stop(4) by auto
    then show ?thesis using agg_stop(1) aggIterate_kept [OF agg_stop(3)] by (simp add: workLeft_def queuesKept_def)
  next
    case (agg_failure tm w1 w')
    have "sysInv (sconf z) w1" using aggRound_inv [OF sys] agg_failure(4) by auto
    from aggFinish_inv [OF this, of tm] have "queuesKept w1 w'" using agg_failure(5) by auto
    then show ?thesis using agg_failure(1) aggRound_kept [OF agg_failure(4)] by (simp add: workLeft_def queuesKept_def)
  next
    case (main written)
    then show ?thesis using assms(2,4) by (auto simp: mainStep_def split: if_splits)
  next
    case (env w')
    then show ?thesis using world_more(4) [OF env(2)] by (simp add: workLeft_def)
  qed (use nolis th assms(2) in \<open>auto simp: threadsInv_def\<close>)
  then show ?thesis using turn by (auto split: prod.split)
qed

text \<open>C4: Once the signal has come and the eventfd could be written, the server can come to its end exactly if no
  listener runs whose registration of the eventfd was refused. From every other state it can reach, whatever
  was queued, parked, half-sent or half-received at the signal, some continuation in which no call fails leads
  to \<open>main\<close>'s exit. With such a listener there is none: nothing tells it of the shutdown, so that \<open>main\<close>, which
  does not check that \<open>epoll_ctl\<close>, waits in the join of the listeners until some other call fails.\<close>

theorem shutdown_completes:
  assumes "sreach z" and "eventReady z"
  shows "(\<exists>z'. (sstep False)\<^sup>*\<^sup>* z z' \<and> mainAt z' = M_Exit) \<longleftrightarrow> (\<forall>fd. LisLoop fd False \<notin> set (lisAt z))"
proof -
  have inv: "serverInv z" using sreach_inv [OF assms(1)] .
  have "\<exists>z'. calm z z' \<and> mainAt z' = M_Exit" if "\<not> deaf z"
    using shutdown_ends [OF inv assms(2) that] unfolding arrives_def by blast
  moreover have False if "deaf z" "calm z z'" "mainAt z' = M_Exit" for z'
    using deaf_stage [OF calm_inv [OF that(2) inv] deaf_calm [OF that(2,1)]] that(3) by blast
  ultimately show ?thesis unfolding deaf_def calm_def by blast
qed

subsection \<open>Witnesses\<close>

text \<open>A start with the default configuration in which every call succeeds, and one whose listeners cannot be created.\<close>

definition sample_env :: "bool \<Rightarrow> start_env" where
  "sample_env lis = \<lparr>seLogger = True, seSigmask = True, seEventfd = 5, seWorkers = (\<lambda>_. True), seListeners = (\<lambda>_. lis), seAgg = True,
     seReactorFd = 4, seReactor = True\<rparr>"

definition sample_world :: server_world where
  "sample_world = world.extend (conn_world.extend (os.extend os_idle (conn_world.fields (\<lambda>_. None) None 1))
     (world.fields createQueue createQueue createQueue (aggInit 256 128))) (server_world.fields 0)"

definition sample_server :: "bool \<Rightarrow> Server" where
  "sample_server lis = \<lparr>sconf = server_defaults, sw = sample_world, largs = [-1, -1],
     lisAt = (if lis then [LisStart, LisStart] else [LisDone, LisDone]), workersMade = replicate 8 True, workersUp = replicate 8 True,
     aggAt = AggStart, upReactor = None, reactorUp = False, shutdownFlag = False, shutdownfd = 5, eventReady = False, mainAt = M_Wait\<rparr>"

lemma sample_start: "serverMain [] (sample_env lis) os_idle = Inr (sample_server lis)"
proof -
  have p: "parseArgs [] os_idle = (Inr server_defaults, os_idle)" by (simp add: parseArgs_def)
  have a: "os_alloc os_idle = (True, os_idle)" by (simp add: os_alloc_def os_idle_def)
  have q: "newQueue os_idle = (Some createQueue, os_idle)" by (simp add: newQueue_def a)
  have d: "workers server_defaults = 8" "listeners server_defaults = 2" "upstreams server_defaults = []"
    by (simp_all add: server_defaults_def)
  have e: "seLogger (sample_env lis)" "seSigmask (sample_env lis)" "seEventfd (sample_env lis) = 5" "seWorkers (sample_env lis) = (\<lambda>_. True)"
    "seListeners (sample_env lis) = (\<lambda>_. lis)" "seAgg (sample_env lis)" by (simp_all add: sample_env_def)
  have "serverInit server_defaults (sample_env lis) os_idle = Inr sample_world"
    by (simp add: serverInit_def q a e sample_world_def)
  moreover have "initWorkerPool server_defaults (sample_env lis) = replicate 8 True"
    by (simp add: initWorkerPool_def d e map_replicate_const)
  moreover have "initListenerPool server_defaults (sample_env lis) = ([-1, -1], if lis then [LisStart, LisStart] else [LisDone, LisDone])"
    by (simp add: initListenerPool_def d e numeral_2_eq_2)
  ultimately show ?thesis by (simp add: serverMain_def p startReactor_def d e sample_server_def Let_def)
qed

definition signalled :: "Server \<Rightarrow> Server" where
  "signalled z = z\<lparr>shutdownFlag := True, eventReady := True, mainAt := M_JoinReactor\<rparr>"

lemma sample_signal: "sreach (signalled (sample_server lis))" "eventReady (signalled (sample_server lis))"
proof -
  have "mainStep True (sample_server lis) = MainGo (signalled (sample_server lis))"
    by (simp add: mainStep_def sample_server_def signalled_def)
  from sreach.step [OF sreach.start [OF sample_start] sstep.main [OF this disjI1 [OF TrueI]]]
  show "sreach (signalled (sample_server lis))" .
  show "eventReady (signalled (sample_server lis))" by (simp add: signalled_def)
qed

lemma calm_sreach: "calm z z' \<Longrightarrow> sreach z \<Longrightarrow> sreach z'"
proof -
  have more: "sstep False a b \<Longrightarrow> sstep True a b" for a b
    by (induction rule: sstep.induct) (rule sstep.intros; (assumption | simp))+
  show "calm z z' \<Longrightarrow> sreach z \<Longrightarrow> sreach z'"
    unfolding calm_def by (induction rule: rtranclp_induct) (auto intro: sreach.step more)
qed

theorem server_invariant_witness:
  "sysInv server_defaults sample_world \<and> \<not> qshutdown (dataQueue sample_world) \<and> \<not> qshutdown (ctrlQueue sample_world) \<and>
   mainStep True (sample_server True) \<noteq> MainFault"
  using server_invariant [OF sreach.start [OF sample_start [of True]], of True] by (simp add: sample_server_def)

theorem server_exit_clean_witness:
  "\<exists>z z'. calm (signalled (sample_server True)) z \<and> mainAt z = M_JoinAgg \<and> mainStep True z = MainGo z' \<and> mainAt z' = M_Exit \<and>
     aggAt z' = AggDone \<and> allFreed (sw z') \<and> shutdownfd z' \<in> set (closed (sw z'))"
proof -
  let ?s = "signalled (sample_server True)"
  have inv: "serverInv ?s" using sreach_inv [OF sample_signal(1)] .
  have "mainAt ?s = M_JoinReactor" by (simp add: signalled_def)
  moreover have "\<not> deaf ?s" by (simp add: deaf_def signalled_def sample_server_def)
  ultimately have "arrives ?s M_JoinAgg"
    using arrives_next [OF inv arrives_next [OF inv reactor_joined [OF inv _ sample_signal(2)] listeners_joined] workers_joined] by blast
  then obtain y where y: "calm ?s y" "mainAt y = M_JoinAgg" "eventReady y" unfolding arrives_def by blast
  obtain z where z: "calm y z" "aggAt z = AggDone" "mainAt z = M_JoinAgg" using agg_over [OF calm_inv [OF y(1) inv] y(2,3)] by blast
  have c: "calm ?s z" using calm_trans y(1) z(1) .
  obtain z' where z': "mainStep True z = MainGo z'" using last_step [OF calm_inv [OF c inv] z(3,2)] by blast
  from server_exit_clean [OF calm_sreach [OF c sample_signal(1)] z(3) z'] c z(3) z' show ?thesis by blast
qed

text \<open>Two listeners that have not started yet; and the same server after the first has started while the
  kernel refused to register the eventfd.\<close>

definition deaf_listener :: Server where
  "deaf_listener = (signalled (sample_server True))\<lparr>
     sw := sample_world\<lparr>ep_log := [(EPOLL_CTL_ADD, 7, 6, [EPOLLIN, EPOLLET]), (EPOLL_CTL_ADD, 7, 5, [EPOLLIN])]\<rparr>,
     largs := [7, -1], lisAt := [LisLoop 6 False, LisStart]\<rparr>"

lemma deaf_listener_reached: "sreach deaf_listener" "eventReady deaf_listener"
proof -
  let ?s = "signalled (sample_server True)"
  let ?e = "\<lparr>leSocket = 6, leReuse = True, leBind = True, leListen = True, leNonblock = True, leEpoll = 7\<rparr>"
  let ?z1 = "?s\<lparr>sw := (sw ?s)\<lparr>ep_rets := [True, False]\<rparr>\<rparr>"
  have s: "sw ?s = sample_world" "lisAt ?s = [LisStart, LisStart]" "largs ?s = [-1, -1]" "shutdownfd ?s = 5"
    by (simp_all add: signalled_def sample_server_def)
  have w: "ep_log sample_world = []" "ep_rets sample_world = []"
    by (simp_all add: sample_world_def os_idle_def os.defs conn_world.defs world.defs server_world.defs)
  have 1: "sreach ?z1" by (rule sreach.step [OF sample_signal(1)], rule sstep.env) simp_all
  have "sample_world\<lparr>ep_rets := [], ep_log := l\<rparr> = sample_world\<lparr>ep_log := l\<rparr>" for l using w(2) by (cases sample_world) simp
  then have set: "listenerSetup ?e (shutdownfd ?z1) (sw ?z1) = (7, Some (6, -1),
      sample_world\<lparr>ep_log := [(EPOLL_CTL_ADD, 7, 6, [EPOLLIN, EPOLLET]), (EPOLL_CTL_ADD, 7, 5, [EPOLLIN])]\<rparr>)"
    using s w by (simp add: listenerSetup_def os_epoll_ctl_def Let_def)
  have "sstep True ?z1 (?z1\<lparr>sw := sample_world\<lparr>ep_log := [(EPOLL_CTL_ADD, 7, 6, [EPOLLIN, EPOLLET]), (EPOLL_CTL_ADD, 7, 5, [EPOLLIN])]\<rparr>,
      largs := (largs ?z1)[0 := 7], lisAt := (lisAt ?z1)[0 := (case Some (6, -1) of None \<Rightarrow> LisDone
        | Some (fd, rc) \<Rightarrow> LisLoop fd (wakeable 7 (shutdownfd ?z1) rc (sw ?z1)
            (sample_world\<lparr>ep_log := [(EPOLL_CTL_ADD, 7, 6, [EPOLLIN, EPOLLET]), (EPOLL_CTL_ADD, 7, 5, [EPOLLIN])]\<rparr>)))]\<rparr>)"
    by (rule sstep.listener_start [OF _ _ set]) (simp_all add: s)
  from sreach.step [OF 1 this] show "sreach deaf_listener"
    by (simp add: s wakeable_def deaf_listener_def)
  show "eventReady deaf_listener" by (simp add: deaf_listener_def signalled_def)
qed

theorem shutdown_completes_witness:
  "(\<exists>z'. (sstep False)\<^sup>*\<^sup>* (signalled (sample_server True)) z' \<and> mainAt z' = M_Exit) \<and>
   \<not> (\<exists>z'. (sstep False)\<^sup>*\<^sup>* deaf_listener z' \<and> mainAt z' = M_Exit)"
proof
  show "\<exists>z'. (sstep False)\<^sup>*\<^sup>* (signalled (sample_server True)) z' \<and> mainAt z' = M_Exit"
    unfolding shutdown_completes [OF sample_signal] by (simp add: signalled_def sample_server_def)
  show "\<not> (\<exists>z'. (sstep False)\<^sup>*\<^sup>* deaf_listener z' \<and> mainAt z' = M_Exit)"
    unfolding shutdown_completes [OF deaf_listener_reached] by (auto simp: deaf_listener_def)
qed

text \<open>Without listeners \<open>main\<close> comes at once to the join of the eight workers, which have nothing to do.\<close>

definition workers_waiting :: Server where
  "workers_waiting = (signalled (sample_server False))\<lparr>sw := sample_world\<lparr>ingest := shutdownQueue createQueue\<rparr>,
     mainAt := M_JoinWorkers\<rparr>"

lemma workers_waiting_reached: "sreach workers_waiting"
proof -
  let ?s = "signalled (sample_server False)"
  have "mainStep True ?s = MainGo (?s\<lparr>mainAt := M_JoinListeners\<rparr>)"
    by (simp add: mainStep_def sample_server_def signalled_def)
  note 1 = sreach.step [OF sample_signal(1) sstep.main [OF this disjI1 [OF TrueI]]]
  have "ingest sample_world = createQueue" by (simp add: sample_world_def os.defs conn_world.defs world.defs server_world.defs)
  then have "mainStep True (?s\<lparr>mainAt := M_JoinListeners\<rparr>) = MainGo workers_waiting"
    by (simp add: mainStep_def sample_server_def signalled_def workers_waiting_def)
  from sreach.step [OF 1 sstep.main [OF this disjI1 [OF TrueI]]] show ?thesis .
qed

theorem workers_drain_witness:
  "workLeft (workers_waiting\<lparr>workersUp := (replicate 8 True)[0 := False]\<rparr>) \<le> workLeft workers_waiting \<and>
   workerStep server_defaults (sw workers_waiting) = (WkExit, sw workers_waiting)"
proof -
  have w: "ingest (sw workers_waiting) = shutdownQueue createQueue" "mallocs (sw workers_waiting) = []"
    "sconf workers_waiting = server_defaults" "workersUp workers_waiting = replicate 8 True" "mainAt workers_waiting = M_JoinWorkers"
    by (simp_all add: workers_waiting_def signalled_def sample_server_def sample_world_def os_idle_def os.defs conn_world.defs
        world.defs server_world.defs)
  have step: "workerStep server_defaults (sw workers_waiting) = (WkExit, sw workers_waiting)"
  proof -
    have "(sw workers_waiting)\<lparr>ingest := shutdownQueue createQueue\<rparr> = sw workers_waiting" by (simp flip: w(1))
    then show ?thesis by (simp add: workerStep_def w(1) pop_def qsize_create)
  qed
  let ?z = "workers_waiting\<lparr>sw := sw workers_waiting, workersUp := (workersUp workers_waiting)[0 := (WkExit \<noteq> WkExit)]\<rparr>"
  have "sstep True workers_waiting ?z" by (rule sstep.worker) (simp_all add: w step)
  moreover have "mainAt ?z = M_JoinWorkers" using w(5) by simp
  ultimately show ?thesis using workers_drain [OF workers_waiting_reached w(5)] step w(4) by fastforce
qed

end
