(* ===== verification/ClientThread.thy ===== *)
theory ClientThread
  imports Upstream
begin

section \<open>The blocking client thread (src/src/ws_client.c, wsClientThread)\<close>

text \<open>
  The older client of one upstream server, which has a thread of its own and a blocking socket; the program
  declares it in ws_client.h and keeps it beside the reactor. What \<open>poll\<close> answers, what the shutdown flag
  reads and what the other threads do to the data queue during a wait are scripts; a result \<open>None\<close> says that the
  script ended before the function returned. A \<open>send\<close> always answers (see \<open>sendAll\<close>).
\<close>

datatype poll_flag = POLLIN | POLLOUT | POLLERR | POLLHUP | POLLNVAL

datatype poll_res = PollErr | PollIntr | PollTimeout | PollReady "poll_flag list"

record WsClientArgs_t =
  waHost :: "byte list"
  waPort :: int
  waPath :: "byte list option"

record WsClientRx_t =
  crx :: Buf_t
  cmsg :: Buf_t
  cmsgOpcode :: byte
  cfrag :: bool
  cutf8 :: Utf8St_t

definition rx_zero :: WsClientRx_t where
  "rx_zero = \<lparr>crx = buf_empty, cmsg = buf_empty, cmsgOpcode = 0, cfrag = False, cutf8 = wsUtf8Reset\<rparr>"

subsection \<open>Connecting\<close>

text \<open>
  One entry of the script for each turn: the flag, the answer of \<open>poll\<close>, and the socket's error as
  \<open>getsockopt\<close> reports it (\<open>None\<close> when it fails). The second argument is \<open>elapsed\<close>.
\<close>

fun waitConnect :: "(bool \<times> poll_res \<times> int option) list \<Rightarrow> nat \<Rightarrow> int option" where
  "waitConnect [] elapsed = (if elapsed < 5000 then None else Some (-1))"
| "waitConnect ((stop, p, err) # rs) elapsed =
     (if elapsed < 5000 then
        (if stop then Some (-1)
         else case p of
             PollErr \<Rightarrow> Some (-1)
           | PollIntr \<Rightarrow> waitConnect rs elapsed
           | PollTimeout \<Rightarrow> waitConnect rs (elapsed + 250)
           | PollReady _ \<Rightarrow> (case err of None \<Rightarrow> Some (-1) | Some e \<Rightarrow> Some (if e \<noteq> 0 then -1 else 0)))
      else Some (-1))"

text \<open>For each address: how \<open>socket\<close>, the two \<open>fcntl\<close> calls and \<open>connect\<close> went, and whether the flags can be restored.\<close>

datatype tcp_connect = TcpDone | TcpInProgress "(bool \<times> poll_res \<times> int option) list" | TcpRefused

datatype tcp_addr = TcpNoSocket | TcpNoFlags int | TcpNoNonblock int | TcpTry int tcp_connect bool

fun tcpLoop :: "tcp_addr list \<Rightarrow> 'a os_scheme \<Rightarrow> int option \<times> 'a os_scheme" where
  "tcpLoop [] s = (Some (-1), s)"
| "tcpLoop (TcpNoSocket # rs) s = tcpLoop rs s"
| "tcpLoop (TcpNoFlags fd # rs) s = tcpLoop rs (os_close fd s)"
| "tcpLoop (TcpNoNonblock fd # rs) s = tcpLoop rs (os_close fd s)"
| "tcpLoop (TcpTry fd con restored # rs) s =
     (case (case con of TcpDone \<Rightarrow> Some 0 | TcpRefused \<Rightarrow> Some (-1) | TcpInProgress rounds \<Rightarrow> waitConnect rounds 0) of
        None \<Rightarrow> (None, s)
      | Some rc \<Rightarrow>
          if rc \<noteq> 0 then tcpLoop rs (os_close fd s)
          else if \<not> restored then tcpLoop rs (os_close fd s)
          else (Some fd, s))"

text \<open>\<open>None\<close> in place of the addresses is a failure of \<open>getaddrinfo\<close>.\<close>

definition tcpConnect :: "tcp_addr list option \<Rightarrow> 'a os_scheme \<Rightarrow> int option \<times> 'a os_scheme" where
  "tcpConnect addrs s = (case addrs of None \<Rightarrow> (Some (-1), s) | Some rs \<Rightarrow> tcpLoop rs s)"

subsection \<open>Sending\<close>

text \<open>
  The socket is blocking again at this point, so \<open>send\<close> waits for room. The script holds what it answers; a call
  that never answers, because the peer neither reads nor closes, is not represented.
\<close>

function sendAll :: "int \<Rightarrow> byte list \<Rightarrow> 'a os_scheme \<Rightarrow> int \<times> 'a os_scheme" where
  "sendAll fd bs s =
     (if bs = [] then (0, s)
      else case os_send fd bs s of (r, s1) \<Rightarrow>
        (case r of
           IoN n \<Rightarrow> if 0 < n then sendAll fd (drop n bs) s1 else (-1, s1)
         | IoIntr \<Rightarrow> sendAll fd bs s1
         | _ \<Rightarrow> (-1, s1)))"
  by pat_completeness auto
termination
  by (relation "measures [\<lambda>(fd, bs, s). length bs, \<lambda>(fd, bs, s). length (txs s fd)]")
    (auto dest!: os_send_intr_shorter [OF sym])

declare sendAll.simps [simp del]

definition sendMaskedFrame :: "int \<Rightarrow> byte \<Rightarrow> byte list \<Rightarrow> 'a os_scheme \<Rightarrow> int \<times> 'a os_scheme" where
  "sendMaskedFrame fd opcode payload s = (case randomBytes 4 s of
       (None, s1) \<Rightarrow> (-1, s1)
     | (Some mk, s1) \<Rightarrow>
         let header = maskedHeader opcode (of_nat (length payload)) @ mk;
             (ok, s2) = (if 0 < length payload then os_alloc s1 else (True, s1))
         in if \<not> ok then (-1, s2)
         else
           let masked = map (\<lambda>i. payload ! i XOR mk ! (i AND 3)) [0..<length payload]
           in case sendAll fd header s2 of (rc, s3) \<Rightarrow>
             if rc \<noteq> 0 then (-1, s3)
             else if 0 < length payload then (case sendAll fd masked s3 of (rc, s4) \<Rightarrow> (if rc \<noteq> 0 then -1 else 0, s4))
             else (0, s3))"

definition sendCloseCode :: "int \<Rightarrow> u16 \<Rightarrow> 'a os_scheme \<Rightarrow> int \<times> 'a os_scheme" where
  "sendCloseCode fd code s = sendMaskedFrame fd WS_OP_CLOSE [ucast (drop_bit 8 code), ucast code] s"

subsection \<open>The handshake\<close>

text \<open>What the buffered part of the response says: refused, accepted with so many bytes of header, or not yet known.\<close>

datatype upgrade_res = UpgradeRefused | UpgradeOk nat | UpgradeMore

definition checkUpgrade :: "ServerConfig_t \<Rightarrow> byte list \<Rightarrow> byte list \<Rightarrow> upgrade_res" where
  "checkUpgrade conf expected data =
     (if data = [] then UpgradeMore
      else case httpFindHeaderEnd data of
          None \<Rightarrow> (if handshakeMax conf < length data then UpgradeRefused else UpgradeMore)
        | Some e \<Rightarrow>
            let headerLen = e + 4; hdr = take headerLen data;
                upgrade = httpFindHeader hdr (bytes ''Upgrade'');
                connection = httpFindHeader hdr (bytes ''Connection'');
                acc = httpFindHeader hdr (bytes ''Sec-WebSocket-Accept'')
            in if handshakeMax conf < headerLen then UpgradeRefused
               else if headerLen < 12 \<or> take 12 data \<noteq> bytes ''HTTP/1.1 101'' then UpgradeRefused
               else if upgrade = None \<or> \<not> httpHeaderHasToken (the upgrade) (bytes ''websocket'') then UpgradeRefused
               else if connection = None \<or> \<not> httpHeaderHasToken (the connection) (bytes ''Upgrade'') then UpgradeRefused
               else if acc = None \<or> length (the acc) \<noteq> 28 \<or> the acc \<noteq> take 28 expected then UpgradeRefused
               else UpgradeOk headerLen)"

text \<open>The loop, over the values of the flag and the answers of \<open>poll\<close>, with \<open>waited\<close>; \<open>recv\<close> blocks.\<close>

fun readUpgradeResponse :: "(bool \<times> poll_res) list \<Rightarrow> nat \<Rightarrow> int \<Rightarrow> ServerConfig_t \<Rightarrow> byte list \<Rightarrow> Buf_t \<Rightarrow> 'a os_scheme \<Rightarrow>
    int option \<times> Buf_t \<times> 'a os_scheme" where
  "readUpgradeResponse rounds waited fd conf expected b s = (case checkUpgrade conf expected (bufData b) of
       UpgradeRefused \<Rightarrow> (Some (-1), b, s)
     | UpgradeOk headerLen \<Rightarrow> (Some 0, bufConsume b headerLen, s)
     | UpgradeMore \<Rightarrow>
         (case rounds of
            [] \<Rightarrow> (None, b, s)
          | (stop, p) # rs \<Rightarrow>
              if stop then (Some (-1), b, s)
              else (case p of
                 PollErr \<Rightarrow> (Some (-1), b, s)
               | PollIntr \<Rightarrow> readUpgradeResponse rs waited fd conf expected b s
               | PollTimeout \<Rightarrow>
                   if 5000 \<le> waited + 500 then (Some (-1), b, s)
                   else readUpgradeResponse rs (waited + 500) fd conf expected b s
               | PollReady fl \<Rightarrow>
                   if POLLERR \<in> set fl \<or> POLLHUP \<in> set fl \<or> POLLNVAL \<in> set fl then (Some (-1), b, s)
                   else (case os_recv fd 4096 s of (r, s1) \<Rightarrow>
                     (case r of
                        RxData bs \<Rightarrow>
                          if bs \<noteq> [] then (case bufAppend b bs s1 of (b1, s2) \<Rightarrow> readUpgradeResponse rs waited fd conf expected b1 s2)
                          else (Some (-1), b, s1)
                      | RxIntr \<Rightarrow> readUpgradeResponse rs waited fd conf expected b s1
                      | _ \<Rightarrow> (Some (-1), b, s1))))))"

declare readUpgradeResponse.simps [simp del]

definition performHandshake :: "(bool \<times> poll_res) list \<Rightarrow> int \<Rightarrow> ServerConfig_t \<Rightarrow> WsClientArgs_t \<Rightarrow> Buf_t \<Rightarrow> 'a os_scheme \<Rightarrow>
    int option \<times> Buf_t \<times> 'a os_scheme" where
  "performHandshake rounds fd conf args b s =
     (if waPath args = None \<or> take 1 (the (waPath args)) \<noteq> bytes ''/'' then (Some (-1), b, s)
      else case randomBytes 16 s of
          (None, s1) \<Rightarrow> (Some (-1), b, s1)
        | (Some nonce, s1) \<Rightarrow>
            let key = base64Encode nonce
            in case wsComputeAccept key of None \<Rightarrow> (Some (-1), b, s1)
            | Some expected \<Rightarrow>
                let request = handshakeText (the (waPath args)) (waHost args) (waPort args) key
                in if 1024 \<le> length request then (Some (-1), b, s1)
                   else (case sendAll fd request s1 of (rc, s2) \<Rightarrow>
                     if rc \<noteq> 0 then (Some (-1), b, s2) else readUpgradeResponse rounds 0 fd conf expected b s2))"

subsection \<open>Receiving\<close>

text \<open>
  The wait at the high watermark: each entry is the value of the flag and the data queue as the other threads have
  left it after the sleep. The message is lost when there is no memory for its node.
\<close>

fun publishWait :: "(bool \<times> Msg_t Queue_t) list \<Rightarrow> ServerConfig_t \<Rightarrow> Msg_t \<Rightarrow> 'a world_scheme \<Rightarrow>
    int option \<times> (bool \<times> Msg_t Queue_t) list \<times> 'a world_scheme" where
  "publishWait waits conf m w =
     (if confHigh conf \<le> queueSize (dataQueue w) then
        (case waits of
           [] \<Rightarrow> (None, [], w)
         | (stop, q) # rs \<Rightarrow> if stop then (Some (-1), rs, w) else publishWait rs conf m (w\<lparr>dataQueue := q\<rparr>))
      else (Some 0, waits, snd (push_data m w)))"

declare publishWait.simps [simp del]

definition publishUpstreamMessage :: "(bool \<times> Msg_t Queue_t) list \<Rightarrow> ServerConfig_t \<Rightarrow> WsClientRx_t \<Rightarrow> 'a world_scheme \<Rightarrow>
    int option \<times> (bool \<times> Msg_t Queue_t) list \<times> 'a world_scheme" where
  "publishUpstreamMessage waits conf st w = (case msgNewData 0 (cmsgOpcode st) (bufData (cmsg st)) w of
       (None, w1) \<Rightarrow> (Some 0, waits, w1)
     | (Some m, w1) \<Rightarrow> publishWait waits conf m w1)"

text \<open>A round of the loop over the frames: return a value, continue, or a message is complete.\<close>

datatype bc_out = BcReturn int | BcContinue | BcComplete

definition protocolError :: "int \<Rightarrow> u16 \<Rightarrow> WsClientRx_t \<Rightarrow> 'a os_scheme \<Rightarrow> bc_out \<times> WsClientRx_t \<times> 'a os_scheme" where
  "protocolError fd code st s = (BcReturn (-1), st, snd (sendCloseCode fd code s))"

definition bcControl :: "int \<Rightarrow> WsFrameHdr_t \<Rightarrow> byte list \<Rightarrow> nat \<Rightarrow> WsClientRx_t \<Rightarrow> 'a os_scheme \<Rightarrow>
    bc_out \<times> WsClientRx_t \<times> 'a os_scheme" where
  "bcControl fd h payload frameLen st s =
     (if hOpcode h = WS_OP_PING then
        (case sendMaskedFrame fd WS_OP_PONG payload s of (rc, s1) \<Rightarrow>
           if rc \<noteq> 0 then (BcReturn (-1), st, s1)
           else (BcContinue, st\<lparr>crx := bufConsume (crx st) frameLen\<rparr>, s1))
      else if hOpcode h = WS_OP_CLOSE then
        (if length payload = 1 then protocolError fd 1002 st s
         else (BcReturn 1, st\<lparr>crx := bufConsume (crx st) frameLen\<rparr>, snd (sendMaskedFrame fd WS_OP_CLOSE payload s)))
      else (BcContinue, st\<lparr>crx := bufConsume (crx st) frameLen\<rparr>, s))"

definition bcDataOpen :: "int \<Rightarrow> ServerConfig_t \<Rightarrow> bool \<Rightarrow> byte list \<Rightarrow> nat \<Rightarrow> WsClientRx_t \<Rightarrow> 'a os_scheme \<Rightarrow>
    bc_out \<times> WsClientRx_t \<times> 'a os_scheme" where
  "bcDataOpen fd conf fin payload frameLen st s =
     (let current = bufLen (cmsg st)
      in if maxMessage conf < current \<or> maxMessage conf - current < length payload then protocolError fd 1009 st s
      else
        let (rc, u) = (if cmsgOpcode st = WS_OP_TEXT \<and> 0 < length payload then wsUtf8Feed (cutf8 st) payload
                       else (0, cutf8 st));
            st1 = st\<lparr>cutf8 := u\<rparr>
        in if rc \<noteq> 0 then protocolError fd 1007 st1 s
        else
          let (b, s1) = bufAppend (cmsg st1) payload s;
              st2 = st1\<lparr>cmsg := b, crx := bufConsume (crx st1) frameLen\<rparr>
          in if \<not> fin then (BcContinue, st2, s1)
          else
            let st3 = st2\<lparr>cfrag := False\<rparr>
            in if cmsgOpcode st3 = WS_OP_TEXT \<and> \<not> wsUtf8Done (cutf8 st3) then protocolError fd 1007 st3 s1
               else (BcComplete, st3, s1))"

definition bcData :: "int \<Rightarrow> ServerConfig_t \<Rightarrow> WsFrameHdr_t \<Rightarrow> byte list \<Rightarrow> nat \<Rightarrow> WsClientRx_t \<Rightarrow> 'a os_scheme \<Rightarrow>
    bc_out \<times> WsClientRx_t \<times> 'a os_scheme" where
  "bcData fd conf h payload frameLen st s =
     (if hOpcode h = WS_OP_CONT then
        (if \<not> cfrag st then protocolError fd 1002 st s
         else bcDataOpen fd conf (hFin h) payload frameLen st s)
      else if cfrag st then protocolError fd 1002 st s
      else bcDataOpen fd conf (hFin h) payload frameLen
        (st\<lparr>cmsgOpcode := hOpcode h, cfrag := True, cmsg := bufReset (cmsg st), cutf8 := wsUtf8Reset\<rparr>) s)"

definition bcFrameStep :: "int \<Rightarrow> ServerConfig_t \<Rightarrow> WsClientRx_t \<Rightarrow> 'a os_scheme \<Rightarrow>
    bc_out \<times> WsClientRx_t \<times> 'a os_scheme" where
  "bcFrameStep fd conf st s = (case wsParseHeader (bufData (crx st)) of
       WS_NEED_MORE \<Rightarrow> (BcReturn 0, st, s)
     | WS_ERR_PROTO \<Rightarrow> protocolError fd 1002 st s
     | WS_OK h \<Rightarrow>
         if hMasked h then protocolError fd 1002 st s
         else
           let n = unat (hPayloadLen h); frameLen = hHeaderLen h + n
           in if maxFrame conf < n then protocolError fd 1009 st s
              else if 2 ^ 64 - 1 - hHeaderLen h < n then protocolError fd 1009 st s
              else if bufLen (crx st) < frameLen then (BcReturn 0, st, s)
              else
                let payload = take n (drop (hHeaderLen h) (bufData (crx st)))
                in if hOpcode h AND 0x8 \<noteq> 0 then bcControl fd h payload frameLen st s
                   else bcData fd conf h payload frameLen st s)"

text \<open>Every round that goes on consumes a frame.\<close>

lemma bcDataOpen_consumes:
  "bcDataOpen fd conf fin p tot st s = (out, st', s') \<Longrightarrow> \<forall>n. out \<noteq> BcReturn n \<Longrightarrow> crx st' = bufConsume (crx st) tot"
  by (auto simp: bcDataOpen_def protocolError_def Let_def split: if_splits prod.splits)

lemma bcFrameStep_consumes:
  assumes "bcFrameStep fd conf st s = (out, st', s')" and "\<forall>n. out \<noteq> BcReturn n" and "bufLen (crx st) \<noteq> 0"
  shows "bufLen (crx st') < bufLen (crx st)"
proof -
  obtain h where h: "wsParseHeader (bufData (crx st)) = WS_OK h"
    using assms(1,2) by (cases "wsParseHeader (bufData (crx st))") (auto simp: bcFrameStep_def protocolError_def)
  let ?n = "unat (hPayloadLen h)" and ?tot = "hHeaderLen h + unat (hPayloadLen h)"
  have "\<not> hMasked h" "\<not> maxFrame conf < ?n" "\<not> 2 ^ 64 - 1 - hHeaderLen h < ?n" "\<not> bufLen (crx st) < ?tot"
    using assms(1,2) h by (auto simp: bcFrameStep_def protocolError_def Let_def split: if_splits)
  then have "bcControl fd h (take ?n (drop (hHeaderLen h) (bufData (crx st)))) ?tot st s = (out, st', s') \<or>
      bcData fd conf h (take ?n (drop (hHeaderLen h) (bufData (crx st)))) ?tot st s = (out, st', s')"
    using assms(1) h by (auto simp: bcFrameStep_def Let_def split: if_splits)
  then have "crx st' = bufConsume (crx st) ?tot"
    using assms(2) by (auto simp: bcControl_def bcData_def protocolError_def split: if_splits prod.splits dest: bcDataOpen_consumes)
  moreover have "0 < hHeaderLen h" using wsParseHeader_sound(1) [OF h] hdr_encode_length [of h] by (auto simp: hdr_encode_def)
  ultimately show ?thesis using assms(3) by (simp add: bufLen_bufConsume)
qed

text \<open>A complete message is published before and after the log line that shows it.\<close>

function processFrames :: "(bool \<times> Msg_t Queue_t) list \<Rightarrow> int \<Rightarrow> ServerConfig_t \<Rightarrow> WsClientRx_t \<Rightarrow> 'a world_scheme \<Rightarrow>
    int option \<times> (bool \<times> Msg_t Queue_t) list \<times> WsClientRx_t \<times> 'a world_scheme" where
  "processFrames waits fd conf st w =
     (if bufLen (crx st) = 0 then (Some 0, waits, st, w)
      else (case bcFrameStep fd conf st w of (out, st1, w1) \<Rightarrow>
        (case out of
           BcReturn n \<Rightarrow> (Some n, waits, st1, w1)
         | BcContinue \<Rightarrow> processFrames waits fd conf st1 w1
         | BcComplete \<Rightarrow>
             (case publishUpstreamMessage waits conf st1 w1 of (r1, waits1, w2) \<Rightarrow>
                if r1 \<noteq> Some 0 then (map_option (\<lambda>_. -1) r1, waits1, st1, w2)
                else (case publishUpstreamMessage waits1 conf st1 w2 of (r2, waits2, w3) \<Rightarrow>
                  if r2 \<noteq> Some 0 then (map_option (\<lambda>_. -1) r2, waits2, st1, w3)
                  else processFrames waits2 fd conf (st1\<lparr>cmsg := bufReset (cmsg st1)\<rparr>) w3)))))"
  by pat_completeness auto
termination processFrames
  by (relation "measure (\<lambda>(waits, fd, conf, st, w). bufLen (crx st))") (auto dest!: bcFrameStep_consumes [OF sym])

declare processFrames.simps [simp del]

text \<open>
  The loop: each entry is the value of the flag and the answer of \<open>poll\<close>. What \<open>recv\<close> delivers is the script of the
  descriptor.
\<close>

datatype read_out = RdPending | RdReturn int | RdOn

definition receiveReady :: "(bool \<times> Msg_t Queue_t) list \<Rightarrow> int \<Rightarrow> ServerConfig_t \<Rightarrow> WsClientRx_t \<Rightarrow> 'a world_scheme \<Rightarrow>
    read_out \<times> (bool \<times> Msg_t Queue_t) list \<times> WsClientRx_t \<times> 'a world_scheme" where
  "receiveReady waits fd conf st w = (case bufRecv fd (crx st) 4096 (maxMessage conf + maxFrame conf) w of (rr, b, w1) \<Rightarrow>
     let st1 = st\<lparr>crx := b\<rparr>
     in if rr = -2 then (RdReturn (-1), waits, st1, snd (sendCloseCode fd 1009 w1))
        else if rr = -1 then (RdReturn 0, waits, st1, w1)
        else (case processFrames waits fd conf st1 w1 of (r, waits1, st2, w2) \<Rightarrow>
          (case r of
             None \<Rightarrow> (RdPending, waits1, st2, w2)
           | Some rc \<Rightarrow> (if rc \<noteq> 0 then RdReturn rc else if rr = 2 then RdReturn 0 else RdOn, waits1, st2, w2))))"

fun receiveLoop :: "(bool \<times> poll_res) list \<Rightarrow> (bool \<times> Msg_t Queue_t) list \<Rightarrow> int \<Rightarrow> ServerConfig_t \<Rightarrow> WsClientRx_t \<Rightarrow>
    'a world_scheme \<Rightarrow> int option \<times> WsClientRx_t \<times> 'a world_scheme" where
  "receiveLoop rounds waits fd conf st w = (case processFrames waits fd conf st w of (r, waits1, st1, w1) \<Rightarrow>
     (case r of
        None \<Rightarrow> (None, st1, w1)
      | Some rc \<Rightarrow>
          if rc \<noteq> 0 then (Some rc, st1, w1)
          else (case rounds of
              [] \<Rightarrow> (None, st1, w1)
            | (stop, p) # rs \<Rightarrow>
                if stop then (Some 0, st1, snd (sendCloseCode fd 1000 w1))
                else (case p of
                   PollErr \<Rightarrow> (Some (-1), st1, w1)
                 | PollIntr \<Rightarrow> receiveLoop rs waits1 fd conf st1 w1
                 | PollTimeout \<Rightarrow> receiveLoop rs waits1 fd conf st1 w1
                 | PollReady fl \<Rightarrow>
                     (case (if POLLIN \<in> set fl then receiveReady waits1 fd conf st1 w1 else (RdOn, waits1, st1, w1)) of
                        (out, waits2, st2, w2) \<Rightarrow>
                          (case out of
                             RdPending \<Rightarrow> (None, st2, w2)
                           | RdReturn n \<Rightarrow> (Some n, st2, w2)
                           | RdOn \<Rightarrow>
                               if POLLERR \<in> set fl \<or> POLLHUP \<in> set fl \<or> POLLNVAL \<in> set fl then (Some 0, st2, w2)
                               else receiveLoop rs waits2 fd conf st2 w2))))))"

declare receiveLoop.simps [simp del]

text \<open>The thread; the result says whether it returned.\<close>

definition wsClientThread :: "tcp_addr list option \<Rightarrow> (bool \<times> poll_res) list \<Rightarrow> (bool \<times> poll_res) list \<Rightarrow>
    (bool \<times> Msg_t Queue_t) list \<Rightarrow> ServerConfig_t \<Rightarrow> WsClientArgs_t \<Rightarrow> 'a world_scheme \<Rightarrow> bool \<times> 'a world_scheme" where
  "wsClientThread addrs answersHs rounds waits conf args w = (case tcpConnect addrs w of (r, w1) \<Rightarrow>
     (case r of
        None \<Rightarrow> (False, w1)
      | Some fd \<Rightarrow>
          if fd < 0 then (True, w1)
          else (case performHandshake answersHs fd conf args (crx rx_zero) w1 of (hs, b, w2) \<Rightarrow>
            (case hs of
               None \<Rightarrow> (False, w2)
             | Some rc \<Rightarrow>
                 if rc \<noteq> 0 then (True, os_close fd w2)
                 else (case receiveLoop rounds waits fd conf (rx_zero\<lparr>crx := b\<rparr>) w2 of (rl, st, w3) \<Rightarrow>
                   (case rl of None \<Rightarrow> (False, w3) | Some _ \<Rightarrow> (True, os_close fd w3)))))))"

end
