(* ===== verification/ClientThreadProofs.thy ===== *)
theory ClientThreadProofs
  imports ClientThread UpstreamProofs UpstreamHandshake
begin

section \<open>The blocking client thread: correctness\<close>

text \<open>
  The thread implements the abstract client of theory UpstreamProofs, as the clients of the reactor do, but
  publishes each message twice; it accepts the same responses to its handshake; it returns once the shutdown flag
  is raised and closes every socket it has opened.
\<close>

subsection \<open>Waiting for the connection\<close>

text \<open>Twenty unanswered waits of 250 ms are the limit.\<close>

lemma waitConnect_returns:
  assumes "5000 \<le> elapsed + 250 * length (filter (\<lambda>(stop, p, err). p \<noteq> PollIntr) rs)"
  shows "waitConnect rs elapsed \<noteq> None"
  using assms
proof (induction rs elapsed rule: waitConnect.induct)
  case (2 stop p err rs elapsed)
  then show ?case by (cases p) (auto split: option.split)
qed simp

subsection \<open>The response\<close>

text \<open>The thread and the reactor judge a response alike, but the thread also limits the length of its header.\<close>

lemma checkUpgrade_agrees:
  "case checkUpgrade conf (expectedAccept c) (bufData (urx c)) of
     UpgradeMore \<Rightarrow> processHandshakeResponse ep conf c s = (0, c, s)
   | UpgradeOk n \<Rightarrow> (\<exists>rc s'. processHandshakeResponse ep conf c s =
       (rc, c\<lparr>urx := bufConsume (urx c) n, ustate := UPSTREAM_OPEN, reconnectAttempt := 0\<rparr>, s')) \<and> n \<le> handshakeMax conf
   | UpgradeRefused \<Rightarrow> processHandshakeResponse ep conf c s = (-1, c, s) \<or>
       (\<exists>e. httpFindHeaderEnd (bufData (urx c)) = Some e \<and> handshakeMax conf < e + 4)"
proof -
  have "httpFindHeaderEnd [] = None" by code_simp
  then show ?thesis
    by (auto simp: checkUpgrade_def processHandshakeResponse_def Let_def split: option.splits prod.splits)
qed

subsection \<open>Sending goes through\<close>

definition accepts :: "int \<Rightarrow> 'a os_scheme \<Rightarrow> bool" where
  "accepts fd s \<longleftrightarrow> list_all (\<lambda>r. case r of IoN n \<Rightarrow> 0 < n | IoIntr \<Rightarrow> True | _ \<Rightarrow> False) (txs s fd)"

text \<open>What a frame sent to the server changes.\<close>

definition sentOn :: "int \<Rightarrow> byte list \<Rightarrow> 'a os_scheme \<Rightarrow> 'a os_scheme \<Rightarrow> bool" where
  "sentOn fd bs s s' \<longleftrightarrow> calm s' \<and> accepts fd s' \<and> wire s' = (wire s)(fd := wire s fd @ bs) \<and> rxs s' = rxs s \<and>
     closed s' = closed s \<and> os.more s' = os.more s"

lemma sentOn_refl: "calm s \<Longrightarrow> accepts fd s \<Longrightarrow> sentOn fd [] s s"
  by (simp add: sentOn_def)

lemma sentOn_trans: "sentOn fd xs s t \<Longrightarrow> sentOn fd ys t u \<Longrightarrow> sentOn fd (xs @ ys) s u"
  by (simp add: sentOn_def)

lemma os_send_accepts:
  assumes "os_send fd bs s = (r, s')" and "calm s" and "accepts fd s" and "bs \<noteq> []"
  shows "(r = IoIntr \<and> sentOn fd [] s s') \<or> (\<exists>n. r = IoN n \<and> 0 < n \<and> sentOn fd (take n bs) s s')"
  using assms by (auto simp: os_send_def sentOn_def accepts_def calm_def Let_def split: list.splits io_res.splits)

lemma sendAll_accepts:
  "calm s \<Longrightarrow> accepts fd s \<Longrightarrow> \<exists>s'. sendAll fd bs s = (0, s') \<and> sentOn fd bs s s'"
proof (induction fd bs s rule: sendAll.induct)
  case (1 fd bs s)
  show ?case
  proof (cases "bs = []")
    case True
    then show ?thesis using "1.prems" by (simp add: sendAll.simps sentOn_refl)
  next
    case False
    obtain r s1 where r: "os_send fd bs s = (r, s1)" by fastforce
    from os_send_accepts [OF r "1.prems" False] show ?thesis
    proof (elim disjE exE conjE)
      assume a: "r = IoIntr" "sentOn fd [] s s1"
      then obtain s' where "sendAll fd bs s1 = (0, s')" "sentOn fd bs s1 s'"
        using "1.IH"(2) [OF False r [symmetric]] by (auto simp: sentOn_def)
      then show ?thesis using a r False sentOn_trans [OF a(2)] by (simp add: sendAll.simps [of fd bs s])
    next
      fix n assume a: "r = IoN n" "0 < n" "sentOn fd (take n bs) s s1"
      then obtain s' where "sendAll fd (drop n bs) s1 = (0, s')" "sentOn fd (drop n bs) s1 s'"
        using "1.IH"(1) [OF False r [symmetric]] by (auto simp: sentOn_def)
      then show ?thesis using a r False sentOn_trans [OF a(3), of "drop n bs" s'] by (simp add: sendAll.simps [of fd bs s])
    qed
  qed
qed

lemma sendMaskedFrame_accepts:
  assumes "calm s" and "accepts fd s" and "op AND 0x0F = op"
  shows "\<exists>mk s'. sendMaskedFrame fd op p s = (0, s') \<and> length mk = 4 \<and> sentOn fd (clientFrame mk op p) s s'"
proof -
  obtain mk s1 where rnd: "randomBytes 4 s = (Some mk, s1)" and s1: "calm s1" using randomBytes_calm [OF assms(1)] by blast
  have os: "length mk = 4" "accepts fd s1" "mallocs s1 = []" "wire s1 = wire s" "rxs s1 = rxs s" "closed s1 = closed s"
    "os.more s1 = os.more s" using randomBytes_os [OF rnd] assms(1,2) by (simp_all add: accepts_def calm_def)
  let ?h = "maskedHeader op (of_nat (length p)) @ mk" and ?m = "wsUnmask p mk"
  obtain s2 where h: "sendAll fd ?h s1 = (0, s2)" "sentOn fd ?h s1 s2" using sendAll_accepts [OF s1 os(2)] by blast
  obtain s3 where m: "sendAll fd ?m s2 = (0, s3)" "sentOn fd ?m s2 s3"
    using sendAll_accepts [of s2 fd ?m] h(2) by (auto simp: sentOn_def)
  have frame: "clientFrame mk op p = ?h @ ?m"
    using maskedHeader_hdr [OF assms(3)] by (simp add: clientFrame_def frame_encode_def frame_clear_unmask client_hdr_def)
  define t where "t = (if p = [] then s2 else s3)"
  have "sendMaskedFrame fd op p s = (0, t)"
    using rnd h(1) m(1) os_alloc_no_failure [OF os(3)]
    by (cases "p = []") (simp_all add: sendMaskedFrame_def t_def wsUnmask_def Let_def)
  moreover have "sentOn fd (clientFrame mk op p) s1 t"
    using h(2) sentOn_trans [OF h(2) m(2)] frame by (auto simp: t_def wsUnmask_def)
  ultimately show ?thesis using os by (auto simp: sentOn_def)
qed

subsection \<open>A round is a step of the abstract client\<close>

definition threadRel :: "(byte \<times> byte list) option \<Rightarrow> WsClientRx_t \<Rightarrow> bool" where
  "threadRel st x \<longleftrightarrow> bufInv (crx x) \<and> bufInv (cmsg x) \<and> (case st of None \<Rightarrow> \<not> cfrag x
     | Some (op, acc) \<Rightarrow> cfrag x \<and> cmsgOpcode x = op \<and> bufData (cmsg x) = acc \<and>
         (op = WS_OP_TEXT \<longrightarrow> wsUtf8Feed wsUtf8Reset acc = (0, cutf8 x)))"

definition threadRefines :: "up_res \<Rightarrow> byte list \<Rightarrow> int \<Rightarrow> 'a os_scheme \<Rightarrow> bc_out \<times> WsClientRx_t \<times> 'a os_scheme \<Rightarrow> bool" where
  "threadRefines res r fd s q \<longleftrightarrow> (case q of (out, x', s') \<Rightarrow>
     (case res of
        UpClose p \<Rightarrow> out \<in> {BcReturn 1, BcReturn (-1)} \<and>
          (\<exists>mk. length mk = 4 \<and> sentOn fd (clientFrame mk WS_OP_CLOSE p) s s')
      | UpNext st' ev \<Rightarrow> threadRel st' x' \<and> bufData (crx x') = r \<and>
          (case ev of
             None \<Rightarrow> out = BcContinue \<and> sentOn fd [] s s'
           | Some (UpMsg op d) \<Rightarrow> out = BcComplete \<and> st' = None \<and> cmsgOpcode x' = op \<and> bufData (cmsg x') = d \<and> sentOn fd [] s s'
           | Some (UpReply op d) \<Rightarrow> out = BcContinue \<and> (\<exists>mk. length mk = 4 \<and> sentOn fd (clientFrame mk op d) s s'))))"

lemma protocolError_refines:
  assumes "calm s" and "accepts fd s"
  shows "threadRefines (UpClose (codeBytes code)) r fd s (protocolError fd code x s)"
proof -
  obtain mk s' where "sendMaskedFrame fd WS_OP_CLOSE (codeBytes code) s = (0, s')" "length mk = 4"
    "sentOn fd (clientFrame mk WS_OP_CLOSE (codeBytes code)) s s'"
    using sendMaskedFrame_accepts [OF assms, of WS_OP_CLOSE "codeBytes code"] by (auto simp: ws_op_defs)
  then show ?thesis by (auto simp: threadRefines_def protocolError_def sendCloseCode_def codeBytes_def)
qed

lemma bcControl_refines:
  assumes rel: "threadRel st x" and s: "calm s" "accepts fd s" and rx: "drop tot (bufData (crx x)) = r"
  shows "threadRefines (if hOpcode h = WS_OP_PING then UpNext st (Some (UpReply WS_OP_PONG p))
      else if hOpcode h = WS_OP_CLOSE then UpClose (if length p = 1 then codeBytes 1002 else p) else UpNext st None) r fd s
      (bcControl fd h p tot x s)"
proof -
  obtain mk s1 where po: "sendMaskedFrame fd WS_OP_PONG p s = (0, s1)" "length mk = 4" "sentOn fd (clientFrame mk WS_OP_PONG p) s s1"
    using sendMaskedFrame_accepts [OF s, of WS_OP_PONG p] by (auto simp: ws_op_defs)
  obtain mk' s2 where cl: "sendMaskedFrame fd WS_OP_CLOSE p s = (0, s2)" "length mk' = 4"
    "sentOn fd (clientFrame mk' WS_OP_CLOSE p) s s2"
    using sendMaskedFrame_accepts [OF s, of WS_OP_CLOSE p] by (auto simp: ws_op_defs)
  have keep: "threadRel st (x\<lparr>crx := bufConsume (crx x) tot\<rparr>)"
    using rel by (cases st) (auto simp: threadRel_def bufInv_bufConsume)
  show ?thesis using po cl keep rx sentOn_refl [OF s] protocolError_refines [OF s, of 1002 r x]
    by (auto simp: bcControl_def threadRefines_def bufConsume_view)
qed

text \<open>The receiver's step on a data frame, in terms of the validator's state.\<close>

lemma dataStep_feed:
  assumes "op = WS_OP_TEXT \<longrightarrow> wsUtf8Feed wsUtf8Reset acc = (0, u0)"
    and "(if op = WS_OP_TEXT \<and> 0 < length p then wsUtf8Feed u0 p else (0, u0)) = (rc, u)"
  shows "dataStep conf fin op acc p =
    (if maxMessage conf < length acc + length p then RClose 1009 else if rc \<noteq> 0 then RClose 1007
     else if \<not> fin then RNext (Some (op, acc @ p)) None
     else if op = WS_OP_TEXT \<and> \<not> wsUtf8Done u then RClose 1007 else RNext None (Some (EvMsg op (acc @ p))))"
    and "op = WS_OP_TEXT \<longrightarrow> wsUtf8Feed wsUtf8Reset (acc @ p) = (rc, u)"
proof -
  show whole: "op = WS_OP_TEXT \<longrightarrow> wsUtf8Feed wsUtf8Reset (acc @ p) = (rc, u)"
    using assms by (auto simp: wsUtf8Feed_append split: if_splits)
  have "rc = 0 \<longleftrightarrow> \<not> (op = WS_OP_TEXT \<and> \<not> utf8_prefix (acc @ p))"
    using whole assms(2) wsUtf8Feed_prefix [of "acc @ p"] by (auto split: if_splits)
  then show "dataStep conf fin op acc p =
    (if maxMessage conf < length acc + length p then RClose 1009 else if rc \<noteq> 0 then RClose 1007
     else if \<not> fin then RNext (Some (op, acc @ p)) None
     else if op = WS_OP_TEXT \<and> \<not> wsUtf8Done u then RClose 1007 else RNext None (Some (EvMsg op (acc @ p))))"
    using whole by (auto simp: dataStep_def utf8_valid_def)
qed

lemma bcDataOpen_refines:
  assumes rel: "threadRel (Some (op, acc)) x" and s: "calm s" "accepts fd s" and rx: "drop tot (bufData (crx x)) = r"
  shows "threadRefines (upRes (dataStep conf fin op acc p)) r fd s (bcDataOpen fd conf fin p tot x s)"
proof -
  have inv: "bufInv (crx x)" "bufInv (cmsg x)" and op: "cmsgOpcode x = op" and acc: "bufData (cmsg x) = acc" "cfrag x"
    and u8: "op = WS_OP_TEXT \<longrightarrow> wsUtf8Feed wsUtf8Reset acc = (0, cutf8 x)" using rel by (simp_all add: threadRel_def)
  obtain rc u where feed: "(if op = WS_OP_TEXT \<and> 0 < length p then wsUtf8Feed (cutf8 x) p else (0, cutf8 x)) = (rc, u)" by fastforce
  note step = dataStep_feed [OF u8 feed]
  obtain b s1 where app: "bufAppend (cmsg x) p s = (b, s1)" by fastforce
  have mem: "mallocs s = []" using s(1) by (simp add: calm_def)
  note a = append_msg [OF app inv(2) mem] and s1 = bufAppend_calm [OF app mem]
  have "bufLen (cmsg x) = length acc" using acc by (simp flip: length_bufData)
  then have size: "maxMessage conf < bufLen (cmsg x) \<or> maxMessage conf - bufLen (cmsg x) < length p \<longleftrightarrow>
      maxMessage conf < length acc + length p" by auto
  define x2 where "x2 = x\<lparr>cutf8 := u, cmsg := b, crx := bufConsume (crx x) tot\<rparr>"
  have open_eq: "bcDataOpen fd conf fin p tot x s =
      (if maxMessage conf < length acc + length p then protocolError fd 1009 x s
       else if rc \<noteq> 0 then protocolError fd 1007 (x\<lparr>cutf8 := u\<rparr>) s
       else if \<not> fin then (BcContinue, x2, s)
       else if op = WS_OP_TEXT \<and> \<not> wsUtf8Done u then protocolError fd 1007 (x2\<lparr>cfrag := False\<rparr>) s
       else (BcComplete, x2\<lparr>cfrag := False\<rparr>, s))"
    using feed app by (simp add: bcDataOpen_def Let_def size op s1 x2_def)
  have "rc = 0 \<longrightarrow> threadRel (Some (op, acc @ p)) x2" "threadRel None (x2\<lparr>cfrag := False\<rparr>)"
    "bufData (crx x2) = r" "cmsgOpcode x2 = op" "bufData (cmsg x2) = acc @ p"
    using inv a acc op step(2) rx by (simp_all add: x2_def threadRel_def bufInv_bufConsume bufConsume_view)
  then show ?thesis
    unfolding open_eq step(1) using protocolError_refines [OF s] sentOn_refl [OF s]
    by (simp add: upRes_def threadRefines_def)
qed

lemma bcData_refines:
  assumes rel: "threadRel st x" and s: "calm s" "accepts fd s" and rx: "drop tot (bufData (crx x)) = r"
    and data: "\<not> hMasked h" "\<not> maxFrame conf < length p" "hOpcode h \<in> {WS_OP_CONT, WS_OP_TEXT, WS_OP_BIN}"
  shows "threadRefines (clientStep conf st (h, p)) r fd s (bcData fd conf h p tot x s)"
proof -
  have other: "hOpcode h \<notin> {WS_OP_PING, WS_OP_CLOSE, WS_OP_PONG}" using data(3) by (auto simp: ws_op_defs)
  note cstep = clientStep_data [OF data(1,2) other]
  have open_iff: "cfrag x \<longleftrightarrow> st \<noteq> None" using rel by (auto simp: threadRel_def split: option.splits)
  show ?thesis
  proof (cases "(hOpcode h = WS_OP_CONT) = (st = None)")
    case True
    then have "bcData fd conf h p tot x s = protocolError fd 1002 x s" using open_iff by (auto simp: bcData_def)
    then show ?thesis using True protocolError_refines [OF s] by (simp add: cstep)
  next
    case False
    define x1 where "x1 = (if hOpcode h = WS_OP_CONT then x
      else x\<lparr>cmsgOpcode := hOpcode h, cfrag := True, cmsg := bufReset (cmsg x), cutf8 := wsUtf8Reset\<rparr>)"
    have "bcData fd conf h p tot x s = bcDataOpen fd conf (hFin h) p tot x1 s"
      using False open_iff by (auto simp: bcData_def x1_def)
    moreover have rel1: "threadRel (Some (case st of None \<Rightarrow> hOpcode h | Some (op, acc) \<Rightarrow> op,
        case st of None \<Rightarrow> [] | Some (op, acc) \<Rightarrow> acc)) x1"
      using False rel by (cases st) (auto simp: threadRel_def x1_def bufInv_bufReset bufReset_view)
    moreover have "drop tot (bufData (crx x1)) = r" using rx by (simp add: x1_def)
    moreover note bcDataOpen_refines [OF rel1 s this, of conf "hFin h" p]
    ultimately show ?thesis by (simp only: cstep False if_False)
  qed
qed

lemma bcFrameStep_incomplete:
  assumes "upIncomplete conf (bufData (crx x))"
  shows "bcFrameStep fd conf x s = (BcReturn 0, x, s)"
proof (cases "wsParseHeader (bufData (crx x))")
  case (WS_OK h)
  then show ?thesis using assms header_fits [OF wsParseHeader_sound(1) [OF WS_OK]]
    by (simp add: upIncomplete_def bcFrameStep_def Let_def)
qed (use assms in \<open>simp_all add: upIncomplete_def bcFrameStep_def\<close>)

lemma bcFrameStep_refused:
  assumes s: "calm s" "accepts fd s" and "wsParseHeader (bufData (crx x)) = WS_OK (fst f)" and "refused conf f"
    and "length (snd f) = unat (hPayloadLen (fst f))"
  shows "threadRefines (clientStep conf st f) r fd s (bcFrameStep fd conf x s)"
proof -
  have "bcFrameStep fd conf x s = protocolError fd (if hMasked (fst f) then 1002 else 1009) x s"
    using assms(3-5) by (cases "hMasked (fst f)") (simp_all add: refused_def bcFrameStep_def Let_def)
  then show ?thesis unfolding refused_closes [OF assms(4)] using protocolError_refines [OF s] by simp
qed

lemma bcFrameStep_refines:
  assumes rel: "threadRel st x" and s: "calm s" "accepts fd s" and valid: "frame_valid (h, p)"
    and rx: "bufData (crx x) = frame_encode (h, p) @ r"
  shows "threadRefines (clientStep conf st (h, p)) r fd s (bcFrameStep fd conf x s)"
proof -
  have v: "hdr_valid h" "unat (hPayloadLen h) = length p" using valid by (simp_all add: frame_valid_def)
  have hdr: "wsParseHeader (bufData (crx x)) = WS_OK h"
    unfolding rx frame_encode_def using wsParseHeader_encode [OF v(1)] by simp
  show ?thesis
  proof (cases "refused conf (h, p)")
    case True
    then show ?thesis using bcFrameStep_refused [OF s, of x "(h, p)" conf st r] hdr v by simp
  next
    case False
    then have ok: "\<not> hMasked h" "\<not> maxFrame conf < length p" by (simp_all add: refused_def)
    have d: "bufData (crx x) = hdr_encode h @ p @ r" using rx ok by (simp add: frame_encode_def frame_clear_unmask)
    have len: "length (hdr_encode h) = hHeaderLen h" by (rule hdr_encode_length [OF v(1)])
    let ?tot = "hHeaderLen h + length p"
    have "bufLen (crx x) = length (bufData (crx x))" by simp
    then have big: "\<not> bufLen (crx x) < ?tot" unfolding d by (simp add: len)
    have tk: "take (length p) (drop (hHeaderLen h) (bufData (crx x))) = p" "drop ?tot (bufData (crx x)) = r"
      unfolding d by (simp_all flip: len)
    have step: "bcFrameStep fd conf x s = (if hOpcode h AND 0x8 \<noteq> 0 then bcControl fd h p ?tot x s
        else bcData fd conf h p ?tot x s)"
      using ok hdr v big tk(1) header_fits [OF v(1)] by (simp add: bcFrameStep_def Let_def)
    have ops: "hOpcode h \<in> {WS_OP_CONT, WS_OP_TEXT, WS_OP_BIN, WS_OP_CLOSE, WS_OP_PING, WS_OP_PONG}"
      using v(1) by (simp add: hdr_valid_def)
    show ?thesis
    proof (cases "hOpcode h \<in> {WS_OP_CLOSE, WS_OP_PING, WS_OP_PONG}")
      case True
      from bcControl_refines [OF rel s tk(2), of h p] have "threadRefines (clientStep conf st (h, p)) r fd s (bcControl fd h p ?tot x s)"
        using True ok by (auto simp: clientStep_def)
      then show ?thesis using True step control_opcode(1) [OF ops] by simp
    next
      case data: False
      then have "hOpcode h \<in> {WS_OP_CONT, WS_OP_TEXT, WS_OP_BIN}" using ops by auto
      from bcData_refines [OF rel s tk(2) ok this] show ?thesis using data step control_opcode(1) [OF ops] by auto
    qed
  qed
qed

subsection \<open>The frame loop publishes every message twice\<close>

fun publishedTwice :: "up_event list \<Rightarrow> (u64 \<times> byte \<times> byte list) list" where
  "publishedTwice [] = []"
| "publishedTwice (UpMsg op d # evs) = (0, op, d) # (0, op, d) # publishedTwice evs"
| "publishedTwice (UpReply op d # evs) = publishedTwice evs"

definition threadResult :: "int option \<times> (bool \<times> Msg_t Queue_t) list \<times> WsClientRx_t \<times> 'a world_scheme \<Rightarrow>
    (bool \<times> Msg_t Queue_t) list \<Rightarrow> int \<Rightarrow> 'a world_scheme \<Rightarrow> up_event list \<Rightarrow> (byte \<times> byte list) option option \<Rightarrow> byte list \<Rightarrow> bool" where
  "threadResult q waits fd w evs fin u \<longleftrightarrow> (case q of (r, waits', x', w') \<Rightarrow> waits' = waits \<and> calm w' \<and> accepts fd w' \<and>
     rxs w' = rxs w \<and> closed w' = closed w \<and> ctrlQueue w' = ctrlQueue w \<and> conns w' = conns w \<and> queueInv (dataQueue w') \<and>
     (\<exists>ms. qcontents (dataQueue w') = qcontents (dataQueue w) @ ms \<and> map msgView ms = publishedTwice evs) \<and>
     (\<exists>bs. wire w' = (wire w)(fd := wire w fd @ bs) \<and> answers evs bs) \<and>
     (case fin of None \<Rightarrow> r = Some 1 \<or> r = Some (-1) | Some st' \<Rightarrow> r = Some 0 \<and> threadRel st' x' \<and> bufData (crx x') = u))"

lemma publishUpstreamMessage_calm:
  assumes "calm w" and "accepts fd w" and "queueInv (dataQueue w)" and "queueSize (dataQueue w) < confHigh conf"
  shows "\<exists>m w'. publishUpstreamMessage waits conf x w = (Some 0, waits, w') \<and> calm w' \<and> accepts fd w' \<and> rxs w' = rxs w \<and>
    closed w' = closed w \<and> ctrlQueue w' = ctrlQueue w \<and> conns w' = conns w \<and> wire w' = wire w \<and> queueInv (dataQueue w') \<and>
    qcontents (dataQueue w') = qcontents (dataQueue w) @ [m] \<and> msgView m = (0, cmsgOpcode x, bufData (cmsg x)) \<and>
    qsize (dataQueue w') = Suc (qsize (dataQueue w))"
  using assms
  by (auto simp: publishUpstreamMessage_def publishWait.simps [of waits] msgNewData_def os_alloc_def os_realtime_def push_data_def
      push_def calm_def accepts_def pushLocked_contents qsize_pushLocked msgView_def split: list.split)

lemma sentOn_world:
  "sentOn fd bs (w :: 'a world_scheme) w' \<Longrightarrow> dataQueue w' = dataQueue w \<and> ctrlQueue w' = ctrlQueue w \<and> conns w' = conns w"
  unfolding sentOn_def by (cases w, cases w') simp

lemma threadResult_closed:
  assumes "threadRefines (UpClose p) r fd w (out, x', w')" and "queueInv (dataQueue w)"
  shows "\<exists>n. out = BcReturn n \<and> threadResult (Some n, waits, x', w') waits fd w [UpReply WS_OP_CLOSE p] None u"
proof -
  obtain mk where s: "length mk = 4" "sentOn fd (clientFrame mk WS_OP_CLOSE p) w w'"
    and out: "out = BcReturn 1 \<or> out = BcReturn (-1)" using assms(1) by (auto simp: threadRefines_def)
  from s(2) sentOn_world [OF s(2)] out assms(2) s(1) show ?thesis by (auto simp: threadResult_def sentOn_def)
qed

lemma threadResult_after:
  assumes "sentOn fd bs w w1" and "answers evs1 bs" and "publishedTwice (evs1 @ evs2) = publishedTwice evs2"
    and "threadResult q waits fd w1 evs2 fin u"
  shows "threadResult q waits fd w (evs1 @ evs2) fin u"
  using assms(4) assms(1-3) sentOn_world [OF assms(1)] unfolding threadResult_def
  by (auto simp: sentOn_def split: prod.splits option.splits intro: answers_append)

lemma threadResult_published:
  assumes "sentOn fd [] w w1"
    and "wire w2 = wire w1" "rxs w2 = rxs w1" "closed w2 = closed w1" "ctrlQueue w2 = ctrlQueue w1" "conns w2 = conns w1"
    and "qcontents (dataQueue w2) = qcontents (dataQueue w1) @ [m, m']"
    and "msgView m = (0, op, d)" and "msgView m' = (0, op, d)" and "threadResult q waits fd w2 evs fin u"
  shows "threadResult q waits fd w (UpMsg op d # evs) fin u"
proof -
  obtain r waits' x' w' where q: "q = (r, waits', x', w')" by (metis prod_cases4)
  from assms(10) obtain ms where "qcontents (dataQueue w') = qcontents (dataQueue w2) @ ms" "map msgView ms = publishedTwice evs"
    by (auto simp: threadResult_def q)
  then have "\<exists>ms. qcontents (dataQueue w') = qcontents (dataQueue w) @ ms \<and> map msgView ms = publishedTwice (UpMsg op d # evs)"
    using assms(7-9) sentOn_world [OF assms(1)] by (intro exI [of _ "m # m' # ms"]) simp
  then show ?thesis using assms(1-6,10) sentOn_world [OF assms(1)] by (auto simp: threadResult_def q sentOn_def)
qed

lemma threadRel_bufReset: "threadRel None x \<Longrightarrow> threadRel None (x\<lparr>cmsg := bufReset (cmsg x)\<rparr>)"
  by (simp add: threadRel_def bufInv_bufReset)

lemma processFrames_main:
  assumes "threadRel st x" and "calm w" and "accepts fd w" and "queueInv (dataQueue w)" and "list_all frame_valid fs"
    and "bufData (crx x) = concat (map frame_encode fs) @ u" and "upTail conf u g"
    and "qsize (dataQueue w) + 2 * length fs \<le> confHigh conf" and "clientReceive conf st (fs @ g) = (evs, fin)"
  shows "threadResult (processFrames waits fd conf x w) waits fd w evs fin u"
  using assms
proof (induction fs arbitrary: st x w evs)
  case Nil
  then have u: "bufData (crx x) = u" by simp
  from Nil.prems(7) consider (wait) "g = []" "upIncomplete conf u"
    | (early) f where "g = [f]" "refused conf f" "wsParseHeader u = WS_OK (fst f)" "length (snd f) = unat (hPayloadLen (fst f))"
    by (auto simp: upTail_def)
  then show ?case
  proof cases
    case wait
    then have "processFrames waits fd conf x w = (Some 0, waits, x, w)"
      using bcFrameStep_incomplete [of conf x fd w] u by (simp add: processFrames.simps [of waits fd conf x w])
    then show ?thesis using Nil wait by (auto simp: threadResult_def)
  next
    case early
    obtain p where p: "clientStep conf st f = UpClose p"
      and ref: "threadRefines (clientStep conf st f) [] fd w (bcFrameStep fd conf x w)"
      using bcFrameStep_refused [OF Nil.prems(2,3), of x f conf st "[]"] refused_closes [OF early(2)] early u by blast
    obtain out x1 w1 where step: "bcFrameStep fd conf x w = (out, x1, w1)" by (metis prod_cases3)
    have "u \<noteq> []" using early(3) by (auto simp: wsParseHeader_def)
    then have some: "bufLen (crx x) \<noteq> 0" using u by (metis length_0_conv length_bufData)
    obtain n where n: "out = BcReturn n" "threadResult (Some n, waits, x1, w1) waits fd w [UpReply WS_OP_CLOSE p] None u"
      using threadResult_closed [of p "[]" fd w out x1 w1 waits u] ref p step Nil.prems(4) by auto
    have "processFrames waits fd conf x w = (Some n, waits, x1, w1)"
      using some step n(1) by (simp add: processFrames.simps [of waits fd conf x w])
    then show ?thesis using n(2) p Nil.prems(9) early(1) by simp
  qed
next
  case (Cons f fs)
  obtain h p where f: "f = (h, p)" by (cases f)
  let ?r = "concat (map frame_encode fs) @ u"
  obtain out x1 w1 where step: "bcFrameStep fd conf x w = (out, x1, w1)" by (metis prod_cases3)
  have ref: "threadRefines (clientStep conf st f) ?r fd w (out, x1, w1)"
    using bcFrameStep_refines [OF Cons.prems(1-3), of h p ?r conf] Cons.prems(5,6) step by (simp add: f)
  have "bufData (crx x) \<noteq> []" using Cons.prems(6) by (simp add: frame_encode_nonempty)
  then have some: "bufLen (crx x) \<noteq> 0" by (metis length_0_conv length_bufData)
  note unf = processFrames.simps [of waits fd conf x w]
  show ?case
  proof (cases "clientStep conf st f")
    case (UpClose pl)
    then obtain n where n: "out = BcReturn n" "threadResult (Some n, waits, x1, w1) waits fd w [UpReply WS_OP_CLOSE pl] None u"
      using threadResult_closed [of pl ?r fd w out x1 w1 waits u] ref Cons.prems(4) by auto
    then have "processFrames waits fd conf x w = (Some n, waits, x1, w1)" using some step by (simp add: unf)
    then show ?thesis using n(2) UpClose Cons.prems(9) by simp
  next
    case (UpNext st' ev)
    obtain evs' where rec: "clientReceive conf st' (fs @ g) = (evs', fin)"
      and evs: "evs = (case ev of None \<Rightarrow> [] | Some e \<Rightarrow> [e]) @ evs'"
      using Cons.prems(9) UpNext by (auto split: prod.splits option.splits)
    have r1: "threadRel st' x1" "bufData (crx x1) = ?r" using UpNext ref by (simp_all add: threadRefines_def)
    show ?thesis
    proof (cases "\<exists>op d. ev = Some (UpMsg op d)")
      case True
      then obtain op d where ev: "ev = Some (UpMsg op d)" by blast
      with UpNext ref have o: "out = BcComplete" "st' = None" "cmsgOpcode x1 = op" "bufData (cmsg x1) = d" "sentOn fd [] w w1"
        by (simp_all add: threadRefines_def)
      have w1: "calm w1" "accepts fd w1" and q1: "dataQueue w1 = dataQueue w"
        using o(5) sentOn_world [OF o(5)] by (simp_all add: sentOn_def)
      obtain m w2 where pub: "publishUpstreamMessage waits conf x1 w1 = (Some 0, waits, w2)" "calm w2" "accepts fd w2"
        "rxs w2 = rxs w1" "closed w2 = closed w1" "ctrlQueue w2 = ctrlQueue w1" "conns w2 = conns w1" "wire w2 = wire w1"
        "queueInv (dataQueue w2)" "qcontents (dataQueue w2) = qcontents (dataQueue w1) @ [m]" "msgView m = (0, op, d)"
        "qsize (dataQueue w2) = Suc (qsize (dataQueue w1))"
        using publishUpstreamMessage_calm [OF w1, of conf waits x1] o(3,4) Cons.prems(4,8) q1 by (auto simp: queueSize_def)
      obtain m' w3 where pub': "publishUpstreamMessage waits conf x1 w2 = (Some 0, waits, w3)" "calm w3" "accepts fd w3"
        "rxs w3 = rxs w2" "closed w3 = closed w2" "ctrlQueue w3 = ctrlQueue w2" "conns w3 = conns w2" "wire w3 = wire w2"
        "queueInv (dataQueue w3)" "qcontents (dataQueue w3) = qcontents (dataQueue w2) @ [m']" "msgView m' = (0, op, d)"
        "qsize (dataQueue w3) = Suc (qsize (dataQueue w2))"
        using publishUpstreamMessage_calm [OF pub(2,3,9), of conf waits x1] o(3,4) Cons.prems(8) q1 pub(12) by (auto simp: queueSize_def)
      let ?x2 = "x1\<lparr>cmsg := bufReset (cmsg x1)\<rparr>"
      have loop: "processFrames waits fd conf x w = processFrames waits fd conf ?x2 w3"
        using some step o(1) pub(1) pub'(1) by (simp add: unf)
      have "threadResult (processFrames waits fd conf ?x2 w3) waits fd w3 evs' fin u"
        using Cons.IH [OF _ pub'(2,3,9) _ _ Cons.prems(7) _ rec [unfolded o(2)], of ?x2] r1 o(2) threadRel_bufReset [of x1]
          Cons.prems(5,8) q1 pub(12) pub'(12) by simp
      then show ?thesis unfolding loop evs ev
        using threadResult_published [OF o(5), of w3 m m' op d] pub pub' by simp
    next
      case False
      obtain bs where s: "sentOn fd bs w w1" "out = BcContinue" "answers (case ev of None \<Rightarrow> [] | Some e \<Rightarrow> [e]) bs"
        using False UpNext ref by (cases ev; cases "the ev") (auto simp: threadRefines_def intro: answers_reply)
      have loop: "processFrames waits fd conf x w = processFrames waits fd conf x1 w1"
        using some step s(2) by (simp add: unf)
      have "threadResult (processFrames waits fd conf x1 w1) waits fd w1 evs' fin u"
        using Cons.IH [OF r1(1) _ _ _ _ r1(2) Cons.prems(7) _ rec] s(1) sentOn_world [OF s(1)] Cons.prems(4,5,8)
        by (simp add: sentOn_def)
      moreover have "publishedTwice ((case ev of None \<Rightarrow> [] | Some e \<Rightarrow> [e]) @ evs') = publishedTwice evs'"
        using False by (cases ev; cases "the ev") auto
      ultimately show ?thesis unfolding loop evs using threadResult_after [OF s(1,3)] by blast
    qed
  qed
qed

subsection \<open>The thread ends and closes its sockets\<close>

text \<open>A script in which the shutdown flag is raised at some point.\<close>

definition stops :: "(bool \<times> 'b) list \<Rightarrow> bool" where
  "stops es \<longleftrightarrow> list_ex fst es"

lemma stops_simps [simp]: "\<not> stops []" "stops (e # es) \<longleftrightarrow> fst e \<or> stops es"
  by (simp_all add: stops_def)

lemma waitConnect_stops: "stops rs \<Longrightarrow> waitConnect rs elapsed \<noteq> None"
  by (induction rs elapsed rule: waitConnect.induct) (auto split: poll_res.split option.split)

definition tcpAnswered :: "tcp_addr \<Rightarrow> bool" where
  "tcpAnswered a \<longleftrightarrow> (case a of TcpTry fd (TcpInProgress rs) ok \<Rightarrow>
     stops rs \<or> 20 \<le> length (filter (\<lambda>(stop, p, err). p \<noteq> PollIntr) rs) | _ \<Rightarrow> True)"

fun tcpSockets :: "tcp_addr list \<Rightarrow> int list" where
  "tcpSockets [] = []"
| "tcpSockets (TcpNoSocket # rs) = tcpSockets rs"
| "tcpSockets (TcpNoFlags fd # rs) = fd # tcpSockets rs"
| "tcpSockets (TcpNoNonblock fd # rs) = fd # tcpSockets rs"
| "tcpSockets (TcpTry fd con ok # rs) = fd # tcpSockets rs"

text \<open>The result names a socket that is open, or is -1; every other socket of the addresses tried is closed.\<close>

definition tcpResult :: "tcp_addr list \<Rightarrow> 'a os_scheme \<Rightarrow> int option \<times> 'a os_scheme \<Rightarrow> bool" where
  "tcpResult rs s q \<longleftrightarrow> (\<exists>fd k xs. fst q = Some fd \<and> closed (snd q) = closed s @ xs \<and>
     xs @ (if fd < 0 then [] else [fd]) = tcpSockets (take k rs) \<and> (fd < 0 \<longrightarrow> k = length rs))"

lemma tcpResult_step:
  assumes "tcpResult rs s1 q" and "closed s1 = closed s @ ys" and "\<And>k. tcpSockets (a # take k rs) = ys @ tcpSockets (take k rs)"
  shows "tcpResult (a # rs) s q"
proof -
  obtain fd k xs where r: "fst q = Some fd" "closed (snd q) = closed s1 @ xs"
    "xs @ (if fd < 0 then [] else [fd]) = tcpSockets (take k rs)" "fd < 0 \<longrightarrow> k = length rs"
    using assms(1) unfolding tcpResult_def by blast
  then show ?thesis using assms(2,3) unfolding tcpResult_def
    by (intro exI [of _ fd] exI [of _ "Suc k"] exI [of _ "ys @ xs"]) simp
qed

lemma tcpLoop_ends:
  "list_all tcpAnswered rs \<Longrightarrow> list_all (\<lambda>fd. 0 \<le> fd) (tcpSockets rs) \<Longrightarrow> tcpResult rs s (tcpLoop rs s)"
proof (induction rs s rule: tcpLoop.induct)
  case (1 s)
  then show ?case by (simp add: tcpResult_def)
next
  case (5 fd con restored rs s)
  define c where "c = (case con of TcpDone \<Rightarrow> Some 0 | TcpRefused \<Rightarrow> Some (-1) | TcpInProgress rounds \<Rightarrow> waitConnect rounds 0)"
  have "c \<noteq> None" using "5.prems"(1) waitConnect_returns [of 0] waitConnect_stops
    by (auto simp: c_def tcpAnswered_def split: tcp_connect.splits)
  then obtain rc where rc: "c = Some rc" by blast
  have unf: "tcpLoop (TcpTry fd con restored # rs) s =
      (if rc \<noteq> 0 \<or> \<not> restored then tcpLoop rs (os_close fd s) else (Some fd, s))"
    using rc by (simp add: c_def)
  show ?case
  proof (cases "rc \<noteq> 0 \<or> \<not> restored")
    case True
    then have "tcpResult rs (os_close fd s) (tcpLoop rs (os_close fd s))"
      using "5.IH" [OF rc [unfolded c_def]] "5.prems" by (cases "rc = 0") simp_all
    then show ?thesis using True unf tcpResult_step [of rs "os_close fd s" _ s "[fd]" "TcpTry fd con restored"] by (simp add: os_close_def)
  next
    case False
    then have "tcpResult (TcpTry fd con restored # rs) s (Some fd, s)"
      using "5.prems"(2) unfolding tcpResult_def by (auto intro: exI [of _ 1])
    then show ?thesis using False unf by simp
  qed
qed (auto intro: tcpResult_step [where ys = "[]"] tcpResult_step [where ys = "[_]"] simp: os_close_def)

text \<open>Nothing between the connection and its end closes a descriptor.\<close>

lemma sendAll_closed: "sendAll fd bs s = (rc, s') \<Longrightarrow> closed s' = closed s"
proof (induction fd bs s arbitrary: rc s' rule: sendAll.induct)
  case (1 fd bs s)
  obtain r s1 where r: "os_send fd bs s = (r, s1)" by fastforce
  then show ?case using "1.prems" "1.IH"(1) [OF _ r [symmetric]] "1.IH"(2) [OF _ r [symmetric]] os_send_frame [OF r]
    by (auto simp: sendAll.simps [of fd bs s] split: if_splits io_res.splits)
qed

lemma sendMaskedFrame_closed: "sendMaskedFrame fd op p s = (rc, s') \<Longrightarrow> closed s' = closed s"
  by (auto simp: sendMaskedFrame_def Let_def split: prod.splits option.splits if_splits
      dest!: randomBytes_os sendAll_closed os_alloc_frame)

lemma sendCloseCode_closed: "closed (snd (sendCloseCode fd code s)) = closed s"
  using sendMaskedFrame_closed by (metis prod.collapse sendCloseCode_def)

lemma bcDataOpen_closed: "bcDataOpen fd conf fin p tot x s = (out, x', s') \<Longrightarrow> closed s' = closed s"
  by (auto simp: bcDataOpen_def protocolError_def Let_def sendCloseCode_closed split: prod.splits if_splits dest!: bufAppend_frame)

lemma bcFrameStep_closed: "bcFrameStep fd conf x s = (out, x', s') \<Longrightarrow> closed s' = closed s"
  by (auto simp: bcFrameStep_def bcControl_def bcData_def protocolError_def Let_def sendCloseCode_closed
      split: WsRc_t.splits prod.splits if_splits dest: bcDataOpen_closed sendMaskedFrame_closed)
    (metis prod.collapse sendMaskedFrame_closed)

lemma publishWait_ends:
  assumes "publishWait waits conf m w = (r, waits', w')" and "stops waits"
  shows "closed w' = closed w \<and> r \<noteq> None \<and> (r = Some 0 \<longrightarrow> stops waits')"
  using assms
proof (induction waits conf m w rule: publishWait.induct)
  case (1 waits conf m w)
  show ?case
  proof (cases "confHigh conf \<le> queueSize (dataQueue w)")
    case True
    then obtain e q rs where "waits = (e, q) # rs" using "1.prems"(2) by (cases waits) auto
    then show ?thesis using True "1" by (cases e) (auto simp: publishWait.simps [of "_ # _"])
  next
    case False
    then show ?thesis using "1.prems"
      by (auto simp: publishWait.simps [of waits] push_data_def push_def os_alloc_def split: list.splits if_splits prod.splits)
  qed
qed

lemma publishUpstreamMessage_ends:
  assumes "publishUpstreamMessage waits conf x w = (r, waits', w')" and "stops waits"
  shows "closed w' = closed w \<and> r \<noteq> None \<and> (r = Some 0 \<longrightarrow> stops waits')"
  using assms publishWait_ends
  by (fastforce simp: publishUpstreamMessage_def msgNewData_def os_alloc_def os_realtime_def split: list.splits if_splits option.splits prod.splits)

lemma processFrames_ends:
  assumes "processFrames waits fd conf x w = (r, waits', x', w')" and "stops waits"
  shows "closed w' = closed w \<and> r \<noteq> None \<and> (r = Some 0 \<longrightarrow> stops waits')"
  using assms
proof (induction waits fd conf x w arbitrary: r waits' x' w' rule: processFrames.induct)
  case (1 waits fd conf x w)
  note unf = processFrames.simps [of waits fd conf x w]
  obtain out x1 w1 where step: "bcFrameStep fd conf x w = (out, x1, w1)" by (metis prod_cases3)
  note c1 = bcFrameStep_closed [OF step]
  show ?case
  proof (cases "bufLen (crx x) = 0 \<or> (\<exists>n. out = BcReturn n)")
    case True
    then have "processFrames waits fd conf x w = (Some 0, waits, x, w) \<or>
        (\<exists>n. processFrames waits fd conf x w = (Some n, waits, x1, w1))"
      using step by (cases "bufLen (crx x) = 0") (auto simp: unf)
    then show ?thesis using "1.prems" c1 by auto
  next
    case False
    then consider "out = BcContinue" | "out = BcComplete" by (cases out) auto
    then show ?thesis
    proof cases
      case 1
      then show ?thesis using "1.IH"(1) [OF _ step [symmetric] refl] "1.prems" False step c1 by (simp add: unf)
    next
      case 2
      obtain r1 ws1 w2 where p1: "publishUpstreamMessage waits conf x1 w1 = (r1, ws1, w2)" by (metis prod_cases3)
      obtain r2 ws2 w3 where p2: "publishUpstreamMessage ws1 conf x1 w2 = (r2, ws2, w3)" by (metis prod_cases3)
      note e1 = publishUpstreamMessage_ends [OF p1 "1.prems"(2)] and e2 = publishUpstreamMessage_ends [OF p2]
      have unf2: "processFrames waits fd conf x w = (if r1 \<noteq> Some 0 then (map_option (\<lambda>_. -1) r1, ws1, x1, w2)
          else if r2 \<noteq> Some 0 then (map_option (\<lambda>_. -1) r2, ws2, x1, w3)
          else processFrames ws2 fd conf (x1\<lparr>cmsg := bufReset (cmsg x1)\<rparr>) w3)"
        using False step 2 p1 p2 by (simp only: unf) simp
      show ?thesis
      proof (cases "r1 = Some 0 \<and> r2 = Some 0")
        case True
        then show ?thesis using "1.prems" "1.IH"(2) [OF _ step [symmetric] refl 2 p1 [symmetric]] unf2 False e1 e2 c1 p2 by simp
      next
        case other: False
        then show ?thesis using "1.prems"(1) unf2 e1 e2 c1 by (auto split: if_splits)
      qed
    qed
  qed
qed

lemma receiveReady_ends:
  assumes "receiveReady waits fd conf x w = (out, waits', x', w')" and "stops waits"
  shows "closed w' = closed w \<and> out \<noteq> RdPending \<and> (out = RdOn \<longrightarrow> stops waits')"
proof -
  obtain rr b w1 where rcv: "bufRecv fd (crx x) 4096 (maxMessage conf + maxFrame conf) w = (rr, b, w1)" by (metis prod_cases3)
  obtain r ws x2 w2 where pf: "processFrames waits fd conf (x\<lparr>crx := b\<rparr>) w1 = (r, ws, x2, w2)" by (metis prod_cases4)
  have c1: "closed w1 = closed w" using bufRecv_frame [OF rcv] by simp
  show ?thesis using assms(1) rcv pf processFrames_ends [OF pf assms(2)] c1
    by (auto simp: receiveReady_def Let_def sendCloseCode_closed split: if_splits option.splits)
qed

lemma receiveLoop_ends:
  assumes "receiveLoop rounds waits fd conf x w = (r, x', w')" and "stops rounds" and "stops waits"
  shows "closed w' = closed w \<and> r \<noteq> None"
  using assms
proof (induction rounds arbitrary: waits x w)
  case (Cons e rs)
  obtain stop p where e: "e = (stop, p)" by (cases e)
  obtain rc ws1 x1 w1 where pf: "processFrames waits fd conf x w = (rc, ws1, x1, w1)" by (metis prod_cases4)
  note f = processFrames_ends [OF pf Cons.prems(3)]
  obtain out ws2 x2 w2 where rdy: "receiveReady ws1 fd conf x1 w1 = (out, ws2, x2, w2)" by (metis prod_cases4)
  note unf = receiveLoop.simps [of "_ # _"]
  show ?case
  proof (cases "rc = Some 0 \<and> \<not> stop")
    case False
    then show ?thesis using Cons.prems(1) pf f by (auto simp: unf e sendCloseCode_closed split: if_splits)
  next
    case True
    then have st: "stops ws1" "stops rs" "closed w1 = closed w" using f Cons.prems(2) e by auto
    note ready = receiveReady_ends [OF rdy st(1)]
    show ?thesis
    proof (cases p)
      case (PollReady fl)
      then show ?thesis
        using Cons.prems(1) True pf rdy ready st Cons.IH [OF _ st(2)] by (cases out) (auto simp: unf e split: if_splits)
    qed (use Cons.prems(1) True pf st Cons.IH [OF _ st(2)] in \<open>auto simp: unf e\<close>)
  qed
qed simp

lemma readUpgradeResponse_ends:
  assumes "readUpgradeResponse rounds waited fd conf expected b s = (r, b', s')" and "stops rounds"
  shows "closed s' = closed s \<and> r \<noteq> None"
  using assms
proof (induction rounds arbitrary: waited b s)
  case (Cons e rs)
  obtain stop p where e: "e = (stop, p)" by (cases e)
  note unf = readUpgradeResponse.simps [of "_ # _"]
  show ?case
  proof (cases "checkUpgrade conf expected (bufData b) \<noteq> UpgradeMore \<or> stop")
    case True
    then show ?thesis using Cons.prems(1) by (auto simp: unf e split: upgrade_res.splits)
  next
    case False
    then have go: "stops rs" "checkUpgrade conf expected (bufData b) = UpgradeMore" "\<not> stop" using Cons.prems(2) e by auto
    show ?thesis
    proof (cases p)
      case (PollReady fl)
      obtain q s1 where q: "os_recv fd 4096 s = (q, s1)" by fastforce
      note c1 = os_recv_frame [OF q]
      have app: "closed s2 = closed s" if "bufAppend b xs s1 = (b2, s2)" for xs b2 s2
        using bufAppend_frame [OF that] c1 by simp
      show ?thesis using Cons.prems(1) go PollReady q c1 Cons.IH [OF _ go(1)]
        by (cases q) (auto simp: unf e split: if_splits prod.splits dest: app)
    qed (use Cons.prems(1) go Cons.IH [OF _ go(1)] in \<open>auto simp: unf e split: if_splits\<close>)
  qed
qed simp

lemma performHandshake_ends:
  assumes "performHandshake rounds fd conf args b s = (r, b', s')" and "stops rounds"
  shows "closed s' = closed s \<and> r \<noteq> None"
proof -
  have rnd: "closed s1 = closed s" if "randomBytes 16 s = (q, s1)" for q s1 using randomBytes_os [OF that] by simp
  show ?thesis
    using assms rnd readUpgradeResponse_ends [of rounds 0 fd conf] sendAll_closed
    by (fastforce simp: performHandshake_def Let_def split: if_splits option.splits prod.splits)
qed

subsection \<open>Properties\<close>

text \<open>C8: The blocking client is the same WebSocket receiver as the clients of the reactor, except that it hands every
  message to the aggregator twice, because the frame loop calls \<open>publishUpstreamMessage\<close> before and after the
  log line. Let the buffer hold well-formed frames and the start of another, with room in the queue for two messages
  per frame: \<open>processFrames\<close> puts each message of the abstract client in the data queue two times in a row under
  the id 0, writes exactly the masked pongs and the masked close frame to the socket, returns 0 in the abstract
  client's state with the incomplete bytes kept, or 1 or -1 if the abstract client closes.\<close>

theorem processFrames_doubles:
  assumes "threadRel st x" and "calm w" and "accepts fd w" and "queueInv (dataQueue w)" and "list_all frame_valid fs"
    and "bufData (crx x) = concat (map frame_encode fs) @ rest" and "upIncomplete conf rest"
    and "qsize (dataQueue w) + 2 * length fs \<le> confHigh conf"
  shows "case clientReceive conf st fs of (evs, fin) \<Rightarrow> case processFrames waits fd conf x w of (r, waits', x', w') \<Rightarrow>
    map msgView (qcontents (dataQueue w')) = map msgView (qcontents (dataQueue w)) @ publishedTwice evs \<and>
    (\<exists>bs. wire w' = (wire w)(fd := wire w fd @ bs) \<and> answers evs bs) \<and> closed w' = closed w \<and> waits' = waits \<and>
    (case fin of None \<Rightarrow> r = Some 1 \<or> r = Some (-1)
     | Some st' \<Rightarrow> r = Some 0 \<and> threadRel st' x' \<and> bufData (crx x') = rest)"
proof -
  obtain evs fin where rec: "clientReceive conf st fs = (evs, fin)" by fastforce
  have "upTail conf rest []" using assms(7) by (simp add: upTail_def)
  from processFrames_main [OF assms(1-6) this assms(8), of evs fin waits] rec show ?thesis
    by (auto simp: threadResult_def)
qed

definition thread_rx :: WsClientRx_t where
  "thread_rx = rx_zero\<lparr>crx := received [129, 2, 104, 105, 137, 1, 120]\<rparr>"

lemma received_view: "bufInv (received bs)" "bufData (received bs) = bs"
  by (simp_all add: received_def bufInv_def bufData_def)

theorem processFrames_doubles_witness:
  "case processFrames [] 6 server_defaults thread_rx up_world of (r, waits', x', w') \<Rightarrow>
    r = Some 0 \<and> map msgView (qcontents (dataQueue w')) = [(0, WS_OP_TEXT, [104, 105]), (0, WS_OP_TEXT, [104, 105])] \<and>
    (\<exists>mk. length mk = 4 \<and> wire w' 6 = clientFrame mk WS_OP_PONG [120]) \<and> threadRel None x'"
proof -
  have "upIncomplete server_defaults []" by (simp add: upIncomplete_def wsParseHeader_def)
  moreover have "threadRel None thread_rx" "bufData (crx thread_rx) = [129, 2, 104, 105, 137, 1, 120]"
    using received_view by (simp_all add: thread_rx_def rx_zero_def threadRel_def)
  moreover have "accepts 6 up_world" "wire up_world 6 = []"
    by (simp_all add: up_world_def recv_world_def accepts_def os_idle_def os.defs conn_world.defs world.defs)
  ultimately show ?thesis
    using processFrames_doubles [of None thread_rx up_world 6 up_frames "[]" server_defaults "[]"] up_frames_encode up_world_fields
    by (auto simp: up_frames_receive queueInv_create qsize_create length_up_frames split: prod.splits)
qed

text \<open>C16: The blocking client thread ends once the shutdown flag is raised, and leaks no socket. If the flag is seen
  raised in the course of each of its waits (and every address answers within 5 s or the flag is raised), the
  thread returns, and the descriptors it has closed are exactly the sockets it opened, in order: those of the
  addresses up to the one that connected, or of all of them.\<close>

theorem wsClientThread_ends:
  assumes "list_all tcpAnswered rs" and "list_all (\<lambda>fd. 0 \<le> fd) (tcpSockets rs)"
    and "stops answersHs" and "stops rounds" and "stops waits"
  shows "case wsClientThread (Some rs) answersHs rounds waits conf args w of (returned, w') \<Rightarrow>
    returned \<and> (\<exists>fd k xs. fst (tcpConnect (Some rs) w) = Some fd \<and> xs = tcpSockets (take k rs) \<and>
      closed w' = closed w @ xs \<and> (if fd < 0 then k = length rs else xs \<noteq> [] \<and> last xs = fd))"
proof -
  obtain q w1 where q: "tcpConnect (Some rs) w = (q, w1)" by fastforce
  then have "tcpResult rs w (q, w1)" using tcpLoop_ends [OF assms(1,2), of w] by (simp add: tcpConnect_def)
  then obtain fd k xs where fd: "q = Some fd" "closed w1 = closed w @ xs"
    "xs @ (if fd < 0 then [] else [fd]) = tcpSockets (take k rs)" "fd < 0 \<longrightarrow> k = length rs" by (auto simp: tcpResult_def)
  obtain hs b w2 where hs: "performHandshake answersHs fd conf args (crx rx_zero) w1 = (hs, b, w2)" by (metis prod_cases3)
  obtain rl x w3 where rl: "receiveLoop rounds waits fd conf (rx_zero\<lparr>crx := b\<rparr>) w2 = (rl, x, w3)" by (metis prod_cases3)
  note e = performHandshake_ends [OF hs assms(3)] receiveLoop_ends [OF rl assms(4,5)]
  have "\<exists>w'. wsClientThread (Some rs) answersHs rounds waits conf args w = (True, w') \<and>
      closed w' = closed w @ tcpSockets (take k rs)"
    using q fd hs rl e by (cases "hs = Some 0") (auto simp: wsClientThread_def os_close_def)
  then obtain w' where "wsClientThread (Some rs) answersHs rounds waits conf args w = (True, w')"
    and "closed w' = closed w @ tcpSockets (take k rs)" by blast
  moreover have "if fd < 0 then k = length rs else tcpSockets (take k rs) \<noteq> [] \<and> last (tcpSockets (take k rs)) = fd"
    using fd(3,4) by (metis append_is_Nil_conv last_snoc list.distinct(1))
  ultimately show ?thesis using q fd(1) by (simp only: prod.case fst_conv simp_thms) blast
qed

text \<open>The first address has no socket, the second is refused, the third connects after a wait; then the flag is raised.\<close>

theorem wsClientThread_ends_witness:
  "case wsClientThread (Some [TcpNoSocket, TcpTry 7 TcpRefused True, TcpTry 8 (TcpInProgress [(False, PollTimeout, None), (False, PollReady [POLLOUT], Some 0), (True, PollErr, None)]) True])
      [(True, PollTimeout)] [(True, PollTimeout)] [(True, createQueue)] server_defaults
      \<lparr>waHost = [104], waPort = 80, waPath = Some [47]\<rparr> up_world of (returned, w') \<Rightarrow>
    returned \<and> closed w' = [7, 8]"
proof -
  let ?rs = "[TcpNoSocket, TcpTry 7 TcpRefused True, TcpTry 8 (TcpInProgress [(False, PollTimeout, None), (False, PollReady [POLLOUT], Some 0), (True, PollErr, None)]) True]"
  have c: "fst (tcpConnect (Some ?rs) up_world) = Some 8" by (simp add: tcpConnect_def)
  have e: "closed up_world = []" by (simp add: up_world_def recv_world_def os_idle_def os.defs conn_world.defs world.defs)
  have k: "tcpSockets (take k ?rs) = [7, 8]" if "last (tcpSockets (take k ?rs)) = 8" "tcpSockets (take k ?rs) \<noteq> []" for k
    using that by (cases k; cases "k - 1"; cases "k - 2"; cases "k - 3") (auto simp: numeral_2_eq_2 numeral_3_eq_3)
  show ?thesis
    using wsClientThread_ends [of ?rs "[(True, PollTimeout)]" "[(True, PollTimeout)]" "[(True, createQueue)]" up_world
        server_defaults "\<lparr>waHost = [104], waPort = 80, waPath = Some [47]\<rparr>"] c e
    by (auto simp: tcpAnswered_def dest!: k split: prod.splits)
qed

end
