(* ===== verification/Logger.thy ===== *)
theory Logger
  imports Prelude
begin

section \<open>The log (src/src/logger.c)\<close>

text \<open>
  The log writes to a file opened for appending and to the terminal. The state is the stream \<open>log_file\<close> (the
  name of the open file, if any), the contents of the files and what the terminal has shown. The local time and
  the message as \<open>vfprintf\<close> formats it are arguments of a call; writes to an open stream succeed. The mutex makes
  each call one step. The other theories leave their log lines out: nothing in the program reads this state.
\<close>

datatype LogLevel = LOG_DEBUG | LOG_INFO | LOG_ERROR

primrec levelNum :: "LogLevel \<Rightarrow> nat" where
  "levelNum LOG_DEBUG = 0"
| "levelNum LOG_INFO = 1"
| "levelNum LOG_ERROR = 2"

text \<open>The levels are compared as numbers.\<close>

instantiation LogLevel :: linorder
begin

definition less_eq_LogLevel :: "LogLevel \<Rightarrow> LogLevel \<Rightarrow> bool" where
  "less_eq_LogLevel l k \<longleftrightarrow> levelNum l \<le> levelNum k"

definition less_LogLevel :: "LogLevel \<Rightarrow> LogLevel \<Rightarrow> bool" where
  "less_LogLevel l k \<longleftrightarrow> levelNum l < levelNum k"

instance
proof
  fix x y :: LogLevel
  show "x \<le> y \<Longrightarrow> y \<le> x \<Longrightarrow> x = y" by (cases x; cases y) (simp_all add: less_eq_LogLevel_def)
qed (auto simp: less_eq_LogLevel_def less_LogLevel_def)

end

record logger_st =
  log_file :: "string option"
  disk :: "string \<Rightarrow> byte list"
  terminal :: "byte list"

text \<open>\<open>opened\<close> says whether \<open>fopen\<close> succeeds; a failure also forgets a stream that was open.\<close>

definition init_logger :: "string \<Rightarrow> bool \<Rightarrow> logger_st \<Rightarrow> int \<times> logger_st" where
  "init_logger filename opened s =
     (if \<not> opened then (-1, s\<lparr>log_file := None\<rparr>) else (0, s\<lparr>log_file := Some filename\<rparr>))"

definition close_logger :: "logger_st \<Rightarrow> logger_st" where
  "close_logger s = (if log_file s \<noteq> None then s\<lparr>log_file := None\<rparr> else s)"

definition fileLine :: "LogLevel \<times> byte list \<times> byte list \<Rightarrow> byte list" where
  "fileLine e = (case e of (level, time_str, msg) \<Rightarrow>
     bytes ''['' @ time_str @ bytes ''] ['' @ dec (levelNum level) @ bytes ''] '' @ msg @ [10])"

definition terminalLine :: "LogLevel \<times> byte list \<times> byte list \<Rightarrow> byte list" where
  "terminalLine e = (case e of (level, time_str, msg) \<Rightarrow> bytes ''['' @ time_str @ bytes ''] '' @ msg @ [10])"

definition logger :: "LogLevel \<times> byte list \<times> byte list \<Rightarrow> logger_st \<Rightarrow> logger_st" where
  "logger e s =
     (let s1 = (case log_file s of None \<Rightarrow> s | Some f \<Rightarrow> s\<lparr>disk := (disk s)(f := disk s f @ fileLine e)\<rparr>)
      in if LOG_INFO \<le> fst e then s1\<lparr>terminal := terminal s1 @ terminalLine e\<rparr> else s1)"

text \<open>The lines of a list of calls, for each of the two outputs.\<close>

definition onTerminal :: "(LogLevel \<times> byte list \<times> byte list) list \<Rightarrow> byte list" where
  "onTerminal es = concat (map terminalLine (filter (\<lambda>e. fst e \<noteq> LOG_DEBUG) es))"

lemma info_iff [simp]: "LOG_INFO \<le> l \<longleftrightarrow> l \<noteq> LOG_DEBUG"
  by (cases l) (simp_all add: less_eq_LogLevel_def)

text \<open>
  While a file is open, the calls append all their lines to it in order and touch no other file; with none open,
  they write to the terminal only. The terminal never shows the debugging lines.
\<close>

lemma fold_logger:
  "fold logger es s = s\<lparr>disk := (case log_file s of None \<Rightarrow> disk s
       | Some f \<Rightarrow> (disk s)(f := disk s f @ concat (map fileLine es))),
     terminal := terminal s @ onTerminal es\<rparr>"
  by (induction es arbitrary: s) (auto simp: logger_def onTerminal_def Let_def split: option.split)

text \<open>A session: the file has the lines of the session, and none of the later ones, which the terminal alone shows.\<close>

lemma logger_session:
  assumes "init_logger f True s = (0, s1)" and "s2 = close_logger (fold logger es s1)" and "s3 = fold logger late s2"
  shows "disk s3 = (disk s)(f := disk s f @ concat (map fileLine es))" and "log_file s3 = None"
    and "terminal s3 = terminal s @ onTerminal (es @ late)"
  using assms by (auto simp: init_logger_def close_logger_def fold_logger onTerminal_def)

end
