(* ===== verification/ParkRace.thy ===== *)
theory ParkRace
  imports Handlers AggSafety
begin

section \<open>Parking a source is not one step\<close>

text \<open>
  \<open>handleWsOpen\<close> puts the connection on the park list and then takes it out of epoll; theory Worker has both in
  \<open>parkConn\<close>. Between the two calls the aggregator may already resume it. This theory looks at the two orders of
  the worker's \<open>EPOLL_CTL_DEL\<close> and the aggregator's \<open>EPOLL_CTL_ADD\<close>.
\<close>

text \<open>The first of the worker's calls (worker.c, lines 292 and 293).\<close>

definition parkBegin :: "nat \<Rightarrow> Conn_t \<Rightarrow> Msg_t \<Rightarrow> 'a world_scheme \<Rightarrow> 'a world_scheme" where
  "parkBegin c x m w = parkListPush c (upd_conn c (\<lambda>_. x\<lparr>pendingMsg := Some m\<rparr>) w)"

text \<open>The second (line 294).\<close>

definition parkEnd :: "Conn_t \<Rightarrow> 'a world_scheme \<Rightarrow> 'a world_scheme" where
  "parkEnd x w = snd (os_epoll_ctl (cepollfd x) EPOLL_CTL_DEL (cfd x) [] w)"

lemma parkConn_halves: "parkConn c x m w = parkEnd x (parkBegin c x m w)"
  by (simp add: parkConn_def parkEnd_def parkBegin_def Let_def)

lemma parkEnd_effect:
  "ep_log (parkEnd x w) = ep_log w @ [(EPOLL_CTL_DEL, cepollfd x, cfd x, [])]" "os.more (parkEnd x w) = os.more w"
  using os_epoll_ctl_frame [of "cepollfd x" EPOLL_CTL_DEL "cfd x" "[]" w "fst (os_epoll_ctl (cepollfd x) EPOLL_CTL_DEL (cfd x) [] w)" "parkEnd x w"]
  by (simp_all add: parkEnd_def)

lemma resumeParked_registers:
  assumes "resumeParked c w = Some w'" and "conns w c = Some x"
  shows "watched (cepollfd x) (cfd x) (ep_log w')"
  using assms
  by (auto simp: resumeParked_def Let_def os_epoll_ctl_def split: option.splits list.splits)

text \<open>Resuming the head of the list.\<close>

lemma pumpResume_head:
  assumes inv: "sysInv conf v" and park: "parked v = c # cs" and x: "conns v c = Some x"
    and low: "queueSize (dataQueue v) \<le> lowWatermark (agg v)"
  obtains v' where "pumpResume v = Some v'" "sysInv conf v'" "c \<notin> set (owned v')" "conns v' c \<noteq> None"
    "watched (cepollfd x) (cfd x) (ep_log v')"
proof -
  have pi: "parkInv v" using inv by (simp add: sysInv_def)
  obtain w1 where pop: "parkListPop v = Some (c, w1)"
    using park.deq_None [OF pi] park.deq_Some [OF pi] park by (cases "parkListPop v") auto
  note p = parkListPop_inv [OF inv pop]
  from resumeParked_inv [OF p(1-3)] obtain v' where r: "resumeParked c w1 = Some v'" "sysInv conf v'" "owned v' = owned w1" by blast
  obtain x1 where x1: "conns w1 c = Some x1" "cepollfd x1 = cepollfd x" "cfd x1 = cfd x"
    using pop x by (auto simp: parkListPop_def Let_def upd_conn_def upd_agg_def split: option.splits if_splits)
  obtain m where "pendingMsg x1 = Some m" using r(1) x1(1) by (auto simp: resumeParked_def split: option.splits)
  from resumeParked_effect [OF x1(1) this] r(1) have "conns v' c \<noteq> None" by auto
  then show thesis
    using that [of v'] r p(3) pop low resumeParked_registers [OF r(1) x1(1)] x1(2,3) by (simp add: pumpResume_def)
qed

text \<open>The state between the two calls.\<close>

lemma parkBegin_inv:
  assumes "sysInv conf w" and "conns w c = Some y" and "linksEq x y" and "connInv x" and "c \<notin> set (owned w)" and "msgValid conf m"
  shows "sysInv conf (parkBegin c x m w)" and "parked (parkBegin c x m w) = parked w @ [c]"
proof -
  let ?x = "x\<lparr>pendingMsg := Some m\<rparr>"
  let ?u = "upd_conn c (\<lambda>_. ?x) w"
  have "linksEq ?x y" "connInv ?x" using assms(3,4) by (simp_all add: linksEq_def)
  from sysInv_write [OF assms(1,2) this] assms(5) have u: "sysInv conf ?u" "owned ?u = owned w" by (simp_all add: owned_def)
  have ok: "parkedOk conf ?u c" using assms(2,6) by (simp add: parkedOk_def upd_conn_def)
  show "sysInv conf (parkBegin c x m w)" unfolding parkBegin_def using sysInv_push_parked [OF u(1) ok] u(2) assms(5) by simp
  have free: "c \<notin> set (parked ?u)" using u(2) assms(5) by (simp add: owned_def)
  have "parked ?u = parked w" using u(2) by (simp add: owned_def)
  with free show "parked (parkBegin c x m w) = parked w @ [c]"
    unfolding parkBegin_def using park.contents_enq [of ?u c] u(1) assms(2) by (auto simp: sysInv_def)
qed

subsection \<open>Property\<close>

text \<open>C15: The two calls with which a worker parks a source do not commute with its resumption. When the aggregator
  resumes the first parked source after the worker has put it on the list but before the worker has taken it out of
  epoll, the worker's call undoes the registration: the connection is allocated and in nobody's hands, and no
  event will be reported for it again. In the other order, which the rest of the development assumes by taking
  \<open>parkConn\<close> as one step, the connection ends up registered.\<close>

theorem park_race:
  assumes "sysInv conf v" and "parked v = c # cs" and "conns v c = Some x"
    and "queueSize (dataQueue v) \<le> lowWatermark (agg v)"
  shows "(\<exists>v1. pumpResume v = Some v1 \<and> conns (parkEnd x v1) c \<noteq> None \<and> c \<notin> set (owned (parkEnd x v1)) \<and>
      \<not> watched (cepollfd x) (cfd x) (ep_log (parkEnd x v1))) \<and>
    (\<exists>v2. pumpResume (parkEnd x v) = Some v2 \<and> conns v2 c \<noteq> None \<and> c \<notin> set (owned v2) \<and>
      watched (cepollfd x) (cfd x) (ep_log v2))"
proof
  obtain v1 where v1: "pumpResume v = Some v1" "c \<notin> set (owned v1)" "conns v1 c \<noteq> None" by (rule pumpResume_head [OF assms])
  moreover have "conns (parkEnd x v1) = conns v1" using world_more(1) [OF parkEnd_effect(2)] .
  moreover have "owned (parkEnd x v1) = owned v1" using sysInv_more(2) [OF parkEnd_effect(2)] .
  ultimately show "\<exists>v1. pumpResume v = Some v1 \<and> conns (parkEnd x v1) c \<noteq> None \<and> c \<notin> set (owned (parkEnd x v1)) \<and>
      \<not> watched (cepollfd x) (cfd x) (ep_log (parkEnd x v1))" by (simp add: parkEnd_effect(1))
next
  note same = sysInv_more [OF parkEnd_effect(2)] world_more [OF parkEnd_effect(2)]
  have "link parkNext (parkEnd x v) = link parkNext v" by (simp add: link_def same fun_eq_iff)
  then have "parked (parkEnd x v) = parked v" by (simp add: parked_def same)
  then show "\<exists>v2. pumpResume (parkEnd x v) = Some v2 \<and> conns v2 c \<noteq> None \<and> c \<notin> set (owned v2) \<and>
      watched (cepollfd x) (cfd x) (ep_log v2)"
    using pumpResume_head [of conf "parkEnd x v" c cs x] assms same by metis
qed

definition half_parked :: world where
  "half_parked = parkBegin 0 source_conn (data_msg 1 [104]) recv_world"

theorem park_race_witness:
  "\<exists>v1. pumpResume half_parked = Some v1 \<and> \<not> watched 0 6 (ep_log (parkEnd source_conn v1)) \<and> 0 \<notin> set (owned (parkEnd source_conn v1))"
proof -
  have f: "agg recv_world = aggInit 8 4" "dataQueue recv_world = createQueue" "conns recv_world = [0 \<mapsto> source_conn]"
    by (simp_all add: recv_world_def os.defs conn_world.defs world.defs)
  have p0: "parked recv_world = []" by (simp add: parked_def f aggInit_def)
  have own: "0 \<notin> set (owned recv_world)"
    by (simp add: owned_def parked_def msgConns_def recv_world_def os.defs conn_world.defs world.defs aggInit_def)
  have "utf8_valid [104]" by code_simp
  then have m: "msgValid server_defaults (data_msg 1 [104])" by (auto simp: msgValid_def msgOk_def data_msg_def)
  have ci: "connInv source_conn" using sysInv_recv_world [of server_defaults] f(3) by (auto simp: sysInv_def connsInv_def)
  note b = parkBegin_inv [OF sysInv_recv_world _ _ ci own m, of source_conn, folded half_parked_def]
  have h: "conns half_parked 0 = Some (source_conn\<lparr>pendingMsg := Some (data_msg 1 [104])\<rparr>)"
    "queueSize (dataQueue half_parked) \<le> lowWatermark (agg half_parked)"
    by (simp_all add: half_parked_def parkBegin_def parkListPush_def f aggInit_def upd_conn_def upd_agg_def Let_def queueSize_def
        createQueue_def source_conn_def conn_zero_def)
  have e: "parkEnd (source_conn\<lparr>pendingMsg := Some (data_msg 1 [104])\<rparr>) v = parkEnd source_conn v" for v :: world
    by (simp add: parkEnd_def)
  have "cepollfd source_conn = 0" "cfd source_conn = 6" by (simp_all add: source_conn_def conn_zero_def)
  then show ?thesis
    using park_race [of server_defaults half_parked 0 "[]", OF _ _ h] b f(3) p0 e by (auto simp: linksEq_def)
qed

end
