(* ===== verification/Spec2Isabelle.thy ===== *)
theory Spec2Isabelle
  imports Rfc6455_Sample Utf8 UpstreamHandshake ServerLiveness ClientThreadProofs Logger ParkRace
begin

text \<open>
  A verification development of wsServer, a WebSocket aggregation server written in C. Paths are relative to src/,
  the root of the repository's files; the program is in src/src/ and src/inc/.

  \<^bold>\<open>The program.\<close> Sources connect to the server as WebSocket clients (or are servers themselves, to which the server
  connects, the ``upstreams''), and one sink receives the messages of all sources. Listener threads (listener.c) accept
  connections and put those with events into the queue \<open>ingest\<close>. Worker threads (worker.c) take them out, do the HTTP
  upgrade (http.c, ws.c, sha1.c, base64.c), decode frames and put complete messages into \<open>dataQueue\<close>, or hand the
  connection of a sink over through \<open>ctrlQueue\<close>. The upstream reactor (ws_client.c) does the client's side for the
  upstreams. The aggregator (agg.c) turns messages into frames for the sink. When the data queue is at the high
  watermark a source is parked, and resumed when it is down to the low watermark. \<open>main\<close> (server.c) reads the options (options.c),
  starts the threads, and after a signal joins them in the order reactor, listeners, workers, aggregator, and frees
  everything.

  \<^bold>\<open>The model.\<close> One definition per C function, composed as the code composes them. Structures are records, enumerations
  are datatypes, machine integers that can wrap are words, sizes of live objects are natural numbers, text is a list of
  bytes. The state is passed explicitly and grows by record extension: \<open>os\<close> (what the system calls will answer, as
  scripts, and what has been done to sockets, epoll and descriptors), \<open>conn_world\<close> (the connections in a store by
  address, and their registry), \<open>world\<close> (the three queues and the aggregator). Errors are the C return values, sums or
  options; \<open>None\<close> of a partial function is a loop that does not end or the use of a freed address.

  \<^bold>\<open>The theories.\<close>
  \<^item> Prelude: machine types, byte strings, decimal numbers, the collections of hints. Os: the system calls. Interfaces:
    the locales \<open>byte_consumer\<close> (feeding in pieces is feeding at once), \<open>fifo\<close> and \<open>codec\<close>, each interpreted on the
    model's definitions: SHA-1 and the UTF-8 validator consume bytes, the queue and the list of parked sources are first
    in first out, frames and frame headers are codecs. Pointers: linked lists in a store. Config: \<open>ServerConfig_t\<close>.
  \<^item> Buffer: \<open>Buf_t\<close> with \<open>bufRecv\<close> and \<open>bufSend\<close> (conn.c); contents, limits and termination, the doubling loop
    also on 64-bit words. Conn: \<open>Conn_t\<close> and the registry (conn.c).
  \<^item> RfcSpec: SHA-1 (RFC 3174), base64 (RFC 4648), and the masking, the key and the accept value of RFC 6455, written
    from the RFCs without any definition of the model.
  \<^item> Base64, Sha1, Utf8, Ws, Http, Json: the pure components (base64.c, sha1.c, ws.c, http.c, \<open>jsonEscapeInto\<close>), each
    against a reference: the functions of RfcSpec, the well-formed UTF-8 sequences, an inverse encoder for frames,
    header lines and comma lists, a reader of JSON strings. \<open>sha1\<close> is \<open>rfc3174\<close>, \<open>base64Encode\<close> is \<open>rfc4648\<close>,
    \<open>wsUnmask\<close> is \<open>rfc_mask\<close> and \<open>wsComputeAccept\<close> is \<open>rfc_accept\<close> on the keys the RFC allows and refuses the others.
    Rfc6455_Sample evaluates the sample handshake of the RFC.
  \<^item> Queue: the mutex-protected queue (queue.c); its critical sections against a list, and the step relation \<open>qstep\<close> of
    sleeping consumers, in which no wake-up is lost. The write to the eventfd after the unlock is part of the step.
  \<^item> Worker: worker.c. WorkerProofs: its frame loop refines the abstract receiver \<open>receive\<close>, which works on whole frames.
    WorkerSafety: what holds for arbitrary bytes. Listener: \<open>connectionHandle\<close> and the loop's body (listener.c).
  \<^item> Agg and Sink: agg.c; messages, numbering of sources, parking; the sink's slots, pump, drain and event loop.
    SinkProofs: the pump returns, loses, repeats and reorders nothing, and delivers everything to a sink that reads.
  \<^item> Invariant: \<open>sysInv\<close>, the invariant of the shared state: registry, park list and queues are well formed, every
    connection is in at most one hand, messages under way are bounded and valid. Handlers, AggSafety, System: the
    workers, the aggregator, the listeners preserve it. Effects: which thread touches which queue.
  \<^item> Upstream: the reactor (ws_client.c up to line 1307). UpstreamProofs: its clients refine the abstract client
    \<open>clientReceive\<close>, however the stream is cut. UpstreamHandshake: the two ends of the handshake in this repository agree.
    UpstreamSafety: the invariant of the reactor under arbitrary servers and failing calls, and where it loses a
    client or a message.
  \<^item> ClientThread: the blocking client of one upstream (ws_client.c from line 1312), which \<open>main\<close> no longer starts.
    ClientThreadProofs: it refines the same abstract client but publishes each message twice, and ends without a leak.
  \<^item> Options: options.c on the options \<open>getopt_long\<close> yields. Startup: the set-up of every thread and \<open>main\<close> up to the wait.
    Server: \<open>main\<close> from the signal to the exit, the step relation \<open>sstep\<close> of all threads and its reachable states,
    with the invariant \<open>serverInv\<close>. ServerLiveness: the shutdown, with the condition under which it can be completed.
    Logger: logger.c.

  \<^bold>\<open>Lemmas and properties.\<close> The lemmas of a theory give, for each operation, what it does to the view of its data
  (\<open>bufData\<close>, \<open>qcontents\<close>, \<open>parked\<close>), that it keeps the representation invariant, and what it leaves alone. A property
  is a theorem after a text marked with its number; those with hypotheses have a witness, the same theorem applied to
  concrete data. The refinements assume a system in which allocation and \<open>epoll_ctl\<close> succeed (\<open>mallocs s = []\<close>,
  \<open>calm\<close>) and, where messages are published, room in the queue; the invariants assume no more than what is said below
  and hold for all inputs and all answers of the sockets.

  \<^bold>\<open>Loops.\<close> There is no fuel. Loops over data are functions with a termination proof. A loop over a blocking call
  consumes a script of that call's answers: the reactor's rounds, the waits of the blocking client. Its result is \<open>None\<close>
  only when the script ends first, and that the client returns is proved for scripts in which the shutdown flag is raised
  (\<open>wsClientThread_ends\<close>); its blocking \<open>send\<close> always answers. Loops that end only because of an invariant are partial functions (\<open>aggPump\<close>, the drains,
  \<open>growCap64\<close>, the loops that free lists), and that they return is proved from it.

  \<^bold>\<open>Concurrency.\<close> A step of \<open>sstep\<close> is one turn of a thread's loop, one step of \<open>main\<close>, or a change of what the system
  will answer; \<open>sstep False\<close> are the steps in which no call fails. Turns of different threads work on different connections and meet in the queues, the registry and the park
  list, whose operations hold a mutex; interleavings inside a turn are not steps. One that matters: a worker puts
  a connection on the park list before it takes it out of epoll, which \<open>parkConn\<close> does in one step; ParkRace shows what
  happens when the aggregator resumes the connection in between. The steps assume what the kernel promises: an event is
  reported for a registered connection or client (\<open>levOk\<close>, \<open>roundOk\<close>), the shutdown only to a listener whose \<open>epoll_ctl\<close>
  for the eventfd was made and succeeded (\<open>wakeable\<close>), fresh memory is not in use (\<open>acceptFresh\<close>). A turn
  of a worker or of the reactor runs with a working allocator; the single operations also cover allocation failures.

  \<^bold>\<open>What was found.\<close> The theorems also state behaviour that is hardly meant: a control frame can land inside a half-sent
  data frame (\<open>sinkFlush_interleaves\<close>); the 257th source has no numbering (\<open>agg_numbering\<close>); a buffer's limit is short by one
  chunk (\<open>bufRecv_correct\<close>); numbers on the command line wrap (\<open>parseArgs_truncates\<close>); an upstream whose
  registration fails is never tried again (\<open>upstreamConnect_stuck\<close>, \<open>reconnectLoop_stuck\<close>); a hang-up loses the message of a
  paused client (\<open>hangup_loses_message\<close>); a sink that neither reads nor closes keeps the server from ending
  (\<open>sink_stalls\<close>); a listener whose registration of the eventfd is refused, which the code does not check, never ends,
  and \<open>main\<close> waits for it (\<open>shutdown_completes\<close>); the blocking client duplicates messages (\<open>processFrames_doubles\<close>); a source that is resumed while it
  is being parked is never served again (\<open>park_race\<close>).

  \<^bold>\<open>Not modelled.\<close> The log lines of the other components and the messages on the terminal, which nothing reads.
  \<open>getopt_long\<close>, \<open>getaddrinfo\<close>, \<open>connect\<close>, \<open>getsockopt\<close>, \<open>poll\<close>, \<open>epoll_wait\<close>, \<open>pthread_create\<close>, the clocks and the random
  generator are not translated: their answers are arguments or scripts. The memory of messages, frames and buffers is not
  tracked, apart from the connections and the queues' nodes, so leaks of a payload are out of sight. Tests, build files
  and documentation are not part of the model.
\<close>

end
